(* ===== verification/Kibosh_Prelude.thy ===== *)
theory Kibosh_Prelude
  imports Complex_Main "HOL-Library.Word" "HOL-Library.Sublist" "HOL-Library.Code_Target_Nat"
begin

text \<open>
  Shared vocabulary of the development: the C types and constants the sources of Kibosh
  use (\<open>char\<close> buffers, C strings, \<open>int\<close> and \<open>int64_t\<close> values, \<open>errno\<close> codes), the
  allocator that may run out of memory, and the generic lemmas on lists, words and C
  strings on which the component theories rest.

  Conventions. A C string is the list of its bytes without the terminating NUL. A buffer
  that may hold NUL bytes is read as a C string through \<open>cstr\<close>. A 32-bit \<open>int\<close> is a
  \<open>32 word\<close> read with \<open>sint\<close>. A result that is an errno code is a negative \<open>int\<close>.
\<close>

named_theorems cstring "facts on C strings and their comparison"
named_theorems alloc_simps "rewriting of the allocator"

section \<open>Types and constants\<close>

type_synonym int32 = "32 word"
type_synonym uint32 = "32 word"
type_synonym int64 = "64 word"

abbreviation (input) NUL :: char where
  "NUL \<equiv> CHR 0x00"

definition EINTR :: int where "EINTR = 4"
definition EIO :: int where "EIO = 5"
definition ENOMEM :: int where "ENOMEM = 12"
definition EINVAL :: int where "EINVAL = 22"
definition ENAMETOOLONG :: int where "ENAMETOOLONG = 36"

lemmas errno_defs = EINTR_def EIO_def ENOMEM_def EINVAL_def ENAMETOOLONG_def

text \<open>
  The outcomes of a C function that returns a pointer or a status. \<open>Segv\<close> is the
  dereference of a null pointer, which ends the process.
\<close>

datatype c_error = Errno int | Segv

text \<open>
  A handler returns, ends the process (a null pointer, \<open>abort\<close>), or never returns (a lock
  that is held already, a loop that does not end).
\<close>

datatype 'a run = Ret 'a | Crash | Stuck

section \<open>The allocator\<close>

text \<open>
  \<open>malloc\<close>, \<open>calloc\<close>, \<open>strdup\<close> and \<open>vasprintf\<close> may fail. The outcomes of the
  allocations still to come are a list; when it is used up, allocations succeed. Every
  finite run of the program performs finitely many allocations, so each of its behaviours
  is the behaviour under some list.
\<close>

type_synonym mem = "bool list"

fun alloc :: "mem \<Rightarrow> bool \<times> mem" where
  "alloc [] = (True, [])"
| "alloc (b # bs) = (b, bs)"

declare alloc.simps [alloc_simps]

lemma alloc_Nil_iff: "alloc m = (True, []) \<longleftrightarrow> m = [] \<or> m = [True]"
  by (cases m) auto

lemma alloc_length: "alloc m = (b, m') \<Longrightarrow> length m' \<le> length m"
  by (cases m) auto

section \<open>C strings\<close>

definition cstr :: "char list \<Rightarrow> string" where
  "cstr buf = takeWhile (\<lambda>c. c \<noteq> NUL) buf"

text \<open>\<open>strcmp(a, b) == 0\<close> and \<open>strncmp(a, b, n) == 0\<close>.\<close>

definition strcmp_eq :: "char list \<Rightarrow> char list \<Rightarrow> bool" where
  "strcmp_eq a b \<longleftrightarrow> cstr a = cstr b"

fun strncmp_eq :: "char list \<Rightarrow> char list \<Rightarrow> nat \<Rightarrow> bool" where
  "strncmp_eq a b 0 = True"
| "strncmp_eq [] [] (Suc n) = True"
| "strncmp_eq [] (b # bs) (Suc n) = (b = NUL)"
| "strncmp_eq (a # as) [] (Suc n) = (a = NUL)"
| "strncmp_eq (a # as) (b # bs) (Suc n) =
     (if a \<noteq> b then False else if a = NUL then True else strncmp_eq as bs n)"

lemma strncmp_eq_code [code]:
  "strncmp_eq a b n =
     (if n = 0 then True
      else case (a, b) of
        ([], []) \<Rightarrow> True
      | ([], y # _) \<Rightarrow> y = NUL
      | (x # _, []) \<Rightarrow> x = NUL
      | (x # xs, y # ys) \<Rightarrow> if x \<noteq> y then False else if x = NUL then True else strncmp_eq xs ys (n - 1))"
  by (cases n; cases a; cases b) simp_all

definition nul_free :: "char list \<Rightarrow> bool" where
  "nul_free s \<longleftrightarrow> NUL \<notin> set s"

lemma cstr_nul_free [simp]: "nul_free s \<Longrightarrow> cstr s = s"
  by (auto simp: cstr_def nul_free_def takeWhile_eq_all_conv)

lemma nul_free_cstr [simp]: "nul_free (cstr s)"
  by (auto simp: cstr_def nul_free_def dest: set_takeWhileD)

lemma cstr_idem [simp]: "cstr (cstr s) = cstr s"
  by simp

lemma nul_free_simps [simp]:
  "nul_free []"
  "nul_free (c # s) \<longleftrightarrow> c \<noteq> NUL \<and> nul_free s"
  "nul_free (s @ t) \<longleftrightarrow> nul_free s \<and> nul_free t"
  by (auto simp: nul_free_def)

lemma strcmp_eq_iff [cstring]: "nul_free a \<Longrightarrow> nul_free b \<Longrightarrow> strcmp_eq a b \<longleftrightarrow> a = b"
  by (simp add: strcmp_eq_def)

text \<open>
  The test \<open>strncmp(path, prefix, strlen(prefix)) == 0\<close> of the sources is the prefix
  order on strings, and the comparison of the tail of \<open>path\<close> is the suffix order.
\<close>

lemma strncmp_prefix [cstring]:
  "nul_free s \<Longrightarrow> nul_free p \<Longrightarrow> strncmp_eq s p (length p) \<longleftrightarrow> prefix p s"
proof (induction p arbitrary: s)
  case Nil
  then show ?case by simp
next
  case (Cons c p)
  then show ?case by (cases s) auto
qed

lemma drop_suffix [cstring]:
  "length t \<le> length s \<Longrightarrow> drop (length s - length t) s = t \<longleftrightarrow> suffix t s"
  by (auto simp: suffix_def) (metis append_take_drop_id)

section \<open>Lists\<close>

lemma take_length_take: "take (length (take k xs)) xs = take k xs"
  by (simp add: min_def)

section \<open>Integer conversions\<close>

text \<open>
  Assigning an \<open>int64_t\<close> to an \<open>int\<close> or a \<open>uint32_t\<close> keeps the low 32 bits.
\<close>

definition to_int32 :: "int64 \<Rightarrow> int32" where
  "to_int32 x = ucast x"

definition to_uint32 :: "int64 \<Rightarrow> uint32" where
  "to_uint32 x = ucast x"

definition int32_of :: "int \<Rightarrow> int32" where
  "int32_of i = word_of_int i"

lemma sint_int32_range: "- (2 ^ 31) \<le> sint (w :: int32)" "sint (w :: int32) < 2 ^ 31"
  using sint_greater_eq [of w] sint_less [of w] by simp_all

lemma sint_word_of_int_id:
  "- (2 ^ 31) \<le> i \<Longrightarrow> i < 2 ^ 31 \<Longrightarrow> sint (word_of_int i :: int32) = i"
  by (simp add: signed_of_int signed_take_bit_int_eq_self_iff)

lemma to_int32_of_int:
  "to_int32 (word_of_int i) = word_of_int i"
  by (simp add: to_int32_def ucast_eq word_of_int_eq_iff take_bit_word_eq_self
      uint_word_of_int_eq flip: take_bit_eq_mod)

end
