(* ===== verification/C_Double.thy ===== *)
theory C_Double
  imports Kibosh_Prelude
begin

text \<open>
  The C \<open>double\<close> and the \<open>drand48\<close> family. The sources keep fractions as doubles, compute
  them while parsing JSON numbers and compare and multiply them with pseudo-random
  numbers, so both are modelled: a double is a sign and an exact magnitude (or an infinity
  or NaN), every operation rounds the exact result to the nearest double, ties to even
  (IEEE 754 binary64), and the generator is the 48-bit linear congruential one POSIX
  prescribes. \<open>pow\<close> is taken as correctly rounded; the sign and payload of a NaN are not
  kept.
\<close>

section \<open>Magnitudes of numbers\<close>

text \<open>The number of digits of \<open>n\<close> in base \<open>b\<close>.\<close>

function ndig :: "int \<Rightarrow> int \<Rightarrow> nat" where
  "ndig b n = (if n \<le> 0 \<or> b < 2 then 0 else Suc (ndig b (n div b)))"
  by pat_completeness auto
termination
  by (relation "measure (\<lambda>(b, n). nat n)") (auto simp: int_div_less_self)

declare ndig.simps [simp del]

lemma ndig_pos: "0 < n \<Longrightarrow> 2 \<le> b \<Longrightarrow> 0 < ndig b n"
  by (subst ndig.simps) simp

lemma ndig_bounds:
  assumes "2 \<le> b" "0 < n"
  shows "b ^ (ndig b n - 1) \<le> n \<and> n < b ^ ndig b n"
  using assms
proof (induction b n rule: ndig.induct)
  case (1 b n)
  show ?case
  proof (cases "n < b")
    case True
    with "1.prems" have "ndig b n = 1"
      by (simp add: ndig.simps [of b n] ndig.simps [of b 0] div_pos_pos_trivial)
    with "1.prems" True show ?thesis by simp
  next
    case False
    let ?d = "ndig b (n div b)"
    have pos: "0 < n div b" using False "1.prems" by (simp add: pos_imp_zdiv_pos_iff)
    have IH: "b ^ (?d - 1) \<le> n div b" "n div b < b ^ ?d"
      using 1 pos by auto
    have d: "0 < ?d" using pos "1.prems"(1) by (simp add: ndig_pos)
    have eq: "ndig b n = Suc ?d" using "1.prems" by (simp add: ndig.simps [of b n])
    have "b * b ^ (?d - 1) \<le> b * (n div b)"
      using IH(1) "1.prems"(1) by (intro mult_left_mono) auto
    moreover have "b * b ^ (?d - 1) = b ^ ?d" using d by (simp flip: power_Suc)
    moreover have "b * (n div b) + n mod b = n" by simp
    moreover have "0 \<le> n mod b" "n mod b < b" using "1.prems"(1) by simp_all
    moreover have "b * (n div b) + b \<le> b * b ^ ?d"
      using mult_left_mono [of "n div b + 1" "b ^ ?d" b] IH(2) "1.prems"(1)
      by (simp add: distrib_left)
    ultimately have "b ^ ?d \<le> n" "n < b * b ^ ?d" by linarith+
    then show ?thesis by (simp add: eq)
  qed
qed

definition rpow :: "nat \<Rightarrow> int \<Rightarrow> rat" where
  "rpow b n = (if 0 \<le> n then of_nat b ^ nat n else 1 / of_nat b ^ nat (- n))"

lemma rpow_powi: "rpow b n = of_nat b powi n"
  by (simp add: rpow_def power_int_def field_simps)

lemma rpow_pos: "0 < b \<Longrightarrow> 0 < rpow b n"
  by (simp add: rpow_powi)

lemma rpow_mono: "1 \<le> b \<Longrightarrow> m \<le> n \<Longrightarrow> rpow b m \<le> rpow b n"
  by (simp add: rpow_powi power_int_increasing)

lemma rpow_add: "0 < b \<Longrightarrow> rpow b (m + n) = rpow b m * rpow b n"
  by (simp add: rpow_powi power_int_add)

text \<open>The exponent of the leading base-\<open>b\<close> digit of a positive rational.\<close>

definition flog :: "nat \<Rightarrow> rat \<Rightarrow> int" where
  "flog b x = (let (p, q) = quotient_of x;
                   n = int (ndig (int b) p) - int (ndig (int b) q)
               in if rpow b n \<le> x then n else n - 1)"

lemma flog_bounds:
  assumes b: "2 \<le> b" and x: "0 < x"
  shows "rpow b (flog b x) \<le> x \<and> x < rpow b (flog b x + 1)"
proof -
  obtain p q where pq: "quotient_of x = (p, q)" by (cases "quotient_of x")
  have q: "0 < q" using pq by (rule quotient_of_denom_pos)
  have xpq: "x = of_int p / of_int q" using pq by (rule quotient_of_div)
  have p: "0 < p" using x q by (simp add: xpq zero_less_divide_iff)
  have b': "2 \<le> int b" using b by simp
  define i j where "i = ndig (int b) p" and "j = ndig (int b) q"
  have ij: "0 < i" "0 < j" using p q b' by (simp_all add: i_def j_def ndig_pos)
  have bp: "int b ^ (i - 1) \<le> p" "p < int b ^ i" and bq: "int b ^ (j - 1) \<le> q" "q < int b ^ j"
    using ndig_bounds [OF b'] p q by (simp_all add: i_def j_def)
  have up: "x < rpow b (int i - int j + 1)"
  proof -
    have "p * int b ^ (j - 1) < int b ^ i * q"
      using bp bq p b by (intro mult_less_le_imp_less) auto
    then have "of_int (p * int b ^ (j - 1)) < (of_int (int b ^ i * q) :: rat)"
      by (simp only: of_int_less_iff)
    then have "x < of_nat b ^ i / of_nat b ^ (j - 1)"
      using q b by (simp add: xpq field_simps)
    also have "\<dots> = rpow b (int i - int j + 1)"
    proof -
      have e: "int i - int j + 1 = int i - int (j - 1)" using ij by simp
      show ?thesis unfolding e using b by (simp add: rpow_powi power_int_diff)
    qed
    finally show ?thesis .
  qed
  have lo: "rpow b (int i - int j - 1) \<le> x"
  proof -
    have "int b ^ (i - 1) * q \<le> p * int b ^ j"
      using bp bq p q by (intro mult_mono) auto
    then have "of_int (int b ^ (i - 1) * q) \<le> (of_int (p * int b ^ j) :: rat)"
      by (simp only: of_int_le_iff)
    then have "of_nat b ^ (i - 1) / of_nat b ^ j \<le> x"
      using q b by (simp add: xpq field_simps)
    moreover have "rpow b (int i - int j - 1) = of_nat b ^ (i - 1) / of_nat b ^ j"
    proof -
      have e: "int i - int j - 1 = int (i - 1) - int j" using ij by simp
      show ?thesis unfolding e using b by (simp add: rpow_powi power_int_diff)
    qed
    ultimately show ?thesis by simp
  qed
  show ?thesis using up lo
    by (auto simp: flog_def pq Let_def i_def j_def)
qed

text \<open>The bounds determine it, which evaluates it on concrete numbers.\<close>

lemma flog_eqI:
  assumes b: "2 \<le> b" and x: "rpow b n \<le> x" "x < rpow b (n + 1)"
  shows "flog b x = n"
proof -
  have "0 < x" using x(1) rpow_pos [of b n] b by simp
  note f = flog_bounds [OF b this]
  have mono: "rpow b k < rpow b l \<Longrightarrow> k < l" for k l
    using rpow_mono [of b l k] b by (metis linorder_not_le one_le_numeral order_trans)
  have "rpow b n < rpow b (flog b x + 1)" "rpow b (flog b x) < rpow b (n + 1)"
    using f x by simp_all
  from mono [OF this(1)] mono [OF this(2)] show ?thesis by simp
qed

section \<open>Rounding\<close>

text \<open>Round to the nearest integer, ties to even.\<close>

definition rhe :: "rat \<Rightarrow> int" where
  "rhe q = (let f = \<lfloor>q\<rfloor>; d = q - of_int f
            in if d < 1 / 2 then f else if 1 / 2 < d then f + 1
               else if even f then f else f + 1)"

lemma rhe_error: "\<bar>of_int (rhe q) - q\<bar> \<le> 1 / 2"
proof -
  define f where "f = \<lfloor>q\<rfloor>"
  have f: "of_int f \<le> q" "q < of_int f + 1"
    unfolding f_def using floor_correct [of q] by auto
  have "rhe q = f \<and> q - of_int f \<le> 1 / 2 \<or> rhe q = f + 1 \<and> 1 / 2 \<le> q - of_int f"
    unfolding rhe_def Let_def f_def [symmetric] by auto
  with f show ?thesis by auto
qed

lemma rhe_of_int [simp]: "rhe (of_int i) = i"
  by (simp add: rhe_def)

lemma rhe_nonneg: "0 \<le> q \<Longrightarrow> 0 \<le> rhe q"
  by (auto simp: rhe_def Let_def)

section \<open>Doubles\<close>

text \<open>\<open>Fin neg m\<close> is the finite double of sign \<open>neg\<close> and magnitude \<open>m\<close>.\<close>

datatype double = Fin bool rat | Inf bool | NaN

definition ulp :: "rat \<Rightarrow> rat" where
  "ulp x = rpow 2 (max (- 1074) (flog 2 x - 52))"

definition round_mag :: "rat \<Rightarrow> rat" where
  "round_mag x = (if x = 0 then 0 else of_int (rhe (x / ulp x)) * ulp x)"

definition mk_double :: "bool \<Rightarrow> rat \<Rightarrow> double" where
  "mk_double neg x = (let m = round_mag x in if 2 ^ 1024 \<le> m then Inf neg else Fin neg m)"

definition mk_signed :: "rat \<Rightarrow> double" where
  "mk_signed x = mk_double (x < 0) \<bar>x\<bar>"

fun dval :: "bool \<Rightarrow> rat \<Rightarrow> rat" where
  "dval neg m = (if neg then - m else m)"

definition double_of_int :: "int \<Rightarrow> double" where
  "double_of_int i = mk_signed (of_int i)"

fun dneg :: "double \<Rightarrow> double" where
  "dneg (Fin s m) = Fin (\<not> s) m"
| "dneg (Inf s) = Inf (\<not> s)"
| "dneg NaN = NaN"

fun dadd :: "double \<Rightarrow> double \<Rightarrow> double" where
  "dadd (Fin s m) (Fin t n) =
     (let v = dval s m + dval t n in if v = 0 then Fin (s \<and> t) 0 else mk_signed v)"
| "dadd (Inf s) (Inf t) = (if s = t then Inf s else NaN)"
| "dadd (Inf s) (Fin _ _) = Inf s"
| "dadd (Fin _ _) (Inf t) = Inf t"
| "dadd NaN _ = NaN"
| "dadd _ NaN = NaN"

fun dmul :: "double \<Rightarrow> double \<Rightarrow> double" where
  "dmul (Fin s m) (Fin t n) = mk_double (s \<noteq> t) (m * n)"
| "dmul (Inf s) (Inf t) = Inf (s \<noteq> t)"
| "dmul (Inf s) (Fin t n) = (if n = 0 then NaN else Inf (s \<noteq> t))"
| "dmul (Fin s m) (Inf t) = (if m = 0 then NaN else Inf (s \<noteq> t))"
| "dmul NaN _ = NaN"
| "dmul _ NaN = NaN"

fun ddiv :: "double \<Rightarrow> double \<Rightarrow> double" where
  "ddiv (Fin s m) (Fin t n) =
     (if n = 0 then (if m = 0 then NaN else Inf (s \<noteq> t)) else mk_double (s \<noteq> t) (m / n))"
| "ddiv (Inf s) (Inf t) = NaN"
| "ddiv (Inf s) (Fin t n) = Inf (s \<noteq> t)"
| "ddiv (Fin s m) (Inf t) = Fin (s \<noteq> t) 0"
| "ddiv NaN _ = NaN"
| "ddiv _ NaN = NaN"

text \<open>
  \<open>pow(10.0, n)\<close> for an integral \<open>n\<close>: beyond the range of doubles it is an infinity or 0.
\<close>

definition dpow10 :: "int \<Rightarrow> double" where
  "dpow10 n = (if 400 < n then Inf False else if n < - 400 then Fin False 0
               else mk_double False (rpow 10 n))"

text \<open>The comparison \<open>x <= y\<close>, false when an operand is a NaN.\<close>

fun dle :: "double \<Rightarrow> double \<Rightarrow> bool" where
  "dle (Fin s m) (Fin t n) \<longleftrightarrow> dval s m \<le> dval t n"
| "dle (Inf s) (Inf t) \<longleftrightarrow> s \<or> \<not> t"
| "dle (Inf s) (Fin _ _) \<longleftrightarrow> s"
| "dle (Fin _ _) (Inf t) \<longleftrightarrow> \<not> t"
| "dle NaN _ \<longleftrightarrow> False"
| "dle _ NaN \<longleftrightarrow> False"

text \<open>Conversion of a double in the range of \<open>int\<close> to \<open>int\<close> truncates.\<close>

fun int_of_double :: "double \<Rightarrow> int" where
  "int_of_double (Fin s m) = (if s then - \<lfloor>m\<rfloor> else \<lfloor>m\<rfloor>)"
| "int_of_double (Inf _) = 0"
| "int_of_double NaN = 0"

lemma ulp_pos: "0 < ulp x"
  by (simp add: ulp_def rpow_pos)

lemma round_mag_nonneg: "0 \<le> x \<Longrightarrow> 0 \<le> round_mag x"
  using ulp_pos [of x] by (simp add: round_mag_def rhe_nonneg)

lemma round_mag_error: "0 < x \<Longrightarrow> \<bar>round_mag x - x\<bar> \<le> ulp x / 2"
proof -
  assume "0 < x"
  let ?u = "ulp x"
  have u: "0 < ?u" by (rule ulp_pos)
  have "round_mag x - x = (of_int (rhe (x / ?u)) - x / ?u) * ?u"
    using \<open>0 < x\<close> u by (simp add: round_mag_def left_diff_distrib)
  then have "\<bar>round_mag x - x\<bar> = \<bar>of_int (rhe (x / ?u)) - x / ?u\<bar> * ?u"
    using u by (simp add: abs_mult)
  also have "\<dots> \<le> 1 / 2 * ?u"
    using u rhe_error by (intro mult_right_mono) auto
  finally show ?thesis by simp
qed

text \<open>Above the subnormal range the relative error is at most \<open>2 ^ -53\<close>.\<close>

lemma ulp_relative:
  assumes x: "rpow 2 (- 1022) \<le> x"
  shows "ulp x \<le> x / 2 ^ 52"
proof -
  have x0: "0 < x" using x rpow_pos [of 2 "- 1022"] by simp
  note b = flog_bounds [of 2 x, OF _ x0]
  have "rpow 2 (- 1022) < rpow 2 (flog 2 x + 1)" using b x by force
  then have "- 1022 < flog 2 x + 1"
    by (metis linorder_not_le one_le_numeral rpow_mono)
  then have "ulp x = rpow 2 (flog 2 x - 52)" by (simp add: ulp_def max_def)
  also have "\<dots> = rpow 2 (flog 2 x) / 2 ^ 52"
    by (simp add: rpow_powi power_int_diff)
  also have "\<dots> \<le> x / 2 ^ 52" using b by (simp add: divide_right_mono)
  finally show ?thesis .
qed

lemma round_mag_relative:
  assumes x: "rpow 2 (- 1022) \<le> x"
  shows "\<bar>round_mag x - x\<bar> \<le> x / 2 ^ 53"
proof -
  have "0 < x" using x rpow_pos [of 2 "- 1022"] by simp
  then show ?thesis
    using round_mag_error [of x] ulp_relative [OF x] by simp
qed

text \<open>Integers of at most 53 bits are doubles.\<close>

lemma round_mag_small_nat:
  assumes "n < 2 ^ 53"
  shows "round_mag (of_nat n) = of_nat n"
proof (cases "n = 0")
  case True
  then show ?thesis by (simp add: round_mag_def)
next
  case False
  let ?x = "of_nat n :: rat"
  have x: "0 < ?x" using False by simp
  note b = flog_bounds [of 2 ?x, OF _ x]
  have "rpow 2 (flog 2 ?x) < rpow 2 53"
  proof -
    have "?x < of_nat (2 ^ 53)" using assms by (simp only: of_nat_less_iff)
    then show ?thesis using b by (simp add: rpow_def)
  qed
  then have "flog 2 ?x < 53"
    by (metis linorder_not_le one_le_numeral rpow_mono)
  then have k: "max (- 1074) (flog 2 ?x - 52) \<le> 0" by simp
  define k where "k = nat (- max (- 1074) (flog 2 ?x - 52))"
  have u: "ulp ?x = 1 / 2 ^ k"
    using k by (auto simp: ulp_def rpow_def k_def)
  have "rhe (?x / ulp ?x) = int n * 2 ^ k"
    using rhe_of_int [of "int n * 2 ^ k"] by (simp add: u)
  then show ?thesis using False by (simp add: round_mag_def u)
qed

lemma double_of_small_nat:
  "n < 2 ^ 53 \<Longrightarrow> double_of_int (int n) = Fin False (of_nat n)"
proof -
  assume n: "n < 2 ^ 53"
  have "(of_nat n :: rat) < 2 ^ 1024"
  proof -
    have "(of_nat n :: rat) < 2 ^ 53" using n by (metis of_nat_less_iff of_nat_numeral of_nat_power)
    also have "(2::rat) ^ 53 \<le> 2 ^ 1024" by (intro power_increasing) simp_all
    finally show ?thesis .
  qed
  then show ?thesis
    using n by (simp add: double_of_int_def mk_signed_def mk_double_def round_mag_small_nat)
qed

end
