(* ===== verification/C_Format.thy ===== *)
theory C_Format
  imports C_Double
begin

text \<open>
  The conversions of \<open>printf\<close> that the sources use on faults: \<open>%d\<close> (and \<open>PRId32\<close>) on
  \<open>int\<close> and \<open>%g\<close> on \<open>double\<close>, and the reading of decimal digits, with the lemma that
  reading the digits of a number gives it back.
\<close>

definition isdigit :: "char \<Rightarrow> bool" where
  "isdigit c \<longleftrightarrow> 48 \<le> (of_char c :: nat) \<and> (of_char c :: nat) \<le> 57"

definition digit_val :: "char \<Rightarrow> nat" where
  "digit_val c = of_char c - 48"

definition digit_char :: "nat \<Rightarrow> char" where
  "digit_char d = char_of (48 + d)"

function dec :: "int \<Rightarrow> string" where
  "dec n = (if n < 10 then [digit_char (nat n)]
            else dec (n div 10) @ [digit_char (nat (n mod 10))])"
  by pat_completeness auto
termination
  by (relation "measure nat") auto

declare dec.simps [simp del]

definition fmt_d :: "int \<Rightarrow> string" where
  "fmt_d i = (if i < 0 then CHR ''-'' # dec (- i) else dec i)"

section \<open>Digits\<close>

lemma of_char_digit [simp]: "d < 10 \<Longrightarrow> of_char (digit_char d) = 48 + d"
  by (simp add: digit_char_def)

lemma isdigit_digit [simp]: "d < 10 \<Longrightarrow> isdigit (digit_char d)"
  by (simp add: isdigit_def)

lemma digit_val_digit [simp]: "d < 10 \<Longrightarrow> digit_val (digit_char d) = d"
  by (simp add: digit_val_def)

lemma digit_char_eq_0 [simp]: "d < 10 \<Longrightarrow> digit_char d = CHR ''0'' \<longleftrightarrow> d = 0"
proof
  assume d: "d < 10" and "digit_char d = CHR ''0''"
  then have "(of_char (digit_char d) :: nat) = of_char (CHR ''0'')" by simp
  then show "d = 0" using d by simp
qed (simp add: digit_char_def char_of_eq_iff)

text \<open>What the parser's accumulation computes on a run of digits.\<close>

definition digits_val :: "int \<Rightarrow> string \<Rightarrow> int" where
  "digits_val a s = foldl (\<lambda>a c. a * 10 + int (digit_val c)) a s"

lemma digits_val_simps [simp]:
  "digits_val a [] = a"
  "digits_val a (c # s) = digits_val (a * 10 + int (digit_val c)) s"
  "digits_val a (s @ t) = digits_val (digits_val a s) t"
  by (simp_all add: digits_val_def)

lemma digits_val_dec [simp]: "0 \<le> n \<Longrightarrow> digits_val 0 (dec n) = n"
proof (induction n rule: dec.induct)
  case (1 n)
  then show ?case by (subst dec.simps) (auto simp: nat_less_iff)
qed

lemma dec_digits: "0 \<le> n \<Longrightarrow> \<forall>c \<in> set (dec n). isdigit c"
proof (induction n rule: dec.induct)
  case (1 n)
  then show ?case by (subst dec.simps) (auto simp: nat_less_iff)
qed

lemma dec_not_Nil [simp]: "dec n \<noteq> []"
  by (subst dec.simps) simp

lemma dec_hd: "0 \<le> n \<Longrightarrow> hd (dec n) = CHR ''0'' \<longleftrightarrow> n = 0"
proof (induction n rule: dec.induct)
  case (1 n)
  then show ?case by (subst dec.simps) (auto simp: nat_less_iff)
qed

lemma dec_0: "dec 0 = ''0''"
  by (subst dec.simps) (simp add: digit_char_def char_of_eq_iff)

lemma nul_free_digits: "\<forall>c \<in> set s. isdigit c \<Longrightarrow> nul_free s"
  by (auto simp: nul_free_def isdigit_def)

section \<open>The conversion \<open>%g\<close>\<close>

definition trim_zeros :: "string \<Rightarrow> string" where
  "trim_zeros s = rev (dropWhile (\<lambda>c. c = CHR ''0'') (rev s))"

definition with_point :: "string \<Rightarrow> string" where
  "with_point ds = (if ds = [] then [] else CHR ''.'' # ds)"

definition pad2 :: "int \<Rightarrow> string" where
  "pad2 n = (if n < 10 then CHR ''0'' # dec n else dec n)"

text \<open>
  Six significant digits, rounded; the exponent form when the exponent is below \<open>-4\<close> or
  at least 6; trailing zeros of the fraction removed.
\<close>

definition fmt_g_mag :: "rat \<Rightarrow> string" where
  "fmt_g_mag m = (if m = 0 then ''0'' else
     let x0 = flog 10 m;
         d0 = rhe (m / rpow 10 (x0 - 5));
         (d, x) = (if d0 = 10 ^ 6 then (10 ^ 5, x0 + 1) else (d0, x0));
         ds = dec d
     in if x < - 4 \<or> 6 \<le> x then
          hd ds # with_point (trim_zeros (tl ds)) @ ''e'' @
            (if x < 0 then ''-'' else ''+'') @ pad2 \<bar>x\<bar>
        else if 0 \<le> x then
          take (nat x + 1) ds @ with_point (trim_zeros (drop (nat x + 1) ds))
        else ''0.'' @ replicate (nat (- x - 1)) CHR ''0'' @ trim_zeros ds)"

fun fmt_g :: "double \<Rightarrow> string" where
  "fmt_g (Fin s m) = (if s then ''-'' else '''') @ fmt_g_mag m"
| "fmt_g (Inf s) = (if s then ''-inf'' else ''inf'')"
| "fmt_g NaN = ''nan''"

end
