(* ===== verification/Json.thy ===== *)
theory Json
  imports C_Format
begin

unbundle bit_operations_syntax

text \<open>
  Model of the JSON parser of \<open>json.c\<close> and \<open>json.h\<close>. The parser reads the text twice with
  the same code: the first pass allocates the value nodes, links them in allocation order
  and counts what they will hold; the second pass walks the same nodes, allocates their
  buffers from the counts and fills them. Both passes are the one function \<open>json_body\<close>,
  the body of the \<open>for\<close> loop of \<open>json_parse_ex\<close>, over an explicit store of nodes.

  Addresses of nodes are their positions in the store, a null pointer is \<open>None\<close>. Buffers
  are lists of bytes of the allocated size, \<open>None\<close> for a byte not yet written. A read
  outside the text and its terminating NUL, a write outside a buffer and the dereference
  of a null pointer are errors of the model, so that their absence is a theorem and not an
  assumption.
\<close>

named_theorems json_simps "unfolding of the parser's sections"

section \<open>Values in the store\<close>

datatype json_type =
    json_none | json_object | json_array | json_integer | json_double | json_string
  | json_boolean | json_null

text \<open>\<open>json_object_entry\<close>: the name is an offset into the name memory of the object.\<close>

record json_entry =
  ename :: "nat option"
  ename_length :: nat
  evalue :: "nat option"

text \<open>
  \<open>json_value\<close>. The members of the union \<open>u\<close> are separate fields, except the \<open>length\<close>
  that strings, arrays and objects share at the same offset and that the parser increments
  through \<open>u.array.length\<close> for both kinds of parents. In the first pass the pointer
  \<open>u.object.values\<close> is used as a counter of name bytes, \<open>jnames_size\<close>. The union
  \<open>_reserved\<close> is \<open>jnext_alloc\<close> and \<open>jobject_pos\<close>, the latter an offset.
\<close>

record json_node =
  jparent :: "nat option"
  jtype :: json_type
  jboolean :: bool
  jinteger :: int64
  jdbl :: double
  jlength :: nat
  jptr :: "char option list"
  jnames_size :: nat
  jentries :: "json_entry list"
  jobject_mem :: "char option list"
  jvalues :: "nat option list"
  jnext_alloc :: "nat option"
  jobject_pos :: nat

definition json_calloc :: "json_type \<Rightarrow> nat option \<Rightarrow> json_node" where
  "json_calloc ty par =
     \<lparr>jparent = par, jtype = ty, jboolean = False, jinteger = 0, jdbl = Fin False 0,
      jlength = 0, jptr = [], jnames_size = 0, jentries = [], jobject_mem = [],
      jvalues = [], jnext_alloc = None, jobject_pos = 0\<rparr>"

definition json_entry_uninit :: json_entry where
  "json_entry_uninit = \<lparr>ename = None, ename_length = 0, evalue = None\<rparr>"

section \<open>The state of the parser\<close>

text \<open>\<open>json_settings\<close>: a memory limit (0 for none) and whether comments are accepted.\<close>

record json_settings =
  max_memory :: nat
  enable_comments :: bool
  value_extra :: nat

record jflags =
  flag_next :: bool
  flag_reproc :: bool
  flag_need_comma :: bool
  flag_seek_value :: bool
  flag_escaped :: bool
  flag_string :: bool
  flag_need_colon :: bool
  flag_done :: bool
  flag_num_negative :: bool
  flag_num_zero :: bool
  flag_num_e :: bool
  flag_num_e_got_sign :: bool
  flag_num_e_negative :: bool
  flag_line_comment :: bool
  flag_block_comment :: bool

definition flags_seek :: jflags where
  "flags_seek =
     \<lparr>flag_next = False, flag_reproc = False, flag_need_comma = False, flag_seek_value = True,
      flag_escaped = False, flag_string = False, flag_need_colon = False, flag_done = False,
      flag_num_negative = False, flag_num_zero = False, flag_num_e = False,
      flag_num_e_got_sign = False, flag_num_e_negative = False, flag_line_comment = False,
      flag_block_comment = False\<rparr>"

text \<open>
  \<open>json_state\<close> together with the local variables of \<open>json_parse_ex\<close>. The position
  \<open>ptr\<close> is relative to the start of the text; it is an \<open>int\<close> because a character that is
  read again makes it step back, possibly to \<open>-1\<close>, before the loop increments it.
\<close>

record jst =
  used_memory :: nat
  first_pass :: bool
  ptr :: int
  cur_line :: nat
  cur_col :: nat
  flags :: jflags
  num_digits :: nat
  num_e :: int64
  num_fraction :: int64
  string_length :: nat
  heap :: "json_node list"
  s_top :: "nat option"
  s_root :: "nat option"
  s_alloc :: "nat option"
  s_mem :: mem

datatype json_error =
    Unexpected_EOF_in_string | Invalid_character_value | Unexpected_EOF_in_block_comment
  | Comment_not_allowed_here | EOF_unexpected | Unexpected_in_comment_opening
  | Trailing_garbage | Unexpected_bracket | Expected_comma | Expected_colon
  | Unexpected_when_seeking_value | Expected_comma_before_quote | Unexpected_in_object
  | Unexpected_zero | Expected_digit_before_dot | Expected_digit_after_dot
  | Expected_digit_after_e | Unknown_value | Memory_allocation_failure | Too_long
  | Out_of_bounds_read | Out_of_bounds_write | Null_dereference | Use_after_free | Out_of_fuel

text \<open>
  Where control goes after a section of the loop body: on to the next section, to the next
  iteration (\<open>continue\<close>), out of the loop (\<open>break\<close>), or to the error exit (\<open>goto\<close>).
\<close>

datatype ctl = Fall jst | Continue jst | Break jst | Failed json_error jst

fun then_section :: "ctl \<Rightarrow> (jst \<Rightarrow> ctl) \<Rightarrow> ctl" where
  "then_section (Fall s) f = f s"
| "then_section (Continue s) f = Continue s"
| "then_section (Break s) f = Break s"
| "then_section (Failed e s) f = Failed e s"

definition upd_node :: "nat \<Rightarrow> (json_node \<Rightarrow> json_node) \<Rightarrow> jst \<Rightarrow> jst" where
  "upd_node i f s = s\<lparr>heap := (heap s)[i := f (heap s ! i)]\<rparr>"

definition upd_flags :: "(jflags \<Rightarrow> jflags) \<Rightarrow> jst \<Rightarrow> jst" where
  "upd_flags f s = s\<lparr>flags := f (flags s)\<rparr>"

definition advance :: "int \<Rightarrow> jst \<Rightarrow> jst" where
  "advance k s = s\<lparr>ptr := ptr s + k\<rparr>"

lemmas upd_defs = upd_node_def upd_flags_def advance_def

section \<open>Reading the text\<close>

text \<open>\<open>*(json + i)\<close>: the text is followed by its NUL, and nothing after that is readable.\<close>

definition rd :: "string \<Rightarrow> int \<Rightarrow> char option" where
  "rd js i = (if i < 0 then None else if i < int (length js) then Some (js ! nat i)
              else if i = int (length js) then Some NUL else None)"

definition hex_value :: "char \<Rightarrow> nat" where
  "hex_value c =
     (if isdigit c then digit_val c
      else if c \<in> {CHR ''a'', CHR ''A''} then 0x0A
      else if c \<in> {CHR ''b'', CHR ''B''} then 0x0B
      else if c \<in> {CHR ''c'', CHR ''C''} then 0x0C
      else if c \<in> {CHR ''d'', CHR ''D''} then 0x0D
      else if c \<in> {CHR ''e'', CHR ''E''} then 0x0E
      else if c \<in> {CHR ''f'', CHR ''F''} then 0x0F
      else 0xFF)"

text \<open>\<open>k\<close> times \<open>hex_value (*++ state.ptr)\<close>, stopping at the first that is not a hex digit.\<close>

fun read_hex :: "nat \<Rightarrow> string \<Rightarrow> int \<Rightarrow> json_error + nat list" where
  "read_hex 0 js p = Inr []"
| "read_hex (Suc k) js p =
     (case rd js (p + 1) of
        None \<Rightarrow> Inl Out_of_bounds_read
      | Some c \<Rightarrow>
          if hex_value c = 0xFF then Inl Invalid_character_value
          else (case read_hex k js (p + 1) of Inl e \<Rightarrow> Inl e | Inr vs \<Rightarrow> Inr (hex_value c # vs)))"

text \<open>\<open>*(++ state.ptr) != c\<close> for the characters of a literal, in turn.\<close>

fun match_chars :: "json_error \<Rightarrow> string \<Rightarrow> int \<Rightarrow> string \<Rightarrow> json_error option" where
  "match_chars err js p [] = None"
| "match_chars err js p (c # cs) =
     (case rd js (p + 1) of
        None \<Rightarrow> Some Out_of_bounds_read
      | Some d \<Rightarrow> if d \<noteq> c then Some err else match_chars err js (p + 1) cs)"

text \<open>The four hex digits of an escape as a code unit.\<close>

definition code_unit :: "nat list \<Rightarrow> 32 word" where
  "code_unit vs =
     (let b1 = push_bit 4 (of_nat (vs ! 0)) OR of_nat (vs ! 1);
          b2 = push_bit 4 (of_nat (vs ! 2)) OR of_nat (vs ! 3)
      in push_bit 8 b1 OR b2)"

definition is_surrogate :: "32 word \<Rightarrow> bool" where
  "is_surrogate w \<longleftrightarrow> w AND 0xF800 = 0xD800"

text \<open>How the parser combines the two code units of a surrogate pair.\<close>

definition combine_surrogates :: "32 word \<Rightarrow> 32 word \<Rightarrow> 32 word" where
  "combine_surrogates u u2 = 0x010000 OR push_bit 10 (u AND 0x3FF) OR (u2 AND 0x3FF)"

definition byte_of :: "32 word \<Rightarrow> char" where
  "byte_of w = char_of (unat w)"

definition utf8_bytes :: "32 word \<Rightarrow> string" where
  "utf8_bytes u =
     (if u \<le> 0x7F then [byte_of u]
      else if u \<le> 0x7FF then
        [byte_of (0xC0 OR drop_bit 6 u), byte_of (0x80 OR (u AND 0x3F))]
      else if u \<le> 0xFFFF then
        [byte_of (0xE0 OR drop_bit 12 u), byte_of (0x80 OR (drop_bit 6 u AND 0x3F)),
         byte_of (0x80 OR (u AND 0x3F))]
      else
        [byte_of (0xF0 OR drop_bit 18 u), byte_of (0x80 OR (drop_bit 12 u AND 0x3F)),
         byte_of (0x80 OR (drop_bit 6 u AND 0x3F)), byte_of (0x80 OR (u AND 0x3F))])"

section \<open>Allocation\<close>

definition uint_max :: nat where "uint_max = 2 ^ 32 - 1 - 8"
definition ulong_max :: nat where "ulong_max = 2 ^ 64 - 1 - 8"

text \<open>\<open>sizeof\<close> of \<open>json_value\<close>, of a pointer and of \<open>json_object_entry\<close> on a 64-bit system.\<close>

definition sizeof_value :: nat where "sizeof_value = 40"
definition sizeof_pointer :: nat where "sizeof_pointer = 8"
definition sizeof_entry :: nat where "sizeof_entry = 24"

definition json_alloc :: "json_settings \<Rightarrow> nat \<Rightarrow> jst \<Rightarrow> bool \<times> jst" where
  "json_alloc cfg n s =
     (if ulong_max - used_memory s < n then (False, s)
      else let s1 = (if max_memory cfg \<noteq> 0 then s\<lparr>used_memory := used_memory s + n\<rparr> else s)
           in if max_memory cfg \<noteq> 0 \<and> max_memory cfg < used_memory s1 then (False, s1)
              else let (ok, m) = alloc (s_mem s1) in (ok, s1\<lparr>s_mem := m\<rparr>))"

text \<open>
  \<open>new_value\<close>, whose failure every caller turns into a jump to \<open>e_alloc_failure\<close>.
\<close>

definition new_value :: "json_settings \<Rightarrow> json_type \<Rightarrow> jst \<Rightarrow> ctl" where
  "new_value cfg ty s =
     (if \<not> first_pass s then
        (case s_alloc s of
           None \<Rightarrow> Failed Null_dereference s
         | Some v \<Rightarrow>
             let node = heap s ! v;
                 s1 = s\<lparr>s_top := Some v, s_alloc := jnext_alloc node,
                        s_root := (if s_root s = None then Some v else s_root s)\<rparr>
             in (case jtype node of
                   json_array \<Rightarrow>
                     if jlength node = 0 then Fall s1
                     else (case json_alloc cfg (jlength node * sizeof_pointer) s1 of (ok, s2) \<Rightarrow>
                       if ok then Fall (upd_node v (\<lambda>n. n\<lparr>jvalues := replicate (jlength node) None,
                                                         jlength := 0\<rparr>) s2)
                       else Failed Memory_allocation_failure s2)
                 | json_object \<Rightarrow>
                     if jlength node = 0 then Fall s1
                     else (case json_alloc cfg (sizeof_entry * jlength node + jnames_size node) s1 of (ok, s2) \<Rightarrow>
                       if ok then Fall (upd_node v (\<lambda>n. n\<lparr>jentries := replicate (jlength node) json_entry_uninit,
                                                         jobject_mem := replicate (jnames_size node) None,
                                                         jobject_pos := 0, jlength := 0\<rparr>) s2)
                       else Failed Memory_allocation_failure s2)
                 | json_string \<Rightarrow>
                     (case json_alloc cfg (jlength node + 1) s1 of (ok, s2) \<Rightarrow>
                       if ok then Fall (upd_node v (\<lambda>n. n\<lparr>jptr := replicate (jlength node + 1) None,
                                                         jlength := 0\<rparr>) s2)
                       else Failed Memory_allocation_failure s2)
                 | _ \<Rightarrow> Fall s1))
      else
        (case json_alloc cfg (sizeof_value + value_extra cfg) s of (ok, s1) \<Rightarrow>
           if \<not> ok then Failed Memory_allocation_failure s1
           else let v = length (heap s1);
                    s2 = s1\<lparr>heap := heap s1 @ [json_calloc ty (s_top s1)],
                            s_root := (if s_root s1 = None then Some v else s_root s1)\<rparr>;
                    s3 = (case s_alloc s2 of
                            None \<Rightarrow> s2
                          | Some a \<Rightarrow> upd_node a (\<lambda>n. n\<lparr>jnext_alloc := Some v\<rparr>) s2)
                in Fall (s3\<lparr>s_alloc := Some v, s_top := Some v\<rparr>)))"

section \<open>Strings\<close>

text \<open>
  \<open>string[string_length] = c\<close>. The pointer \<open>string\<close> is \<open>top->u.string.ptr\<close> or
  \<open>top->_reserved.object_mem\<close>, according to the type of \<open>top\<close>, for as long as the string
  lasts.
\<close>

definition string_write :: "char \<Rightarrow> jst \<Rightarrow> ctl" where
  "string_write c s =
     (case s_top s of
        None \<Rightarrow> Failed Null_dereference s
      | Some t \<Rightarrow>
          let node = heap s ! t; i = string_length s; j = jobject_pos node + i in
          if jtype node = json_string then
            (if i < length (jptr node) then Fall (upd_node t (\<lambda>n. n\<lparr>jptr := (jptr n)[i := Some c]\<rparr>) s)
             else Failed Out_of_bounds_write s)
          else
            (if j < length (jobject_mem node)
             then Fall (upd_node t (\<lambda>n. n\<lparr>jobject_mem := (jobject_mem n)[j := Some c]\<rparr>) s)
             else Failed Out_of_bounds_write s))"

text \<open>The macro \<open>string_add\<close>, and a sequence of them for an encoded code point.\<close>

definition string_add :: "char \<Rightarrow> jst \<Rightarrow> ctl" where
  "string_add c s =
     then_section (if first_pass s then Fall s else string_write c s)
       (\<lambda>s. Fall (s\<lparr>string_length := string_length s + 1\<rparr>))"

fun string_adds :: "string \<Rightarrow> jst \<Rightarrow> ctl" where
  "string_adds [] s = Fall s"
| "string_adds (c # cs) s = then_section (string_add c s) (string_adds cs)"

text \<open>After the backslash and the \<open>u\<close> of an escape.\<close>

definition string_unicode :: "string \<Rightarrow> jst \<Rightarrow> ctl" where
  "string_unicode js s =
     (if int (length js) - ptr s < 4 then Failed Invalid_character_value s
      else case read_hex 4 js (ptr s) of
        Inl e \<Rightarrow> Failed e s
      | Inr vs \<Rightarrow>
          let u = code_unit vs; s1 = advance 4 s in
          if is_surrogate u then
            (if int (length js) - ptr s1 < 6 then Failed Invalid_character_value s1
             else case match_chars Invalid_character_value js (ptr s1) (CHR 0x5C # ''u'') of
               Some e \<Rightarrow> Failed e s1
             | None \<Rightarrow>
                 (case read_hex 4 js (ptr s1 + 2) of
                    Inl e \<Rightarrow> Failed e s1
                  | Inr vs2 \<Rightarrow>
                      string_adds (utf8_bytes (combine_surrogates u (code_unit vs2))) (advance 6 s1)))
          else string_adds (utf8_bytes u) s1)"

definition string_escape :: "string \<Rightarrow> char \<Rightarrow> jst \<Rightarrow> ctl" where
  "string_escape js b s =
     (if b = CHR ''b'' then string_add (CHR 0x08) s
      else if b = CHR ''f'' then string_add (CHR 0x0C) s
      else if b = CHR ''n'' then string_add (CHR 0x0A) s
      else if b = CHR ''r'' then string_add (CHR 0x0D) s
      else if b = CHR ''t'' then string_add (CHR 0x09) s
      else if b = CHR ''u'' then string_unicode js s
      else string_add b s)"

text \<open>The closing quote: end of a string value or of the name of an object entry.\<close>

definition string_close :: "jst \<Rightarrow> ctl" where
  "string_close s =
     then_section (if first_pass s then Fall s else string_write NUL s)
       (\<lambda>s. case s_top s of
          None \<Rightarrow> Failed Null_dereference s
        | Some t \<Rightarrow>
            let s1 = upd_flags (\<lambda>f. f\<lparr>flag_string := False\<rparr>) s; node = heap s ! t in
            (case jtype node of
               json_string \<Rightarrow>
                 Fall (upd_flags (\<lambda>f. f\<lparr>flag_next := True\<rparr>)
                   (upd_node t (\<lambda>n. n\<lparr>jlength := string_length s1\<rparr>) s1))
             | json_object \<Rightarrow>
                 let s2 = upd_flags (\<lambda>f. f\<lparr>flag_seek_value := True, flag_need_colon := True\<rparr>) s1 in
                 if first_pass s2 then
                   Continue (upd_node t (\<lambda>n. n\<lparr>jnames_size := jnames_size n + string_length s2 + 1\<rparr>) s2)
                 else if jlength node < length (jentries node) then
                   Continue (upd_node t (\<lambda>n. n\<lparr>jentries := (jentries n)[jlength n :=
                        (jentries n ! jlength n)\<lparr>ename := Some (jobject_pos n),
                                                 ename_length := string_length s2\<rparr>],
                      jobject_pos := jobject_pos n + string_length s2 + 1\<rparr>) s2)
                 else Failed Out_of_bounds_write s2
             | _ \<Rightarrow> Fall s1))"

definition section_string :: "string \<Rightarrow> char \<Rightarrow> jst \<Rightarrow> ctl" where
  "section_string js b s =
     (if \<not> flag_string (flags s) then Fall s
      else if b = NUL then Failed Unexpected_EOF_in_string s
      else if uint_max < string_length s then Failed Too_long s
      else if flag_escaped (flags s) then
        then_section (string_escape js b (upd_flags (\<lambda>f. f\<lparr>flag_escaped := False\<rparr>) s)) Continue
      else if b = CHR 0x5C then Continue (upd_flags (\<lambda>f. f\<lparr>flag_escaped := True\<rparr>) s)
      else if b = CHR 0x22 then string_close s
      else then_section (string_add b s) Continue)"

section \<open>Comments\<close>

definition comment_open :: "string \<Rightarrow> jst \<Rightarrow> ctl" where
  "comment_open js s =
     (let s1 = advance 1 s in
      if ptr s1 = int (length js) then Failed EOF_unexpected s1
      else (case rd js (ptr s1) of
              None \<Rightarrow> Failed Out_of_bounds_read s1
            | Some c \<Rightarrow>
                if c = CHR ''/'' then Continue (upd_flags (\<lambda>f. f\<lparr>flag_line_comment := True\<rparr>) s1)
                else if c = CHR ''*'' then Continue (upd_flags (\<lambda>f. f\<lparr>flag_block_comment := True\<rparr>) s1)
                else Failed Unexpected_in_comment_opening s1))"

definition section_comments :: "json_settings \<Rightarrow> string \<Rightarrow> char \<Rightarrow> jst \<Rightarrow> ctl" where
  "section_comments cfg js b s =
     (if \<not> enable_comments cfg then Fall s
      else if flag_line_comment (flags s) then
        (if b = CHR 0x0D \<or> b = CHR 0x0A \<or> b = NUL
         then Continue (advance (- 1) (upd_flags (\<lambda>f. f\<lparr>flag_line_comment := False\<rparr>) s))
         else Continue s)
      else if flag_block_comment (flags s) then
        (if b = NUL then Failed Unexpected_EOF_in_block_comment s
         else if b = CHR ''*'' \<and> ptr s < int (length js) - 1 \<and> rd js (ptr s + 1) = Some (CHR ''/'')
         then Continue (advance 1 (upd_flags (\<lambda>f. f\<lparr>flag_block_comment := False\<rparr>) s))
         else Continue s)
      else if b = CHR ''/'' then
        (if \<not> (flag_seek_value (flags s) \<or> flag_done (flags s)) then
           (case s_top s of
              None \<Rightarrow> Failed Null_dereference s
            | Some t \<Rightarrow>
                if jtype (heap s ! t) \<noteq> json_object then Failed Comment_not_allowed_here s
                else comment_open js s)
         else comment_open js s)
      else Fall s)"

section \<open>Between values\<close>

text \<open>The macro \<open>whitespace\<close>: a newline counts a line, and resets the column.\<close>

definition is_ws :: "char \<Rightarrow> bool" where
  "is_ws b \<longleftrightarrow> b = CHR 0x0A \<or> b = CHR '' '' \<or> b = CHR 0x09 \<or> b = CHR 0x0D"

definition count_line :: "char \<Rightarrow> jst \<Rightarrow> jst" where
  "count_line b s = (if b = CHR 0x0A then s\<lparr>cur_line := cur_line s + 1, cur_col := 0\<rparr> else s)"

definition section_done :: "char \<Rightarrow> jst \<Rightarrow> ctl" where
  "section_done b s =
     (if \<not> flag_done (flags s) then Fall s
      else if b = NUL then Break s
      else if is_ws b then Continue (count_line b s)
      else Failed Trailing_garbage s)"

section \<open>Seeking a value\<close>

definition set_boolean :: "jst \<Rightarrow> ctl" where
  "set_boolean s =
     (case s_top s of
        None \<Rightarrow> Failed Null_dereference s
      | Some t \<Rightarrow> Fall (upd_node t (\<lambda>n. n\<lparr>jboolean := True\<rparr>) s))"

definition mark_next :: "jst \<Rightarrow> ctl" where
  "mark_next s = Fall (upd_flags (\<lambda>f. f\<lparr>flag_next := True\<rparr>) s)"

text \<open>
  The literals \<open>true\<close>, \<open>false\<close>, \<open>null\<close>: \<open>rest\<close> is what follows the first letter. The length
  test compares what is left of the text, counted from the first letter, with the number
  of letters that follow it.
\<close>

definition seek_literal :: "json_settings \<Rightarrow> string \<Rightarrow> string \<Rightarrow> json_type \<Rightarrow> jst \<Rightarrow> ctl" where
  "seek_literal cfg js rest ty s =
     (if int (length js) - ptr s < int (length rest) then Failed Unknown_value s
      else case match_chars Unknown_value js (ptr s) rest of
        Some e \<Rightarrow> Failed e s
      | None \<Rightarrow> new_value cfg ty (advance (int (length rest)) s))"

definition is_num_char :: "char \<Rightarrow> bool" where
  "is_num_char b \<longleftrightarrow> isdigit b \<or> b = CHR ''+'' \<or> b = CHR ''-'' \<or> b = CHR ''e'' \<or> b = CHR ''E''
                    \<or> b = CHR ''.''"

text \<open>
  The inner loop with which the second pass skips a number: \<open>state.ptr\<close> moves to the first
  character that cannot belong to a number, or to the end.
\<close>

function skip_number :: "string \<Rightarrow> int \<Rightarrow> int" where
  "skip_number js p =
     (if 0 \<le> p \<and> p < int (length js) \<and> is_num_char (js ! nat p) then skip_number js (p + 1) else p)"
  by pat_completeness auto
termination
  by (relation "measure (\<lambda>(js, p). nat (int (length js) - p))") auto

declare skip_number.simps [simp del]

definition seek_number :: "json_settings \<Rightarrow> string \<Rightarrow> char \<Rightarrow> jst \<Rightarrow> ctl" where
  "seek_number cfg js b s =
     then_section (new_value cfg json_integer s)
       (\<lambda>s. if \<not> first_pass s then
               Fall (upd_flags (\<lambda>f. f\<lparr>flag_next := True, flag_reproc := True\<rparr>)
                       (s\<lparr>ptr := skip_number js (ptr s)\<rparr>))
             else
               let s1 = upd_flags (\<lambda>f. f\<lparr>flag_num_negative := False, flag_num_e := False,
                            flag_num_e_got_sign := False, flag_num_e_negative := False,
                            flag_num_zero := False\<rparr>)
                          (s\<lparr>num_digits := 0, num_fraction := 0, num_e := 0\<rparr>)
               in if b \<noteq> CHR ''-'' then Fall (upd_flags (\<lambda>f. f\<lparr>flag_reproc := True\<rparr>) s1)
                  else Continue (upd_flags (\<lambda>f. f\<lparr>flag_num_negative := True\<rparr>) s1))"

text \<open>The \<open>switch\<close> on the first character of a value.\<close>

definition seek_start :: "json_settings \<Rightarrow> string \<Rightarrow> char \<Rightarrow> jst \<Rightarrow> ctl" where
  "seek_start cfg js b s =
     (if b = CHR 0x7B then then_section (new_value cfg json_object s) Continue
      else if b = CHR ''['' then
        then_section (new_value cfg json_array s)
          (\<lambda>s. Continue (upd_flags (\<lambda>f. f\<lparr>flag_seek_value := True\<rparr>) s))
      else if b = CHR 0x22 then
        then_section (new_value cfg json_string s)
          (\<lambda>s. Continue (upd_flags (\<lambda>f. f\<lparr>flag_string := True\<rparr>) (s\<lparr>string_length := 0\<rparr>)))
      else if b = CHR ''t'' then
        then_section (then_section (seek_literal cfg js ''rue'' json_boolean s) set_boolean) mark_next
      else if b = CHR ''f'' then
        then_section (seek_literal cfg js ''alse'' json_boolean s) mark_next
      else if b = CHR ''n'' then
        then_section (seek_literal cfg js ''ull'' json_null s) mark_next
      else if isdigit b \<or> b = CHR ''-'' then seek_number cfg js b s
      else Failed Unexpected_when_seeking_value s)"

definition section_seek :: "json_settings \<Rightarrow> string \<Rightarrow> char \<Rightarrow> jst \<Rightarrow> ctl" where
  "section_seek cfg js b s =
     (if is_ws b then Continue (count_line b s)
      else if b = CHR '']'' then
        (case s_top s of
           None \<Rightarrow> Failed Unexpected_bracket s
         | Some t \<Rightarrow>
             if jtype (heap s ! t) = json_array then
               Fall (upd_flags (\<lambda>f. f\<lparr>flag_need_comma := False, flag_seek_value := False,
                                        flag_next := True\<rparr>) s)
             else Failed Unexpected_bracket s)
      else if flag_need_comma (flags s) then
        (if b = CHR '','' then Continue (upd_flags (\<lambda>f. f\<lparr>flag_need_comma := False\<rparr>) s)
         else Failed Expected_comma s)
      else if flag_need_colon (flags s) then
        (if b = CHR '':'' then Continue (upd_flags (\<lambda>f. f\<lparr>flag_need_colon := False\<rparr>) s)
         else Failed Expected_colon s)
      else seek_start cfg js b (upd_flags (\<lambda>f. f\<lparr>flag_seek_value := False\<rparr>) s))"

section \<open>Inside objects and numbers\<close>

definition section_object :: "char \<Rightarrow> jst \<Rightarrow> ctl" where
  "section_object b s =
     (if is_ws b then Continue (count_line b s)
      else if b = CHR 0x22 then
        (if flag_need_comma (flags s) then Failed Expected_comma_before_quote s
         else Fall (upd_flags (\<lambda>f. f\<lparr>flag_string := True\<rparr>) (s\<lparr>string_length := 0\<rparr>)))
      else if b = CHR 0x7D then
        Fall (upd_flags (\<lambda>f. f\<lparr>flag_need_comma := False, flag_next := True\<rparr>) s)
      else if b = CHR '','' \<and> flag_need_comma (flags s) then
        Fall (upd_flags (\<lambda>f. f\<lparr>flag_need_comma := False\<rparr>) s)
      else Failed Unexpected_in_object s)"

definition digit64 :: "int64 \<Rightarrow> char \<Rightarrow> int64" where
  "digit64 x b = x * 10 + of_nat (digit_val b)"

text \<open>A digit of a number: of the exponent, of the integer part or of the fraction.\<close>

definition number_digit :: "nat \<Rightarrow> char \<Rightarrow> jst \<Rightarrow> ctl" where
  "number_digit t b s =
     (let s1 = s\<lparr>num_digits := num_digits s + 1\<rparr>; f = flags s in
      if jtype (heap s ! t) = json_integer \<or> flag_num_e f then
        (if flag_num_e f then
           Continue (upd_flags (\<lambda>f. f\<lparr>flag_num_e_got_sign := True\<rparr>)
                       (s1\<lparr>num_e := digit64 (num_e s1) b\<rparr>))
         else if flag_num_zero f then Failed Unexpected_zero s1
         else
           let s2 = (if num_digits s1 = 1 \<and> b = CHR ''0''
                     then upd_flags (\<lambda>f. f\<lparr>flag_num_zero := True\<rparr>) s1 else s1)
           in Continue (upd_node t (\<lambda>n. n\<lparr>jinteger := digit64 (jinteger n) b\<rparr>) s2))
      else Continue (s1\<lparr>num_fraction := digit64 (num_fraction s1) b\<rparr>))"

text \<open>The double takes the place of the integer, with which it shares its storage in the union.\<close>

definition to_double :: "json_node \<Rightarrow> json_node" where
  "to_double n = n\<lparr>jtype := json_double, jdbl := double_of_int (sint (jinteger n)), jinteger := 0\<rparr>"

text \<open>A number ends: the sign is applied and the character is read again.\<close>

definition number_end :: "nat \<Rightarrow> jst \<Rightarrow> ctl" where
  "number_end t s =
     (let s1 = (if flag_num_negative (flags s) then
                  upd_node t (\<lambda>n. if jtype n = json_integer then n\<lparr>jinteger := - jinteger n\<rparr>
                                  else n\<lparr>jdbl := dneg (jdbl n)\<rparr>) s
                else s)
      in Fall (upd_flags (\<lambda>f. f\<lparr>flag_next := True, flag_reproc := True\<rparr>) s1))"

text \<open>
  A character other than a digit, a sign of the exponent or the point, outside an
  exponent: the fraction is added to the integer part; an \<open>e\<close> starts the exponent.
\<close>

definition number_mantissa_end :: "nat \<Rightarrow> char \<Rightarrow> jst \<Rightarrow> ctl" where
  "number_mantissa_end t b s =
     then_section
       (if jtype (heap s ! t) = json_double then
          (if num_digits s = 0 then Failed Expected_digit_after_dot s
           else Fall (upd_node t (\<lambda>n. n\<lparr>jdbl := dadd (jdbl n)
                  (ddiv (double_of_int (sint (num_fraction s))) (dpow10 (int (num_digits s))))\<rparr>) s))
        else Fall s)
       (\<lambda>s. if b = CHR ''e'' \<or> b = CHR ''E'' then
               Continue (upd_flags (\<lambda>f. f\<lparr>flag_num_e := True, flag_num_zero := False\<rparr>)
                 ((if jtype (heap s ! t) = json_integer then upd_node t to_double s else s)
                    \<lparr>num_digits := 0\<rparr>))
             else number_end t s)"

definition number_exponent_end :: "nat \<Rightarrow> jst \<Rightarrow> ctl" where
  "number_exponent_end t s =
     (if num_digits s = 0 then Failed Expected_digit_after_e s
      else number_end t (upd_node t (\<lambda>n. n\<lparr>jdbl := dmul (jdbl n)
             (dpow10 (if flag_num_e_negative (flags s) then - sint (num_e s) else sint (num_e s)))\<rparr>) s))"

definition section_number :: "nat \<Rightarrow> char \<Rightarrow> jst \<Rightarrow> ctl" where
  "section_number t b s =
     (let f = flags s in
      if isdigit b then number_digit t b s
      else if (b = CHR ''+'' \<or> b = CHR ''-'') \<and> flag_num_e f \<and> \<not> flag_num_e_got_sign f then
        Continue (upd_flags (\<lambda>f. f\<lparr>flag_num_e_got_sign := True,
                      flag_num_e_negative := flag_num_e_negative f \<or> b = CHR ''-''\<rparr>) s)
      else if b = CHR ''.'' \<and> jtype (heap s ! t) = json_integer then
        (if num_digits s = 0 then Failed Expected_digit_before_dot s
         else Continue (upd_node t to_double (s\<lparr>num_digits := 0\<rparr>)))
      else if flag_num_e f then number_exponent_end t s
      else number_mantissa_end t b s)"

definition section_inside :: "char \<Rightarrow> jst \<Rightarrow> ctl" where
  "section_inside b s =
     (case s_top s of
        None \<Rightarrow> Failed Null_dereference s
      | Some t \<Rightarrow>
          (case jtype (heap s ! t) of
             json_object \<Rightarrow> section_object b s
           | json_integer \<Rightarrow> section_number t b s
           | json_double \<Rightarrow> section_number t b s
           | _ \<Rightarrow> Fall s))"

section \<open>The end of a value\<close>

definition section_reproc :: "jst \<Rightarrow> ctl" where
  "section_reproc s =
     (if flag_reproc (flags s) then Fall (advance (- 1) (upd_flags (\<lambda>f. f\<lparr>flag_reproc := False\<rparr>) s))
      else Fall s)"

text \<open>In the second pass the finished value is stored in its parent.\<close>

definition attach :: "nat \<Rightarrow> nat \<Rightarrow> jst \<Rightarrow> ctl" where
  "attach t p s =
     (if first_pass s then Fall s
      else let node = heap s ! p; i = jlength node in
        (case jtype node of
           json_object \<Rightarrow>
             if i < length (jentries node) then
               Fall (upd_node p (\<lambda>n. n\<lparr>jentries := (jentries n)[i := (jentries n ! i)\<lparr>evalue := Some t\<rparr>]\<rparr>) s)
             else Failed Out_of_bounds_write s
         | json_array \<Rightarrow>
             if i < length (jvalues node) then
               Fall (upd_node p (\<lambda>n. n\<lparr>jvalues := (jvalues n)[i := Some t]\<rparr>) s)
             else Failed Out_of_bounds_write s
         | _ \<Rightarrow> Fall s))"

definition section_next :: "jst \<Rightarrow> ctl" where
  "section_next s =
     (if \<not> flag_next (flags s) then Fall s
      else let s1 = upd_flags (\<lambda>f. f\<lparr>flag_next := False, flag_need_comma := True\<rparr>) s in
        (case s_top s1 of
           None \<Rightarrow> Failed Null_dereference s1
         | Some t \<Rightarrow>
             (case jparent (heap s1 ! t) of
                None \<Rightarrow> Continue (upd_flags (\<lambda>f. f\<lparr>flag_done := True\<rparr>) s1)
              | Some p \<Rightarrow>
                  let s2 = (if jtype (heap s1 ! p) = json_array
                            then upd_flags (\<lambda>f. f\<lparr>flag_seek_value := True\<rparr>) s1 else s1)
                  in then_section (attach t p s2)
                       (\<lambda>s. let s3 = upd_node p (\<lambda>n. n\<lparr>jlength := jlength n + 1\<rparr>) s in
                             if uint_max < jlength (heap s3 ! p) then Failed Too_long s3
                             else Continue (s3\<lparr>s_top := Some p\<rparr>)))))"

section \<open>The loop and the two passes\<close>

definition json_body :: "json_settings \<Rightarrow> string \<Rightarrow> jst \<Rightarrow> ctl" where
  "json_body cfg js s =
     (case rd js (ptr s) of
        None \<Rightarrow> Failed Out_of_bounds_read s
      | Some b \<Rightarrow>
          then_section (section_string js b s) (\<lambda>s.
          then_section (section_comments cfg js b s) (\<lambda>s.
          then_section (section_done b s) (\<lambda>s.
          then_section (if flag_seek_value (flags s) then section_seek cfg js b s else section_inside b s) (\<lambda>s.
          then_section (section_reproc s) section_next)))))"

fun json_loop :: "json_settings \<Rightarrow> string \<Rightarrow> nat \<Rightarrow> jst \<Rightarrow> ctl" where
  "json_loop cfg js 0 s = Failed Out_of_fuel s"
| "json_loop cfg js (Suc fuel) s =
     (case json_body cfg js s of
        Fall s' \<Rightarrow> json_loop cfg js fuel (advance 1 s')
      | Continue s' \<Rightarrow> json_loop cfg js fuel (advance 1 s')
      | Break s' \<Rightarrow> Break s'
      | Failed e s' \<Rightarrow> Failed e s')"

text \<open>
  A text of \<open>n\<close> characters needs at most \<open>4 * n + 8\<close> iterations: each of the \<open>n + 1\<close>
  positions is visited once and read again at most three times.
\<close>

definition json_fuel :: "string \<Rightarrow> nat" where
  "json_fuel js = 4 * length js + 8"

definition pass1_init :: "mem \<Rightarrow> jst" where
  "pass1_init m =
     \<lparr>used_memory = 0, first_pass = True, ptr = 0, cur_line = 1, cur_col = 0, flags = flags_seek,
      num_digits = 0, num_e = 0, num_fraction = 0, string_length = 0, heap = [],
      s_top = None, s_root = None, s_alloc = None, s_mem = m\<rparr>"

definition pass2_init :: "jst \<Rightarrow> jst" where
  "pass2_init s =
     s\<lparr>first_pass := False, ptr := 0, cur_line := 1, flags := flags_seek, string_length := 0,
       s_top := None, s_root := None, s_alloc := s_root s\<rparr>"

definition skip_bom :: "string \<Rightarrow> string" where
  "skip_bom js = (if take 3 js = [CHR 0xEF, CHR 0xBB, CHR 0xBF] then drop 3 js else js)"

text \<open>
  \<open>json_value_free_ex\<close>: the walk that frees a value and all it holds, on a store in which a
  freed node is \<open>None\<close>. It shortens the arrays and objects from their ends as it descends,
  and returns to the parent of each node it frees.
\<close>

definition free_weight :: "json_node option list \<Rightarrow> nat" where
  "free_weight h = sum_list (map (\<lambda>n. case n of None \<Rightarrow> 0 | Some n \<Rightarrow> Suc (jlength n)) h)"

lemma free_weight_update:
  "i < length h \<Longrightarrow> h ! i = Some n \<Longrightarrow>
   (case x of None \<Rightarrow> True | Some m \<Rightarrow> jlength m < jlength n) \<Longrightarrow>
   free_weight (h[i := x]) < free_weight h"
proof (induction h arbitrary: i)
  case (Cons y ys)
  then show ?case
    by (cases i) (auto simp: free_weight_def split: option.splits)
qed simp

function json_value_free_ex ::
    "json_node option list \<Rightarrow> nat option \<Rightarrow> json_error + json_node option list" where
  "json_value_free_ex h value =
     (case value of
        None \<Rightarrow> Inr h
      | Some i \<Rightarrow>
          if length h \<le> i then Inl Use_after_free
          else (case h ! i of
            None \<Rightarrow> Inl Use_after_free
          | Some n \<Rightarrow>
              if jtype n = json_array \<and> jlength n \<noteq> 0 then
                (let k = jlength n - 1 in
                 if length (jvalues n) \<le> k then Inl Null_dereference
                 else json_value_free_ex (h[i := Some (n\<lparr>jlength := k\<rparr>)]) (jvalues n ! k))
              else if jtype n = json_object \<and> jlength n \<noteq> 0 then
                (let k = jlength n - 1 in
                 if length (jentries n) \<le> k then Inl Null_dereference
                 else json_value_free_ex (h[i := Some (n\<lparr>jlength := k\<rparr>)]) (evalue (jentries n ! k)))
              else json_value_free_ex (h[i := None]) (jparent n)))"
  by pat_completeness auto
termination
  by (relation "measure (\<lambda>(h, v). free_weight h)") (auto intro!: free_weight_update)

declare json_value_free_ex.simps [simp del]

text \<open>
  \<open>json_parse_ex\<close>: the store and the root of the value, or the error; with the allocator's
  state after the call. When the second pass fails, what it has built is freed, and the
  free can fail in turn. (The nodes that were not reached yet are freed too; nothing
  refers to them.)
\<close>

definition pass2_failed :: "json_error \<Rightarrow> jst \<Rightarrow> json_error" where
  "pass2_failed e s =
     (case json_value_free_ex (map Some (heap s)) (s_root s) of Inl e' \<Rightarrow> e' | Inr _ \<Rightarrow> e)"

definition json_parse_ex ::
    "json_settings \<Rightarrow> string \<Rightarrow> mem \<Rightarrow> (json_error + json_node list \<times> nat option) \<times> mem" where
  "json_parse_ex cfg text m =
     (let js = skip_bom text in
      case json_loop cfg js (json_fuel js) (pass1_init m) of
        Break s1 \<Rightarrow>
          (case json_loop cfg js (json_fuel js) (pass2_init s1) of
             Break s2 \<Rightarrow> (Inr (heap s2, s_root s2), s_mem s2)
           | Failed e s2 \<Rightarrow> (Inl (pass2_failed e s2), s_mem s2)
           | Fall s2 \<Rightarrow> (Inl Out_of_fuel, s_mem s2)
           | Continue s2 \<Rightarrow> (Inl Out_of_fuel, s_mem s2))
      | Failed e s1 \<Rightarrow> (Inl e, s_mem s1)
      | Fall s1 \<Rightarrow> (Inl Out_of_fuel, s_mem s1)
      | Continue s1 \<Rightarrow> (Inl Out_of_fuel, s_mem s1))"

text \<open>The settings of \<open>json_settings settings = { 0 }\<close>, which \<open>fault.c\<close> passes.\<close>

definition settings0 :: json_settings where
  "settings0 = \<lparr>max_memory = 0, enable_comments = False, value_extra = 0\<rparr>"

definition json_parse :: "string \<Rightarrow> mem \<Rightarrow> (json_error + json_node list \<times> nat option) \<times> mem" where
  "json_parse text m = json_parse_ex settings0 text m"

section \<open>The value a pointer denotes\<close>

text \<open>
  The clients of the parser only read its result. What they can see through the pointer
  \<open>i\<close> is a tree; a null or dangling pointer shows as \<open>JBad\<close>, a byte that was never written as a NUL.
\<close>

datatype jval =
    JObject "(string \<times> jval) list" | JArray "jval list" | JInt int64 | JDbl double
  | JStr string | JBool bool | JNull | JBad

definition bytes_at :: "char option list \<Rightarrow> nat \<Rightarrow> nat \<Rightarrow> string" where
  "bytes_at buf off n = map (\<lambda>c. case c of Some c \<Rightarrow> c | None \<Rightarrow> NUL) (take n (drop off buf))"

function json_view :: "json_node list \<Rightarrow> nat \<Rightarrow> jval" where
  "json_view h i =
     (if length h \<le> i then JBad
      else let n = h ! i in
      (case jtype n of
         json_object \<Rightarrow>
           JObject (map (\<lambda>e. (case ename e of None \<Rightarrow> [] | Some off \<Rightarrow> bytes_at (jobject_mem n) off (ename_length e),
                              case evalue e of None \<Rightarrow> JBad
                              | Some j \<Rightarrow> if i < j then json_view h j else JBad))
                     (take (jlength n) (jentries n)))
       | json_array \<Rightarrow>
           JArray (map (\<lambda>v. case v of None \<Rightarrow> JBad
                            | Some j \<Rightarrow> if i < j then json_view h j else JBad)
                     (take (jlength n) (jvalues n)))
       | json_integer \<Rightarrow> JInt (jinteger n)
       | json_double \<Rightarrow> JDbl (jdbl n)
       | json_string \<Rightarrow> JStr (bytes_at (jptr n) 0 (jlength n))
       | json_boolean \<Rightarrow> JBool (jboolean n)
       | json_null \<Rightarrow> JNull
       | json_none \<Rightarrow> JBad))"
  by pat_completeness auto
termination
  by (relation "measure (\<lambda>(h, i). length h - i)") auto

declare json_view.simps [simp del]

definition json_result :: "json_error + json_node list \<times> nat option \<Rightarrow> json_error + jval" where
  "json_result r =
     (case r of
        Inl e \<Rightarrow> Inl e
      | Inr (h, None) \<Rightarrow> Inl Null_dereference
      | Inr (h, Some i) \<Rightarrow> Inr (json_view h i))"

end
