(* ===== verification/Util.thy ===== *)
theory Util
  imports Json
begin

text \<open>
  Model of \<open>util.c\<close>: \<open>snappend\<close>, \<open>dynprintf\<close>, \<open>join_strs\<close>, \<open>get_child\<close>,
  \<open>dup_json_str_value\<close> and \<open>open_flags_to_str\<close>. Shown are the result of \<open>join_strs\<close> and
  that it stays inside the buffer it allocates, the lookup contract of \<open>get_child\<close>, and
  what \<open>snappend\<close> does with a full buffer. \<open>memfd_create\<close> is modelled with the file
  descriptors in \<open>Posix\<close>, \<open>recursive_unlink\<close> in \<open>Util_Files\<close>.
\<close>

section \<open>Formatted output into a buffer\<close>

text \<open>
  \<open>snappend(str, str_len, fmt, ...)\<close> on the contents \<open>str\<close> of a buffer of \<open>str_len\<close> bytes;
  \<open>text\<close> is the formatted output. \<open>vsnprintf\<close> of a size 0 writes nothing, otherwise at most
  size minus one characters.
\<close>

definition vsnprintf_into :: "nat \<Rightarrow> string \<Rightarrow> string" where
  "vsnprintf_into sz txt = (if sz = 0 then [] else take (sz - 1) txt)"

definition snappend :: "string \<Rightarrow> nat \<Rightarrow> string \<Rightarrow> int \<times> string" where
  "snappend str str_len txt =
     (let slen = length str in
      if str_len + 1 \<le> slen then (- ENAMETOOLONG, str)
      else (0, str @ vsnprintf_into (str_len - slen) txt))"

text \<open>\<open>dynprintf\<close>: the formatted text in a fresh buffer, or null.\<close>

definition dynprintf :: "string \<Rightarrow> mem \<Rightarrow> string option \<times> mem" where
  "dynprintf txt m = (let (ok, m') = alloc m in (if ok then Some txt else None, m'))"

definition strdup :: "string \<Rightarrow> mem \<Rightarrow> string option \<times> mem" where
  "strdup str m = (let (ok, m') = alloc m in (if ok then Some str else None, m'))"

section \<open>\<open>join_strs\<close>\<close>

text \<open>\<open>strcpy\<close> to an offset of a buffer, with the terminating NUL; \<open>None\<close> is an overflow.\<close>

definition strcpy_at :: "char list \<Rightarrow> nat \<Rightarrow> string \<Rightarrow> char list option" where
  "strcpy_at buf off str =
     (if off + length str < length buf
      then Some (take off buf @ str @ NUL # drop (off + length str + 1) buf) else None)"

fun join_copy :: "char list \<Rightarrow> nat \<Rightarrow> string list \<Rightarrow> char list option" where
  "join_copy buf off [] = Some buf"
| "join_copy buf off (str # strs) =
     (case strcpy_at buf off str of
        None \<Rightarrow> None
      | Some buf' \<Rightarrow> join_copy buf' (off + length str) strs)"

fun join_length :: "string list \<Rightarrow> nat" where
  "join_length [] = 1"
| "join_length (str # strs) = length str + join_length strs"

text \<open>
  The list of strings ends where the null pointer is. The fresh buffer holds arbitrary
  bytes \<open>junk\<close>, of which as many as were asked for are visible.
\<close>

definition join_strs :: "(nat \<Rightarrow> char) \<Rightarrow> string list \<Rightarrow> mem \<Rightarrow> (c_error + string option) \<times> mem" where
  "join_strs junk strs m =
     (let (ok, m') = alloc m in
      if \<not> ok then (Inr None, m')
      else (case join_copy (map junk [0..<join_length strs]) 0 strs of
              None \<Rightarrow> (Inl Segv, m')
            | Some buf \<Rightarrow> (Inr (Some (cstr buf)), m')))"

lemma join_length_concat: "join_length strs = length (concat strs) + 1"
  by (induction strs) auto

lemma join_copy_concat:
  "off + length (concat strs) < length buf \<Longrightarrow>
   strs \<noteq> [] \<Longrightarrow>
   join_copy buf off strs =
     Some (take off buf @ concat strs @ NUL # drop (off + length (concat strs) + 1) buf)"
proof (induction strs arbitrary: buf off)
  case Nil
  then show ?case by simp
next
  case (Cons str strs)
  let ?buf = "take off buf @ str @ NUL # drop (off + length str + 1) buf"
  have step: "strcpy_at buf off str = Some ?buf"
    using Cons.prems by (simp add: strcpy_at_def)
  show ?case
  proof (cases "strs = []")
    case True
    with step show ?thesis by simp
  next
    case False
    have "off + length str + length (concat strs) < length ?buf"
      using Cons.prems by simp
    from Cons.IH [OF this False] step show ?thesis
      using Cons.prems by (simp add: add.assoc [symmetric]) (simp add: add.commute add.left_commute)
  qed
qed

text \<open>\<open>join_strs\<close> returns the concatenation and never writes outside its buffer.\<close>

lemma join_strs_concat:
  assumes "strs \<noteq> []" "\<forall>str \<in> set strs. nul_free str"
  shows "join_strs junk strs m =
    (case alloc m of (ok, m') \<Rightarrow> (Inr (if ok then Some (concat strs) else None), m'))"
proof -
  have nf: "nul_free (concat strs)"
    using assms(2) by (auto simp: nul_free_def)
  have "join_copy (map junk [0..<join_length strs]) 0 strs = Some (concat strs @ [NUL])"
    using join_copy_concat [of 0 strs "map junk [0..<join_length strs]"] assms(1)
    by (simp add: join_length_concat del: upt_Suc)
  moreover have "cstr (concat strs @ [NUL]) = concat strs"
    using nf by (simp add: cstr_def takeWhile_append nul_free_def)
  ultimately show ?thesis by (simp add: join_strs_def split: prod.splits)
qed

section \<open>Reading JSON values\<close>

fun get_entry :: "(string \<times> jval) list \<Rightarrow> string \<Rightarrow> jval option" where
  "get_entry [] name = None"
| "get_entry ((k, v) # kvs) name = (if strcmp_eq k name then Some v else get_entry kvs name)"

definition get_child :: "jval \<Rightarrow> string \<Rightarrow> jval option" where
  "get_child obj name = (case obj of JObject kvs \<Rightarrow> get_entry kvs name | _ \<Rightarrow> None)"

definition dup_json_str_value :: "jval option \<Rightarrow> string \<Rightarrow> mem \<Rightarrow> (int + string) \<times> mem" where
  "dup_json_str_value obj dflt m =
     (let dup = (\<lambda>input. case strdup input m of
                           (None, m') \<Rightarrow> (Inl (- ENOMEM), m')
                         | (Some out, m') \<Rightarrow> (Inr out, m'))
      in case obj of
           Some (JStr str) \<Rightarrow> dup (cstr str)
         | Some _ \<Rightarrow> (Inl (- EINVAL), m)
         | None \<Rightarrow> dup dflt)"

text \<open>The first entry of that name, which for names without NUL is the library's lookup.\<close>

lemma get_entry_map_of:
  "nul_free name \<Longrightarrow> \<forall>k \<in> fst ` set kvs. nul_free k \<Longrightarrow> get_entry kvs name = map_of kvs name"
  by (induction kvs name rule: get_entry.induct) (auto simp: strcmp_eq_iff)

lemma dup_json_str_value_ok:
  "dup_json_str_value None d [] = (Inr d, [])"
  "dup_json_str_value (Some (JStr s)) d [] = (Inr (cstr s), [])"
  by (simp_all add: dup_json_str_value_def strdup_def)

lemma dup_json_str_value_nul_free:
  "dup_json_str_value obj d m = (Inr s, m') \<Longrightarrow> nul_free d \<Longrightarrow> nul_free s"
  by (auto simp: dup_json_str_value_def strdup_def Let_def split: option.splits jval.splits
      prod.splits if_splits)

section \<open>\<open>open_flags_to_str\<close>\<close>

text \<open>The flags of \<open>fcntl.h\<close> on Linux, in the order in which the function tests them.\<close>

definition open_flag_names :: "(int32 \<times> string) list" where
  "open_flag_names =
     [(0, ''O_RDONLY''), (1, ''O_WRONLY''), (2, ''O_RDWR''), (0x40, ''O_CREAT''),
      (0x80, ''O_EXCL''), (0x100, ''O_NOCTTY''), (0x200, ''O_TRUNC''), (0x400, ''O_APPEND''),
      (0x800, ''O_NONBLOCK''), (0x1000, ''O_DSYNC''), (0x2000, ''O_FASYNC''),
      (0x4000, ''O_DIRECT''), (0, ''O_LARGEFILE''), (0x10000, ''O_DIRECTORY''),
      (0x20000, ''O_NOFOLLOW''), (0x40000, ''O_NOATIME''), (0x80000, ''O_CLOEXEC'')]"

fun open_flags_append ::
    "(int32 \<times> string) list \<Rightarrow> int32 \<Rightarrow> string \<Rightarrow> string \<Rightarrow> nat \<Rightarrow> int \<times> string" where
  "open_flags_append [] fl sep str max_len = (0, str)"
| "open_flags_append ((fbit, name) # rest) fl sep str max_len =
     (if and fl fbit \<noteq> 0 then
        (case snappend str max_len (sep @ name) of (ret, str') \<Rightarrow>
           if ret \<noteq> 0 then (- ENAMETOOLONG, str')
           else open_flags_append rest fl ''|'' str' max_len)
      else open_flags_append rest fl sep str max_len)"

definition open_flags_to_str :: "int32 \<Rightarrow> string \<Rightarrow> nat \<Rightarrow> int \<times> string" where
  "open_flags_to_str fl str max_len = open_flags_append open_flag_names fl [] str max_len"

section \<open>Bounds of the buffer\<close>

text \<open>
  Appending to a terminated string keeps it terminated inside its buffer; what does not fit
  is dropped, and the result is still 0.
\<close>

lemma snappend_fits:
  "length str < str_len \<Longrightarrow>
   snappend str str_len txt = (0, take (str_len - 1) (str @ txt))"
  by (simp add: snappend_def vsnprintf_into_def)

lemma open_flags_append_bound:
  "length str < max_len \<Longrightarrow> open_flags_append names fl sep str max_len = (ret, out) \<Longrightarrow>
   ret = 0 \<and> length out < max_len"
proof (induction names fl sep str max_len arbitrary: ret out rule: open_flags_append.induct)
  case (2 fbit name rest fl sep str max_len)
  then show ?case
    by (auto simp: snappend_fits split: if_splits)
qed auto

end
