(* ===== verification/C_Rand.thy ===== *)
theory C_Rand
  imports C_Double
begin

text \<open>
  The \<open>drand48\<close> family: \<open>srand48\<close> as \<open>main\<close> calls it, \<open>drand48\<close> and \<open>lrand48\<close> as
  \<open>fault.c\<close> calls them. The state of the generator is global to the process and is passed
  explicitly. What the callers rely on is the interface \<open>unit_source\<close>: a draw lies in the
  half-open unit interval, with a gap to 1 that no rounding of a product closes.
\<close>

type_synonym rand48 = "48 word"

definition srand48 :: "int \<Rightarrow> rand48" where
  "srand48 seed = word_of_int (take_bit 32 seed * 2 ^ 16 + 0x330E)"

definition rand48_next :: "rand48 \<Rightarrow> rand48" where
  "rand48_next x = 0x5DEECE66D * x + 0xB"

definition drand48 :: "rand48 \<Rightarrow> double \<times> rand48" where
  "drand48 r = (let x = rand48_next r in (Fin False (of_int (uint x) / 2 ^ 48), x))"

definition lrand48 :: "rand48 \<Rightarrow> int \<times> rand48" where
  "lrand48 r = (let x = rand48_next r in (uint x div 2 ^ 17, x))"

text \<open>The expression \<open>(int) (drand48() * size)\<close> of the callers, for a given draw.\<close>

definition scaled :: "double \<Rightarrow> nat \<Rightarrow> nat" where
  "scaled d n = nat (int_of_double (dmul d (double_of_int (int n))))"

section \<open>The interface of a source of fractions\<close>

locale unit_source =
  fixes draw :: "'s \<Rightarrow> double \<times> 's"
  assumes draw_unit:
    "draw s = (d, s') \<Longrightarrow> \<exists>x. d = Fin False x \<and> 0 \<le> x \<and> x \<le> 1 - 1 / 2 ^ 48"
begin

lemma draw_Fin:
  obtains x where "fst (draw s) = Fin False x" "0 \<le> x" "x < 1"
proof -
  obtain d s' where d: "draw s = (d, s')" by (cases "draw s")
  from draw_unit [OF d] obtain x where "d = Fin False x" "0 \<le> x" "x \<le> 1 - 1 / 2 ^ 48" by blast
  then show thesis by (intro that [of x]) (auto simp: d)
qed

text \<open>A draw is below or at every fraction from 1 on, and above every negative one.\<close>

lemma draw_le_one: "1 \<le> f \<Longrightarrow> dle (fst (draw s)) (Fin False f)"
  by (rule draw_Fin [of s]) simp

lemma draw_not_le_negative: "0 < f \<Longrightarrow> \<not> dle (fst (draw s)) (Fin True f)"
  by (rule draw_Fin [of s]) simp

text \<open>The rounded product of a draw and a size truncates to an index below the size.\<close>

lemma scaled_less:
  assumes "0 < n" "n < 2 ^ 31"
  shows "scaled (fst (draw s)) n < n"
proof -
  obtain d s' where ds: "draw s = (d, s')" by (cases "draw s")
  from draw_unit [OF ds] obtain x where
    d: "d = Fin False x" and x: "0 \<le> x" "x \<le> 1 - 1 / 2 ^ 48" by blast
  let ?n = "of_nat n :: rat"
  have n53: "n < 2 ^ 53" using assms(2) by (rule order_less_trans) simp
  let ?p = "x * ?n"
  have p: "0 \<le> ?p" "?p \<le> ?n - ?n / 2 ^ 48"
    using x mult_right_mono [OF x(2), of ?n] by (simp_all add: left_diff_distrib)
  have lt: "round_mag ?p < ?n"
  proof (cases "rpow 2 (- 1022) \<le> ?p")
    case True
    have "round_mag ?p \<le> ?p + ?p / 2 ^ 53"
      using round_mag_relative [OF True] by linarith
    also have "\<dots> \<le> ?n - ?n / 2 ^ 48 + ?n / 2 ^ 53"
      using p assms(1) by (intro add_mono divide_right_mono) (auto intro: order_trans)
    also have "\<dots> < ?n" using assms(1) by (simp add: field_simps)
    finally show ?thesis .
  next
    case small: False
    show ?thesis
    proof (cases "?p = 0")
      case True
      then show ?thesis using assms(1) by (simp add: round_mag_def)
    next
      case False
      with p(1) have p0: "0 < ?p" by linarith
      note b = flog_bounds [of 2 ?p, OF _ p0]
      have "rpow 2 (flog 2 ?p) < rpow 2 (- 1022)" using b small by (simp add: not_le)
      then have "flog 2 ?p < - 1022"
        by (metis linorder_not_le one_le_numeral rpow_mono)
      then have "ulp ?p \<le> rpow 2 (- 1074)"
        unfolding ulp_def by (intro rpow_mono) auto
      also have "\<dots> \<le> rpow 2 (- 2)" by (intro rpow_mono) auto
      also have "\<dots> = 1 / 4" by (simp add: rpow_def)
      finally have u: "ulp ?p \<le> 1 / 4" .
      have "rpow 2 (- 1022) \<le> rpow 2 (- 2)" by (intro rpow_mono) auto
      then have "?p \<le> 1 / 4" using small by (simp add: rpow_def)
      then have "round_mag ?p < 1" using round_mag_error [OF p0] u by linarith
      also have "1 \<le> ?n" using assms(1) by simp
      finally show ?thesis .
    qed
  qed
  have big: "\<not> 2 ^ 1024 \<le> round_mag ?p"
  proof -
    have "?n < of_nat (2 ^ 31)" using assms(2) by (simp only: of_nat_less_iff)
    also have "(of_nat (2 ^ 31) :: rat) \<le> 2 ^ 1024"
      using power_increasing [of 31 1024 "2 :: rat"] by simp
    finally show ?thesis using lt by simp
  qed
  have "scaled (fst (draw s)) n = nat \<lfloor>round_mag ?p\<rfloor>"
    using big by (simp add: scaled_def ds d double_of_small_nat [OF n53] mk_double_def Let_def)
  moreover have "nat \<lfloor>round_mag ?p\<rfloor> < n"
  proof -
    have "\<lfloor>round_mag ?p\<rfloor> < int n" using lt by (simp add: floor_less_iff)
    then show ?thesis using assms(1) by linarith
  qed
  ultimately show ?thesis by simp
qed

lemma scaled_0: "scaled (fst (draw s)) 0 = 0"
  by (rule draw_Fin [of s])
    (simp add: scaled_def double_of_int_def mk_signed_def mk_double_def round_mag_def)

lemma scaled_le: "n < 2 ^ 31 \<Longrightarrow> scaled (fst (draw s)) n \<le> n"
  using scaled_less [of n s] scaled_0 [of s] by (cases "n = 0") auto

end

interpretation drand: unit_source drand48
proof
  fix s d s'
  assume ds: "drand48 s = (d, s')"
  define k where "k = uint (rand48_next s)"
  have d: "d = Fin False (of_int k / 2 ^ 48)"
    using ds by (auto simp: drand48_def Let_def k_def)
  have k: "0 \<le> k" "k < 2 ^ 48" using uint_lt2p [of "rand48_next s"] by (simp_all add: k_def)
  then have "k \<le> 2 ^ 48 - 1" by simp
  then have "(of_int k :: rat) \<le> of_int (2 ^ 48 - 1)" by (simp only: of_int_le_iff)
  then have "of_int k / 2 ^ 48 \<le> (1 - 1 / 2 ^ 48 :: rat)" by (simp add: field_simps)
  then show "\<exists>x. d = Fin False x \<and> 0 \<le> x \<and> x \<le> 1 - 1 / 2 ^ 48"
    by (intro exI [of _ "of_int k / 2 ^ 48"]) (simp add: d k)
qed

lemma lrand48_range: "lrand48 r = (v, r') \<Longrightarrow> 0 \<le> v \<and> v < 2 ^ 31"
  using uint_lt2p [of "rand48_next r"]
  by (auto simp: lrand48_def Let_def pos_imp_zdiv_nonneg_iff)

end
