(* ===== verification/Fault.thy ===== *)
theory Fault
  imports Util C_Rand
begin

text \<open>
  Model of \<open>fault.c\<close> and \<open>fault.h\<close>: the six kinds of faults with their parsing, printing,
  matching and application, the list of faults, the search for the first fault that applies
  to an operation, and the corruption of buffers. Memory is only tracked as far as an
  allocation can fail; the \<open>free\<close> functions have no counterpart.
\<close>

section \<open>The structures\<close>

datatype kibosh_fault_type =
    KIBOSH_FAULT_TYPE_UNREADABLE | KIBOSH_FAULT_TYPE_READ_DELAY | KIBOSH_FAULT_TYPE_UNWRITABLE
  | KIBOSH_FAULT_TYPE_WRITE_DELAY | KIBOSH_FAULT_TYPE_READ_CORRUPT | KIBOSH_FAULT_TYPE_WRITE_CORRUPT

text \<open>\<open>enum buffer_corruption_type\<close>: any integer can be stored, five have a meaning.\<close>

definition CORRUPT_ZERO :: int32 where "CORRUPT_ZERO = 1000"
definition CORRUPT_RAND :: int32 where "CORRUPT_RAND = 1001"
definition CORRUPT_ZERO_SEQ :: int32 where "CORRUPT_ZERO_SEQ = 1100"
definition CORRUPT_RAND_SEQ :: int32 where "CORRUPT_RAND_SEQ = 1101"
definition CORRUPT_DROP :: int32 where "CORRUPT_DROP = 1200"

lemmas corrupt_modes =
  CORRUPT_ZERO_def CORRUPT_RAND_def CORRUPT_ZERO_SEQ_def CORRUPT_RAND_SEQ_def CORRUPT_DROP_def

record fault_path =
  fprefix :: string
  fsuffix :: string

record code_fault = fault_path +
  code :: int32

record delay_fault = fault_path +
  delay_ms :: uint32
  fraction :: double

record corrupt_fault = fault_path +
  mode :: int32
  count :: int32
  cfraction :: double

text \<open>The structures of the readable and writable variants have the same members.\<close>

type_synonym kibosh_fault_unreadable = code_fault
type_synonym kibosh_fault_unwritable = code_fault
type_synonym kibosh_fault_read_delay = delay_fault
type_synonym kibosh_fault_write_delay = delay_fault
type_synonym kibosh_fault_read_corrupt = corrupt_fault
type_synonym kibosh_fault_write_corrupt = corrupt_fault

text \<open>A pointer to \<open>kibosh_fault_base\<close> is cast by its \<open>type\<close> to one of the six structures.\<close>

datatype kibosh_fault =
    Unreadable kibosh_fault_unreadable
  | Read_delay kibosh_fault_read_delay
  | Unwritable kibosh_fault_unwritable
  | Write_delay kibosh_fault_write_delay
  | Read_corrupt kibosh_fault_read_corrupt
  | Write_corrupt kibosh_fault_write_corrupt

fun fault_type :: "kibosh_fault \<Rightarrow> kibosh_fault_type" where
  "fault_type (Unreadable _) = KIBOSH_FAULT_TYPE_UNREADABLE"
| "fault_type (Read_delay _) = KIBOSH_FAULT_TYPE_READ_DELAY"
| "fault_type (Unwritable _) = KIBOSH_FAULT_TYPE_UNWRITABLE"
| "fault_type (Write_delay _) = KIBOSH_FAULT_TYPE_WRITE_DELAY"
| "fault_type (Read_corrupt _) = KIBOSH_FAULT_TYPE_READ_CORRUPT"
| "fault_type (Write_corrupt _) = KIBOSH_FAULT_TYPE_WRITE_CORRUPT"

text \<open>\<open>struct kibosh_faults\<close>: the null-terminated list.\<close>

type_synonym kibosh_faults = "kibosh_fault list"

definition kibosh_fault_type_name :: "kibosh_fault \<Rightarrow> string" where
  "kibosh_fault_type_name fault =
     (case fault of
        Unreadable _ \<Rightarrow> ''unreadable''
      | Read_delay _ \<Rightarrow> ''read_delay''
      | Unwritable _ \<Rightarrow> ''unwritable''
      | Write_delay _ \<Rightarrow> ''write_delay''
      | Read_corrupt _ \<Rightarrow> ''read_corrupt''
      | Write_corrupt _ \<Rightarrow> ''write_corrupt'')"

section \<open>Parsing one fault\<close>

text \<open>An integer field, as \<open>code\<close>, \<open>delay_ms\<close>, \<open>mode\<close> and \<open>count\<close>; a \<open>double\<close> field.\<close>

definition int_field :: "jval \<Rightarrow> string \<Rightarrow> int64 option" where
  "int_field obj name = (case get_child obj name of Some (JInt i) \<Rightarrow> Some i | _ \<Rightarrow> None)"

definition double_field :: "jval \<Rightarrow> string \<Rightarrow> double option" where
  "double_field obj name = (case get_child obj name of Some (JDbl d) \<Rightarrow> Some d | _ \<Rightarrow> None)"

text \<open>
  The part all six parsers share: \<open>calloc\<close> of the structure, then the fields \<open>prefix\<close> and
  \<open>suffix\<close> with their defaults.
\<close>

definition parse_path :: "jval \<Rightarrow> mem \<Rightarrow> fault_path option \<times> mem" where
  "parse_path obj m =
     (case alloc m of (ok, m0) \<Rightarrow>
        if \<not> ok then (None, m0)
        else case dup_json_str_value (get_child obj ''prefix'') ''/'' m0 of
          (Inl _, m1) \<Rightarrow> (None, m1)
        | (Inr pre, m1) \<Rightarrow>
            (case dup_json_str_value (get_child obj ''suffix'') [] m1 of
               (Inl _, m2) \<Rightarrow> (None, m2)
             | (Inr suf, m2) \<Rightarrow> (Some \<lparr>fprefix = pre, fsuffix = suf\<rparr>, m2)))"

definition with_code :: "fault_path \<Rightarrow> int32 \<Rightarrow> code_fault" where
  "with_code p c = \<lparr>fprefix = fprefix p, fsuffix = fsuffix p, code = c\<rparr>"

definition with_delay :: "fault_path \<Rightarrow> uint32 \<Rightarrow> double \<Rightarrow> delay_fault" where
  "with_delay p d f = \<lparr>fprefix = fprefix p, fsuffix = fsuffix p, delay_ms = d, fraction = f\<rparr>"

definition with_corrupt :: "fault_path \<Rightarrow> int32 \<Rightarrow> int32 \<Rightarrow> double \<Rightarrow> corrupt_fault" where
  "with_corrupt p md c f =
     \<lparr>fprefix = fprefix p, fsuffix = fsuffix p, mode = md, count = c, cfraction = f\<rparr>"

definition kibosh_fault_unreadable_parse :: "jval \<Rightarrow> mem \<Rightarrow> kibosh_fault_unreadable option \<times> mem" where
  "kibosh_fault_unreadable_parse obj m =
     (case parse_path obj m of
        (None, m') \<Rightarrow> (None, m')
      | (Some p, m') \<Rightarrow>
          (case int_field obj ''code'' of
             None \<Rightarrow> (None, m')
           | Some c \<Rightarrow> (Some (with_code p (to_int32 c)), m')))"

definition kibosh_fault_unwritable_parse :: "jval \<Rightarrow> mem \<Rightarrow> kibosh_fault_unwritable option \<times> mem" where
  "kibosh_fault_unwritable_parse obj m =
     (case int_field obj ''code'' of
        None \<Rightarrow> (None, m)
      | Some c \<Rightarrow>
          (case parse_path obj m of
             (None, m') \<Rightarrow> (None, m')
           | (Some p, m') \<Rightarrow> (Some (with_code p (to_int32 c)), m')))"

definition kibosh_fault_read_delay_parse :: "jval \<Rightarrow> mem \<Rightarrow> kibosh_fault_read_delay option \<times> mem" where
  "kibosh_fault_read_delay_parse obj m =
     (case int_field obj ''delay_ms'' of
        None \<Rightarrow> (None, m)
      | Some d \<Rightarrow>
          (case double_field obj ''fraction'' of
             None \<Rightarrow> (None, m)
           | Some f \<Rightarrow>
               (case parse_path obj m of
                  (None, m') \<Rightarrow> (None, m')
                | (Some p, m') \<Rightarrow> (Some (with_delay p (to_uint32 d) f), m'))))"

definition kibosh_fault_write_delay_parse :: "jval \<Rightarrow> mem \<Rightarrow> kibosh_fault_write_delay option \<times> mem" where
  "kibosh_fault_write_delay_parse obj m =
     (case int_field obj ''delay_ms'' of
        None \<Rightarrow> (None, m)
      | Some d \<Rightarrow>
          (case double_field obj ''fraction'' of
             None \<Rightarrow> (None, m)
           | Some f \<Rightarrow>
               (case parse_path obj m of
                  (None, m') \<Rightarrow> (None, m')
                | (Some p, m') \<Rightarrow> (Some (with_delay p (to_uint32 d) f), m'))))"

definition kibosh_fault_read_corrupt_parse :: "jval \<Rightarrow> mem \<Rightarrow> kibosh_fault_read_corrupt option \<times> mem" where
  "kibosh_fault_read_corrupt_parse obj m =
     (case int_field obj ''mode'' of
        None \<Rightarrow> (None, m)
      | Some md \<Rightarrow>
          (case double_field obj ''fraction'' of
             None \<Rightarrow> (None, m)
           | Some f \<Rightarrow>
               (case int_field obj ''count'' of
                  None \<Rightarrow> (None, m)
                | Some c \<Rightarrow>
                    (case parse_path obj m of
                       (None, m') \<Rightarrow> (None, m')
                     | (Some p, m') \<Rightarrow> (Some (with_corrupt p (to_int32 md) (to_int32 c) f), m')))))"

definition kibosh_fault_write_corrupt_parse :: "jval \<Rightarrow> mem \<Rightarrow> kibosh_fault_write_corrupt option \<times> mem" where
  "kibosh_fault_write_corrupt_parse obj m =
     (case int_field obj ''mode'' of
        None \<Rightarrow> (None, m)
      | Some md \<Rightarrow>
          (case double_field obj ''fraction'' of
             None \<Rightarrow> (None, m)
           | Some f \<Rightarrow>
               (case int_field obj ''count'' of
                  None \<Rightarrow> (None, m)
                | Some c \<Rightarrow>
                    (case parse_path obj m of
                       (None, m') \<Rightarrow> (None, m')
                     | (Some p, m') \<Rightarrow> (Some (with_corrupt p (to_int32 md) (to_int32 c) f), m')))))"

definition wrap_fault :: "('a \<Rightarrow> kibosh_fault) \<Rightarrow> 'a option \<times> mem \<Rightarrow> kibosh_fault option \<times> mem" where
  "wrap_fault c r = (case r of (f, m) \<Rightarrow> (map_option c f, m))"

definition kibosh_fault_base_parse :: "jval \<Rightarrow> mem \<Rightarrow> kibosh_fault option \<times> mem" where
  "kibosh_fault_base_parse obj m =
     (case get_child obj ''type'' of
        None \<Rightarrow> (None, m)
      | Some (JStr ty) \<Rightarrow>
          if strcmp_eq ty ''unreadable'' then wrap_fault Unreadable (kibosh_fault_unreadable_parse obj m)
          else if strcmp_eq ty ''read_delay'' then wrap_fault Read_delay (kibosh_fault_read_delay_parse obj m)
          else if strcmp_eq ty ''write_delay'' then wrap_fault Write_delay (kibosh_fault_write_delay_parse obj m)
          else if strcmp_eq ty ''unwritable'' then wrap_fault Unwritable (kibosh_fault_unwritable_parse obj m)
          else if strcmp_eq ty ''read_corrupt'' then wrap_fault Read_corrupt (kibosh_fault_read_corrupt_parse obj m)
          else if strcmp_eq ty ''write_corrupt'' then wrap_fault Write_corrupt (kibosh_fault_write_corrupt_parse obj m)
          else (None, m)
      | Some _ \<Rightarrow> (None, m))"

section \<open>Printing one fault\<close>

definition jq :: "string \<Rightarrow> string" where
  "jq str = CHR 0x22 # str @ [CHR 0x22]"

text \<open>The beginning that the six format strings share: type, prefix and suffix.\<close>

definition unparse_head :: "string \<Rightarrow> string \<Rightarrow> string \<Rightarrow> string" where
  "unparse_head ty pre suf =
     ''{'' @ jq ''type'' @ '':'' @ jq ty @ '', '' @
     jq ''prefix'' @ '':'' @ jq pre @ '', '' @ jq ''suffix'' @ '':'' @ jq suf @ '', ''"

definition kibosh_fault_unreadable_unparse :: "kibosh_fault_unreadable \<Rightarrow> mem \<Rightarrow> string option \<times> mem" where
  "kibosh_fault_unreadable_unparse f m =
     dynprintf (unparse_head ''unreadable'' (fprefix f) (fsuffix f) @
                jq ''code'' @ '':'' @ fmt_d (sint (code f)) @ ''}'') m"

definition kibosh_fault_unwritable_unparse :: "kibosh_fault_unwritable \<Rightarrow> mem \<Rightarrow> string option \<times> mem" where
  "kibosh_fault_unwritable_unparse f m =
     dynprintf (unparse_head ''unwritable'' (fprefix f) (fsuffix f) @
                jq ''code'' @ '':'' @ fmt_d (sint (code f)) @ ''}'') m"

text \<open>The format is \<open>%"PRId32"d\<close>: the conversion, followed by a literal letter \<open>d\<close>.\<close>

definition kibosh_fault_read_delay_unparse :: "kibosh_fault_read_delay \<Rightarrow> mem \<Rightarrow> string option \<times> mem" where
  "kibosh_fault_read_delay_unparse f m =
     dynprintf (unparse_head ''read_delay'' (fprefix f) (fsuffix f) @
                jq ''delay_ms'' @ '':'' @ fmt_d (sint (delay_ms f)) @ ''d, '' @
                jq ''fraction'' @ '':'' @ fmt_g (fraction f) @ ''}'') m"

definition kibosh_fault_write_delay_unparse :: "kibosh_fault_write_delay \<Rightarrow> mem \<Rightarrow> string option \<times> mem" where
  "kibosh_fault_write_delay_unparse f m =
     dynprintf (unparse_head ''write_delay'' (fprefix f) (fsuffix f) @
                jq ''delay_ms'' @ '':'' @ fmt_d (sint (delay_ms f)) @ ''d, '' @
                jq ''fraction'' @ '':'' @ fmt_g (fraction f) @ ''}'') m"

definition kibosh_fault_read_corrupt_unparse :: "kibosh_fault_read_corrupt \<Rightarrow> mem \<Rightarrow> string option \<times> mem" where
  "kibosh_fault_read_corrupt_unparse f m =
     dynprintf (unparse_head ''read_corrupt'' (fprefix f) (fsuffix f) @
                jq ''mode'' @ '':'' @ fmt_d (sint (mode f)) @ '', '' @
                jq ''fraction'' @ '':'' @ fmt_g (cfraction f) @ ''}'') m"

definition kibosh_fault_write_corrupt_unparse :: "kibosh_fault_write_corrupt \<Rightarrow> mem \<Rightarrow> string option \<times> mem" where
  "kibosh_fault_write_corrupt_unparse f m =
     dynprintf (unparse_head ''write_corrupt'' (fprefix f) (fsuffix f) @
                jq ''mode'' @ '':'' @ fmt_d (sint (mode f)) @ '', '' @
                jq ''fraction'' @ '':'' @ fmt_g (cfraction f) @ ''}'') m"

definition kibosh_fault_base_unparse :: "kibosh_fault \<Rightarrow> mem \<Rightarrow> string option \<times> mem" where
  "kibosh_fault_base_unparse fault m =
     (case fault of
        Unreadable f \<Rightarrow> kibosh_fault_unreadable_unparse f m
      | Read_delay f \<Rightarrow> kibosh_fault_read_delay_unparse f m
      | Write_delay f \<Rightarrow> kibosh_fault_write_delay_unparse f m
      | Unwritable f \<Rightarrow> kibosh_fault_unwritable_unparse f m
      | Read_corrupt f \<Rightarrow> kibosh_fault_read_corrupt_unparse f m
      | Write_corrupt f \<Rightarrow> kibosh_fault_write_corrupt_unparse f m)"

section \<open>Matching\<close>

text \<open>
  The three tests that the six functions begin with, in their order: the operation, the
  prefix of the path, the suffix of the path.
\<close>

definition path_matches :: "('a fault_path_scheme) \<Rightarrow> string \<Rightarrow> string \<Rightarrow> string \<Rightarrow> bool" where
  "path_matches f want path op =
     (if \<not> strcmp_eq op want then False
      else if \<not> strncmp_eq path (fprefix f) (length (fprefix f)) then False
      else if length (fsuffix f) > length path
              \<or> \<not> strcmp_eq (drop (length path - length (fsuffix f)) path) (fsuffix f) then False
      else True)"

definition kibosh_fault_unreadable_matches :: "kibosh_fault_unreadable \<Rightarrow> string \<Rightarrow> string \<Rightarrow> bool" where
  "kibosh_fault_unreadable_matches f path op = path_matches f ''read'' path op"

definition kibosh_fault_unwritable_matches :: "kibosh_fault_unwritable \<Rightarrow> string \<Rightarrow> string \<Rightarrow> bool" where
  "kibosh_fault_unwritable_matches f path op = path_matches f ''write'' path op"

definition kibosh_fault_read_corrupt_matches :: "kibosh_fault_read_corrupt \<Rightarrow> string \<Rightarrow> string \<Rightarrow> bool" where
  "kibosh_fault_read_corrupt_matches f path op = path_matches f ''read'' path op"

definition kibosh_fault_write_corrupt_matches :: "kibosh_fault_write_corrupt \<Rightarrow> string \<Rightarrow> string \<Rightarrow> bool" where
  "kibosh_fault_write_corrupt_matches f path op = path_matches f ''write'' path op"

definition kibosh_fault_read_delay_matches ::
    "kibosh_fault_read_delay \<Rightarrow> string \<Rightarrow> string \<Rightarrow> rand48 \<Rightarrow> bool \<times> rand48" where
  "kibosh_fault_read_delay_matches f path op r =
     (if \<not> path_matches f ''read'' path op then (False, r)
      else let (d, r') = drand48 r in (dle d (fraction f), r'))"

definition kibosh_fault_write_delay_matches ::
    "kibosh_fault_write_delay \<Rightarrow> string \<Rightarrow> string \<Rightarrow> rand48 \<Rightarrow> bool \<times> rand48" where
  "kibosh_fault_write_delay_matches f path op r =
     (if \<not> path_matches f ''write'' path op then (False, r)
      else let (d, r') = drand48 r in (dle d (fraction f), r'))"

definition kibosh_fault_matches :: "kibosh_fault \<Rightarrow> string \<Rightarrow> string \<Rightarrow> rand48 \<Rightarrow> bool \<times> rand48" where
  "kibosh_fault_matches fault path op r =
     (case fault of
        Unreadable f \<Rightarrow> (kibosh_fault_unreadable_matches f path op, r)
      | Read_delay f \<Rightarrow> kibosh_fault_read_delay_matches f path op r
      | Write_delay f \<Rightarrow> kibosh_fault_write_delay_matches f path op r
      | Unwritable f \<Rightarrow> (kibosh_fault_unwritable_matches f path op, r)
      | Read_corrupt f \<Rightarrow> (kibosh_fault_read_corrupt_matches f path op, r)
      | Write_corrupt f \<Rightarrow> (kibosh_fault_write_corrupt_matches f path op, r))"

section \<open>Corrupting a buffer\<close>

text \<open>The bodies of the loops of \<open>corrupt_buffer\<close>, over the bytes they visit.\<close>

fun corrupt_zero :: "double \<Rightarrow> string \<Rightarrow> rand48 \<Rightarrow> string \<times> rand48" where
  "corrupt_zero fr [] r = ([], r)"
| "corrupt_zero fr (c # cs) r =
     (let (d, r1) = drand48 r;
          c' = (if dle d fr then NUL else c);
          (cs', r2) = corrupt_zero fr cs r1
      in (c' # cs', r2))"

definition rand_byte :: "rand48 \<Rightarrow> char \<times> rand48" where
  "rand_byte r = (let (v, r') = lrand48 r in (char_of (and v 0xff), r'))"

fun corrupt_rand :: "double \<Rightarrow> string \<Rightarrow> rand48 \<Rightarrow> string \<times> rand48" where
  "corrupt_rand fr [] r = ([], r)"
| "corrupt_rand fr (c # cs) r =
     (let (d, r1) = drand48 r;
          (c', r2) = (if dle d fr then rand_byte r1 else (c, r1));
          (cs', r3) = corrupt_rand fr cs r2
      in (c' # cs', r3))"

fun corrupt_rand_seq :: "string \<Rightarrow> rand48 \<Rightarrow> string \<times> rand48" where
  "corrupt_rand_seq [] r = ([], r)"
| "corrupt_rand_seq (c # cs) r =
     (let (c', r1) = rand_byte r; (cs', r2) = corrupt_rand_seq cs r1 in (c' # cs', r2))"

text \<open>
  \<open>corrupt_buffer(buf, size, mode, fraction)\<close> on the first \<open>size\<close> bytes of the buffer: the
  bytes afterwards, the result and the generator's state.
\<close>

definition corrupt_bytes :: "string \<Rightarrow> int32 \<Rightarrow> double \<Rightarrow> rand48 \<Rightarrow> string \<times> nat \<times> rand48" where
  "corrupt_bytes bs md fr r =
     (let n = length bs in
      if md = CORRUPT_ZERO then (case corrupt_zero fr bs r of (bs', r') \<Rightarrow> (bs', n, r'))
      else if md = CORRUPT_RAND then (case corrupt_rand fr bs r of (bs', r') \<Rightarrow> (bs', n, r'))
      else if md = CORRUPT_RAND_SEQ then
        (let (d, r1) = drand48 r; i = scaled d n in
         case corrupt_rand_seq (drop i bs) r1 of (bs', r2) \<Rightarrow> (take i bs @ bs', n, r2))
      else if md = CORRUPT_ZERO_SEQ then
        (let (d, r1) = drand48 r; i = scaled d n in (take i bs @ replicate (n - i) NUL, n, r1))
      else if md = CORRUPT_DROP then (let (d, r1) = drand48 r in (bs, scaled d n, r1))
      else (bs, n, r))"

definition corrupt_buffer ::
    "string \<Rightarrow> nat \<Rightarrow> int32 \<Rightarrow> double \<Rightarrow> rand48 \<Rightarrow> string \<times> nat \<times> rand48" where
  "corrupt_buffer buf n md fr r =
     (case corrupt_bytes (take n buf) md fr r of (bs, ret, r') \<Rightarrow> (bs @ drop n buf, ret, r'))"

section \<open>Applying\<close>

definition kibosh_fault_unreadable_apply :: "kibosh_fault_unreadable \<Rightarrow> int32 \<times> uint32" where
  "kibosh_fault_unreadable_apply f = (if sint (code f) < 0 then code f else - code f, 0)"

definition kibosh_fault_unwritable_apply :: "kibosh_fault_unwritable \<Rightarrow> int32 \<times> uint32" where
  "kibosh_fault_unwritable_apply f = (if sint (code f) < 0 then code f else - code f, 0)"

definition kibosh_fault_read_delay_apply :: "kibosh_fault_read_delay \<Rightarrow> uint32" where
  "kibosh_fault_read_delay_apply f = delay_ms f"

definition kibosh_fault_write_delay_apply :: "kibosh_fault_write_delay \<Rightarrow> int \<Rightarrow> int \<times> uint32" where
  "kibosh_fault_write_delay_apply f n = (n, delay_ms f)"

text \<open>
  The counter both corruption faults keep: while positive it counts down, at 0 the fault
  turns into one that drops, negative it is ignored.
\<close>

definition corrupt_count :: "corrupt_fault \<Rightarrow> corrupt_fault" where
  "corrupt_count f =
     (if 0 < sint (count f) then f\<lparr>count := count f - 1\<rparr>
      else if count f = 0 then f\<lparr>mode := CORRUPT_DROP, cfraction := Fin False 1\<rparr>
      else f)"

definition kibosh_fault_read_corrupt_apply ::
    "kibosh_fault_read_corrupt \<Rightarrow> string \<Rightarrow> nat \<Rightarrow> rand48 \<Rightarrow>
     kibosh_fault_read_corrupt \<times> string \<times> nat \<times> rand48" where
  "kibosh_fault_read_corrupt_apply f buf nread r =
     (let f' = corrupt_count f in
      case corrupt_buffer buf nread (mode f') (cfraction f') r of (buf', ret, r') \<Rightarrow> (f', buf', ret, r'))"

text \<open>
  A write fault may allocate a copy of the data, \<open>dynamic_buf\<close>, which is then written
  instead. Result, data to write, the copy, fault, generator, allocator.
\<close>

definition kibosh_fault_write_corrupt_apply ::
    "kibosh_fault_write_corrupt \<Rightarrow> string \<Rightarrow> nat \<Rightarrow> rand48 \<Rightarrow> mem \<Rightarrow>
     int \<times> string \<times> string option \<times> kibosh_fault_write_corrupt \<times> rand48 \<times> mem" where
  "kibosh_fault_write_corrupt_apply f buf n r m =
     (let f' = corrupt_count f in
      if mode f' = CORRUPT_DROP then
        (let (d, r1) = drand48 r in (int (scaled d n), buf, None, f', r1, m))
      else (case alloc m of (ok, m') \<Rightarrow>
        if \<not> ok then (- ENOMEM, buf, None, f', r, m')
        else (case corrupt_buffer (take n buf) n (mode f') (cfraction f') r of
                (dbuf, ret, r') \<Rightarrow> (int ret, dbuf, Some dbuf, f', r', m'))))"

text \<open>
  \<open>apply_read_fault\<close>: the result of the read, the buffer, the delay, the fault (the counter
  lives in it) and the generator.
\<close>

definition apply_read_fault ::
    "kibosh_fault \<Rightarrow> string \<Rightarrow> nat \<Rightarrow> rand48 \<Rightarrow> int \<times> string \<times> uint32 \<times> kibosh_fault \<times> rand48" where
  "apply_read_fault fault buf nread r =
     (case fault of
        Unreadable f \<Rightarrow>
          (case kibosh_fault_unreadable_apply f of (ret, delay) \<Rightarrow> (sint ret, buf, delay, fault, r))
      | Read_delay f \<Rightarrow> (int nread, buf, kibosh_fault_read_delay_apply f, fault, r)
      | Read_corrupt f \<Rightarrow>
          (case kibosh_fault_read_corrupt_apply f buf nread r of
             (f', buf', ret, r') \<Rightarrow> (int ret, buf', 0, Read_corrupt f', r'))
      | _ \<Rightarrow> (int nread, buf, 0, fault, r))"

definition apply_write_fault ::
    "kibosh_fault \<Rightarrow> string \<Rightarrow> nat \<Rightarrow> rand48 \<Rightarrow> mem \<Rightarrow>
     int \<times> string \<times> string option \<times> uint32 \<times> kibosh_fault \<times> rand48 \<times> mem" where
  "apply_write_fault fault buf n r m =
     (case fault of
        Unwritable f \<Rightarrow>
          (case kibosh_fault_unwritable_apply f of (ret, delay) \<Rightarrow> (sint ret, buf, None, delay, fault, r, m))
      | Write_delay f \<Rightarrow>
          (case kibosh_fault_write_delay_apply f (int n) of (ret, delay) \<Rightarrow> (ret, buf, None, delay, fault, r, m))
      | Write_corrupt f \<Rightarrow>
          (case kibosh_fault_write_corrupt_apply f buf n r m of
             (ret, buf', dyn, f', r', m') \<Rightarrow> (ret, buf', dyn, 0, Write_corrupt f', r', m'))
      | _ \<Rightarrow> (int n, buf, None, 0, fault, r, m))"

section \<open>The list of faults\<close>

definition faults_calloc :: "mem \<Rightarrow> (int + kibosh_faults) \<times> mem" where
  "faults_calloc m =
     (case alloc m of (ok, m1) \<Rightarrow>
        if \<not> ok then (Inl (- ENOMEM), m1)
        else (case alloc m1 of (ok2, m2) \<Rightarrow> if ok2 then (Inr [], m2) else (Inl (- ENOMEM), m2)))"

fun fault_array_loop :: "jval list \<Rightarrow> mem \<Rightarrow> kibosh_faults option \<times> mem" where
  "fault_array_loop [] m = (Some [], m)"
| "fault_array_loop (v # vs) m =
     (case kibosh_fault_base_parse v m of
        (None, m') \<Rightarrow> (None, m')
      | (Some f, m') \<Rightarrow>
          (case fault_array_loop vs m' of
             (None, m'') \<Rightarrow> (None, m'')
           | (Some fs, m'') \<Rightarrow> (Some (f # fs), m'')))"

text \<open>
  \<open>fault_array_parse\<close>. When the list cannot be allocated, the cleanup reads it all the
  same, once for each element of the array.
\<close>

definition fault_array_parse :: "jval \<Rightarrow> mem \<Rightarrow> (c_error + kibosh_faults) \<times> mem" where
  "fault_array_parse arr m =
     (case arr of
        JArray vs \<Rightarrow>
          (case alloc m of (ok, m1) \<Rightarrow>
             if \<not> ok then (Inl (Errno (- EIO)), m1)
             else (case alloc m1 of (ok2, m2) \<Rightarrow>
               if \<not> ok2 then (if vs = [] then (Inl (Errno (- EIO)), m2) else (Inl Segv, m2))
               else (case fault_array_loop vs m2 of
                       (None, m3) \<Rightarrow> (Inl (Errno (- EIO)), m3)
                     | (Some fs, m3) \<Rightarrow> (Inr fs, m3))))
      | _ \<Rightarrow> (Inl (Errno (- EIO)), m))"

text \<open>\<open>faults_parse\<close>, on the value of the text and, below, on the text itself.\<close>

definition faults_of_json :: "jval \<Rightarrow> mem \<Rightarrow> (c_error + kibosh_faults) \<times> mem" where
  "faults_of_json doc m =
     (case get_child doc ''faults'' of
        None \<Rightarrow>
          (case faults_calloc m of
             (Inl e, m') \<Rightarrow> (Inl (Errno e), m')
           | (Inr fs, m') \<Rightarrow> (Inr fs, m'))
      | Some arr \<Rightarrow> fault_array_parse arr m)"

text \<open>An invalid memory access in the parser ends the process; other errors are \<open>-EIO\<close>.\<close>

definition json_crash :: "json_error \<Rightarrow> bool" where
  "json_crash e \<longleftrightarrow> e \<in> {Out_of_bounds_read, Out_of_bounds_write, Null_dereference, Use_after_free}"

definition faults_parse :: "string \<Rightarrow> mem \<Rightarrow> (c_error + kibosh_faults) \<times> mem" where
  "faults_parse str m =
     (case json_parse_ex settings0 str m of
        (Inl e, m') \<Rightarrow> (Inl (if json_crash e then Segv else Errno (- EIO)), m')
      | (Inr (h, None), m') \<Rightarrow> (Inl (Errno (- EIO)), m')
      | (Inr (h, Some i), m') \<Rightarrow> faults_of_json (json_view h i) m')"

text \<open>
  The loop of \<open>faults_unparse\<close> that fills the array of strings: a separator before every
  fault but the first.
\<close>

fun unparse_loop :: "bool \<Rightarrow> kibosh_faults \<Rightarrow> mem \<Rightarrow> string list option \<times> mem" where
  "unparse_loop first [] m = (Some [], m)"
| "unparse_loop first (f # fs) m =
     (case (if first then (Some [], m) else case strdup '', '' m of (None, m1) \<Rightarrow> (None, m1) | (Some c, m1) \<Rightarrow> (Some [c], m1)) of
        (None, m1) \<Rightarrow> (None, m1)
      | (Some sep, m1) \<Rightarrow>
          (case kibosh_fault_base_unparse f m1 of
             (None, m2) \<Rightarrow> (None, m2)
           | (Some txt, m2) \<Rightarrow>
               (case unparse_loop False fs m2 of
                  (None, m3) \<Rightarrow> (None, m3)
                | (Some rest, m3) \<Rightarrow> (Some (sep @ txt # rest), m3))))"

definition faults_unparse :: "(nat \<Rightarrow> char) \<Rightarrow> kibosh_faults \<Rightarrow> mem \<Rightarrow> (c_error + string option) \<times> mem" where
  "faults_unparse junk fs m =
     (case alloc m of (ok, m0) \<Rightarrow>
        if \<not> ok then (Inr None, m0)
        else (case strdup (''{'' @ jq ''faults'' @ '':['') m0 of
          (None, m1) \<Rightarrow> (Inr None, m1)
        | (Some hds, m1) \<Rightarrow>
            (case unparse_loop True fs m1 of
               (None, m2) \<Rightarrow> (Inr None, m2)
             | (Some strs, m2) \<Rightarrow>
                 (case strdup '']}'' m2 of
                    (None, m3) \<Rightarrow> (Inr None, m3)
                  | (Some tls, m3) \<Rightarrow> join_strs junk (hds # strs @ [tls]) m3))))"

text \<open>
  \<open>find_first_fault\<close> returns a pointer into the list, here the position. Each delay fault
  whose path matches draws a number.
\<close>

fun find_first_fault :: "kibosh_faults \<Rightarrow> string \<Rightarrow> string \<Rightarrow> rand48 \<Rightarrow> nat option \<times> rand48" where
  "find_first_fault [] path op r = (None, r)"
| "find_first_fault (f # fs) path op r =
     (case kibosh_fault_matches f path op r of (hit, r') \<Rightarrow>
        if hit then (Some 0, r')
        else (case find_first_fault fs path op r' of (i, r'') \<Rightarrow> (map_option Suc i, r'')))"

end
