(* ===== verification/Fault_Facts.thy ===== *)
theory Fault_Facts
  imports Fault
begin

text \<open>
  What the functions of \<open>fault.c\<close> guarantee. Matching is stated as an interface that the six
  kinds of faults implement; the search for the first fault is proved once for any list of
  things that can be selected and then used for the faults; the corruption modes share the
  contract of a byte-wise transformation.
\<close>

section \<open>Which operations a fault covers\<close>

fun fault_path_of :: "kibosh_fault \<Rightarrow> fault_path" where
  "fault_path_of (Unreadable f) = \<lparr>fprefix = fprefix f, fsuffix = fsuffix f\<rparr>"
| "fault_path_of (Read_delay f) = \<lparr>fprefix = fprefix f, fsuffix = fsuffix f\<rparr>"
| "fault_path_of (Unwritable f) = \<lparr>fprefix = fprefix f, fsuffix = fsuffix f\<rparr>"
| "fault_path_of (Write_delay f) = \<lparr>fprefix = fprefix f, fsuffix = fsuffix f\<rparr>"
| "fault_path_of (Read_corrupt f) = \<lparr>fprefix = fprefix f, fsuffix = fsuffix f\<rparr>"
| "fault_path_of (Write_corrupt f) = \<lparr>fprefix = fprefix f, fsuffix = fsuffix f\<rparr>"

definition fault_op :: "kibosh_fault \<Rightarrow> string" where
  "fault_op f =
     (case f of Unreadable _ \<Rightarrow> ''read'' | Read_delay _ \<Rightarrow> ''read'' | Read_corrupt _ \<Rightarrow> ''read''
      | _ \<Rightarrow> ''write'')"

text \<open>The specification: the operation is the fault's, the path has its prefix and suffix.\<close>

definition covers :: "kibosh_fault \<Rightarrow> string \<Rightarrow> string \<Rightarrow> bool" where
  "covers f path op \<longleftrightarrow>
     op = fault_op f \<and> prefix (fprefix (fault_path_of f)) path \<and> suffix (fsuffix (fault_path_of f)) path"

definition plain_paths :: "kibosh_fault \<Rightarrow> bool" where
  "plain_paths f \<longleftrightarrow> nul_free (fprefix (fault_path_of f)) \<and> nul_free (fsuffix (fault_path_of f))"

lemma nul_free_drop: "nul_free s \<Longrightarrow> nul_free (drop n s)"
  by (auto simp: nul_free_def dest: in_set_dropD)

lemma path_matches_iff:
  assumes "nul_free path" "nul_free op" "nul_free want" "nul_free (fprefix f)" "nul_free (fsuffix f)"
  shows "path_matches f want path op \<longleftrightarrow>
    op = want \<and> prefix (fprefix f) path \<and> suffix (fsuffix f) path"
proof (cases "length (fsuffix f) \<le> length path")
  case True
  then show ?thesis
    using assms nul_free_drop [OF assms(1)]
    by (simp add: path_matches_def strcmp_eq_iff strncmp_prefix drop_suffix not_less)
next
  case False
  then have "\<not> suffix (fsuffix f) path" by (auto dest: suffix_length_le)
  with False show ?thesis by (simp add: path_matches_def not_less)
qed

text \<open>
  The interface of a fault kind without chance: its match is the specification. It never
  covers both operations, and narrowing it is lengthening its prefix or suffix.
\<close>

locale path_test =
  fixes matches :: "('a fault_path_scheme) \<Rightarrow> string \<Rightarrow> string \<Rightarrow> bool"
    and want :: string
  assumes matches_iff:
    "nul_free path \<Longrightarrow> nul_free op \<Longrightarrow> nul_free (fprefix f) \<Longrightarrow> nul_free (fsuffix f) \<Longrightarrow>
     matches f path op \<longleftrightarrow> op = want \<and> prefix (fprefix f) path \<and> suffix (fsuffix f) path"
begin

lemma matches_everything:
  "nul_free path \<Longrightarrow> nul_free want \<Longrightarrow> fprefix f = [] \<Longrightarrow> fsuffix f = [] \<Longrightarrow> matches f path want"
  by (simp add: matches_iff)

lemma matches_narrower:
  assumes "matches f path op" "nul_free path" "nul_free op"
    "prefix (fprefix g) (fprefix f)" "suffix (fsuffix g) (fsuffix f)"
    "nul_free (fprefix f)" "nul_free (fsuffix f)"
  shows "matches g path op"
proof -
  have "nul_free (fprefix g)" "nul_free (fsuffix g)"
    using assms(4-7) by (auto simp: prefix_def suffix_def)
  then show ?thesis
    using assms by (auto simp: matches_iff intro: prefix_order.trans suffix_order.trans)
qed

end

interpretation unreadable: path_test kibosh_fault_unreadable_matches "''read''"
  by unfold_locales (simp add: kibosh_fault_unreadable_matches_def path_matches_iff)

interpretation unwritable: path_test kibosh_fault_unwritable_matches "''write''"
  by unfold_locales (simp add: kibosh_fault_unwritable_matches_def path_matches_iff)

interpretation read_corrupt: path_test kibosh_fault_read_corrupt_matches "''read''"
  by unfold_locales (simp add: kibosh_fault_read_corrupt_matches_def path_matches_iff)

interpretation write_corrupt: path_test kibosh_fault_write_corrupt_matches "''write''"
  by unfold_locales (simp add: kibosh_fault_write_corrupt_matches_def path_matches_iff)

text \<open>With chance: \<open>lucky\<close> is the fraction against which a delay fault draws.\<close>

definition lucky :: "kibosh_fault \<Rightarrow> double option" where
  "lucky f = (case f of Read_delay d \<Rightarrow> Some (fraction d) | Write_delay d \<Rightarrow> Some (fraction d) | _ \<Rightarrow> None)"

lemma kibosh_fault_matches_spec:
  assumes "nul_free path" "nul_free op" "plain_paths f"
  shows "kibosh_fault_matches f path op r =
    (if \<not> covers f path op then (False, r)
     else case lucky f of None \<Rightarrow> (True, r) | Some fr \<Rightarrow> (dle (fst (drand48 r)) fr, snd (drand48 r)))"
  using assms
  by (cases f)
     (auto simp: kibosh_fault_matches_def covers_def fault_op_def lucky_def plain_paths_def
       unreadable.matches_iff unwritable.matches_iff read_corrupt.matches_iff write_corrupt.matches_iff
       kibosh_fault_read_delay_matches_def kibosh_fault_write_delay_matches_def path_matches_iff
       case_prod_beta)

section \<open>The first fault\<close>

lemma find_map: "find P (map f xs) = map_option f (find (P \<circ> f) xs)"
  by (induction xs) auto

text \<open>
  Searching a list with a test that may draw random numbers: \<open>may\<close> is what the test can
  accept at all, and a test of anything else draws nothing.
\<close>

locale selector =
  fixes test :: "'f \<Rightarrow> 's \<Rightarrow> bool \<times> 's" and may :: "'f \<Rightarrow> bool" and ok :: "'f \<Rightarrow> bool"
  assumes test_may: "ok f \<Longrightarrow> test f s = (True, s') \<Longrightarrow> may f"
    and test_skip: "ok f \<Longrightarrow> \<not> may f \<Longrightarrow> test f s = (False, s)"
begin

fun first :: "'f list \<Rightarrow> 's \<Rightarrow> nat option \<times> 's" where
  "first [] s = (None, s)"
| "first (f # fs) s =
     (case test f s of (hit, s') \<Rightarrow>
        if hit then (Some 0, s') else (case first fs s' of (i, s'') \<Rightarrow> (map_option Suc i, s'')))"

lemma first_Some:
  "first fs s = (Some i, s') \<Longrightarrow> \<forall>f \<in> set fs. ok f \<Longrightarrow>
   i < length fs \<and> may (fs ! i) \<and> (\<exists>s0. test (fs ! i) s0 = (True, s')) \<and>
   (\<forall>j < i. \<exists>sj. \<not> fst (test (fs ! j) sj))"
proof (induction fs arbitrary: s i)
  case (Cons f fs)
  obtain hit s1 where t: "test f s = (hit, s1)" by (cases "test f s")
  show ?case
  proof (cases hit)
    case True
    with Cons.prems t test_may [of f s s1] show ?thesis by auto
  next
    case False
    with Cons.prems t obtain k where k: "i = Suc k" "first fs s1 = (Some k, s')"
      by (auto split: prod.splits)
    with Cons.IH [OF k(2)] Cons.prems(2) False t show ?thesis
      by (auto simp: All_less_Suc2 intro: exI [of _ s])
  qed
qed simp

lemma first_skip: "\<forall>f \<in> set fs. ok f \<and> \<not> may f \<Longrightarrow> first fs s = (None, s)"
  by (induction fs) (auto simp: test_skip)

lemma first_sure:
  assumes "\<forall>f \<in> set fs. ok f \<and> (may f \<longrightarrow> (\<forall>s. test f s = (True, s)))"
  shows "first fs s = (find (\<lambda>i. may (fs ! i)) [0..<length fs], s)"
  using assms
proof (induction fs arbitrary: s)
  case (Cons f fs)
  have "find (\<lambda>i. may ((f # fs) ! i)) [Suc 0..<Suc (length fs)] =
      map_option Suc (find (\<lambda>i. may (fs ! i)) [0..<length fs])"
    by (simp flip: map_Suc_upt add: find_map comp_def del: upt_Suc)
  with Cons show ?case
    by (cases "may f") (auto simp: test_skip upt_conv_Cons simp del: upt_Suc)
qed simp

end

lemma nul_free_fault_op: "nul_free (fault_op f)"
  by (cases f) (simp_all add: fault_op_def)

interpretation kf: selector "\<lambda>f. kibosh_fault_matches f path op" "\<lambda>f. covers f path op"
    "\<lambda>f. plain_paths f \<and> nul_free path \<and> nul_free op" for path op
  by unfold_locales (auto simp: kibosh_fault_matches_spec split: if_splits)

lemma find_first_fault_first: "find_first_fault fs path op r = kf.first path op fs r"
  by (induction fs arbitrary: r) (auto split: prod.splits)

lemma find_first_fault_covers:
  assumes "find_first_fault fs path op r = (Some i, r')"
    and "nul_free path" "nul_free op" "\<forall>f \<in> set fs. plain_paths f"
  shows "i < length fs \<and> covers (fs ! i) path op \<and>
    (\<forall>j < i. \<not> covers (fs ! j) path op \<or> lucky (fs ! j) \<noteq> None)"
proof -
  have ok: "\<forall>f \<in> set fs. plain_paths f \<and> nul_free path \<and> nul_free op" using assms by simp
  note s = kf.first_Some [OF assms(1) [unfolded find_first_fault_first] ok]
  have "\<not> covers (fs ! j) path op \<or> lucky (fs ! j) \<noteq> None" if j: "j < i" for j
  proof -
    have "fs ! j \<in> set fs" using s j by simp
    moreover obtain sj where "\<not> fst (kibosh_fault_matches (fs ! j) path op sj)" using s j by blast
    ultimately show ?thesis
      using assms by (auto simp: kibosh_fault_matches_spec split: option.splits)
  qed
  with s show ?thesis by blast
qed

text \<open>
  C3. The search returns a fault that covers the operation and whose own test succeeded, and
  every fault before it in the list either does not cover the operation or has lost its
  draw: no deterministic fault that covers the operation is passed over.
\<close>

lemma find_first_fault_sound:
  assumes "find_first_fault fs path op r = (Some i, r')"
    and "nul_free path" "nul_free op" "\<forall>f \<in> set fs. plain_paths f"
  shows "i < length fs \<and> covers (fs ! i) path op \<and>
    (\<forall>j < i. \<not> covers (fs ! j) path op \<or> lucky (fs ! j) \<noteq> None)"
  using assms by (rule find_first_fault_covers)

theorem find_first_fault_sound_witness:
  "let fs = [Unwritable \<lparr>fprefix = ''/'', fsuffix = [], code = 5\<rparr>,
             Unreadable \<lparr>fprefix = ''/a'', fsuffix = ''.log'', code = 5\<rparr>]
   in covers (fs ! 1) ''/a/x.log'' ''read''"
proof -
  let ?fs = "[Unwritable \<lparr>fprefix = ''/'', fsuffix = [], code = 5\<rparr>,
    Unreadable \<lparr>fprefix = ''/a'', fsuffix = ''.log'', code = 5\<rparr>]"
  have "find_first_fault ?fs ''/a/x.log'' ''read'' 0 = (Some 1, 0)" by code_simp
  from find_first_fault_sound [OF this] show ?thesis by (simp add: plain_paths_def)
qed

text \<open>
  C30. Without delay faults in the list the search is the search of the specification: the
  first position whose fault covers the operation, and no random number is drawn.
\<close>

lemma find_first_fault_complete:
  assumes "nul_free path" "nul_free op" "\<forall>f \<in> set fs. plain_paths f \<and> lucky f = None"
  shows "find_first_fault fs path op r = (find (\<lambda>i. covers (fs ! i) path op) [0..<length fs], r)"
  unfolding find_first_fault_first
  by (rule kf.first_sure) (use assms in \<open>auto simp: kibosh_fault_matches_spec\<close>)

theorem find_first_fault_complete_witness:
  "find_first_fault [Unwritable \<lparr>fprefix = ''/'', fsuffix = [], code = 5\<rparr>] ''/a'' ''write'' 7 = (Some 0, 7)"
  using find_first_fault_complete [of "''/a''" "''write''" "[Unwritable \<lparr>fprefix = ''/'', fsuffix = [], code = 5\<rparr>]" 7]
  by (simp add: plain_paths_def lucky_def covers_def fault_op_def)

text \<open>
  A delay fault whose fraction is at least 1 delays every operation it covers, and one
  whose fraction is negative delays none; both draw one number when they cover it.
\<close>

lemma delay_fraction_extremes:
  assumes "nul_free path" "nul_free op" "plain_paths f" "covers f path op"
    and "lucky f = Some (Fin neg x)" "if neg then 0 < x else 1 \<le> x"
  shows "kibosh_fault_matches f path op r = (\<not> neg, snd (drand48 r))"
  using assms
  by (cases neg)
     (simp_all add: kibosh_fault_matches_spec drand.draw_le_one drand.draw_not_le_negative)

theorem delay_fraction_extremes_witness:
  "fst (kibosh_fault_matches
     (Read_delay \<lparr>fprefix = ''/'', fsuffix = [], delay_ms = 10, fraction = Fin False 1\<rparr>) ''/a'' ''read'' 3)"
  using delay_fraction_extremes [of "''/a''" "''read''"
      "Read_delay \<lparr>fprefix = ''/'', fsuffix = [], delay_ms = 10, fraction = Fin False 1\<rparr>" False 1 3]
  by (simp add: plain_paths_def covers_def fault_op_def lucky_def)

section \<open>Corruption\<close>

text \<open>
  A corruption that visits the bytes of a buffer: it keeps their number and \<open>allowed old new\<close>
  says what can become of each.
\<close>

locale byte_corruption =
  fixes corrupt :: "string \<Rightarrow> rand48 \<Rightarrow> string \<times> rand48" and allowed :: "char \<Rightarrow> char \<Rightarrow> bool"
  assumes corrupt_allowed: "list_all2 allowed bs (fst (corrupt bs r))"
begin

lemma corrupt_length: "length (fst (corrupt bs r)) = length bs"
  using list_all2_lengthD [OF corrupt_allowed, of bs r] by simp

lemma corrupt_nth: "i < length bs \<Longrightarrow> allowed (bs ! i) (fst (corrupt bs r) ! i)"
  using list_all2_nthD [OF corrupt_allowed, of i bs r] by simp

end

interpretation zero: byte_corruption "corrupt_zero fr" "\<lambda>old new. new = old \<or> new = NUL" for fr
proof
  show "list_all2 (\<lambda>old new. new = old \<or> new = NUL) bs (fst (corrupt_zero fr bs r))" for bs r
    by (induction fr bs r rule: corrupt_zero.induct) (auto simp: Let_def split: prod.splits)
qed

interpretation rand: byte_corruption "corrupt_rand fr" "\<lambda>old new. True" for fr
proof
  show "list_all2 (\<lambda>old new. True) bs (fst (corrupt_rand fr bs r))" for bs r
    by (induction bs arbitrary: r) (simp_all add: Let_def case_prod_beta)
qed

interpretation rand_seq: byte_corruption corrupt_rand_seq "\<lambda>old new. True"
proof
  show "list_all2 (\<lambda>old new. True) bs (fst (corrupt_rand_seq bs r))" for bs r
    by (induction bs r rule: corrupt_rand_seq.induct) (auto simp: Let_def split: prod.splits)
qed

lemmas corrupt_lengths = zero.corrupt_length rand.corrupt_length rand_seq.corrupt_length

lemma corrupt_zero_all: "1 \<le> x \<Longrightarrow> fst (corrupt_zero (Fin False x) bs r) = replicate (length bs) NUL"
proof (induction bs arbitrary: r)
  case (Cons b bs)
  obtain d r1 where d: "drand48 r = (d, r1)" by (cases "drand48 r")
  have "dle d (Fin False x)" using drand.draw_le_one [OF Cons.prems, of r] d by simp
  with Cons d show ?case by (auto simp: Let_def split: prod.splits) (metis fst_conv)
qed simp

lemma corrupt_zero_none: "0 < x \<Longrightarrow> fst (corrupt_zero (Fin True x) bs r) = bs"
proof (induction bs arbitrary: r)
  case (Cons b bs)
  obtain d r1 where d: "drand48 r = (d, r1)" by (cases "drand48 r")
  have "\<not> dle d (Fin True x)" using drand.draw_not_le_negative [OF Cons.prems, of r] d by simp
  with Cons d show ?case by (auto simp: Let_def split: prod.splits) (metis fst_conv)
qed simp

lemma corrupt_bytes_frame:
  assumes "corrupt_bytes bs md fr r = (bs', ret, r')" "length bs < 2 ^ 31"
  shows "length bs' = length bs \<and> ret \<le> length bs"
  using assms corrupt_lengths drand.scaled_le [of "length bs" r]
  by (auto simp: corrupt_bytes_def Let_def case_prod_beta split: if_splits prod.splits)

lemma corrupt_buffer_frame:
  assumes "corrupt_buffer buf n md fr r = (buf', ret, r')" "n \<le> length buf" "n < 2 ^ 31"
  shows "ret \<le> n \<and> length buf' = length buf \<and> drop n buf' = drop n buf"
proof -
  obtain bs ret0 r0 where c: "corrupt_bytes (take n buf) md fr r = (bs, ret0, r0)"
    by (cases "corrupt_bytes (take n buf) md fr r")
  have "length bs = n \<and> ret0 \<le> n"
    using corrupt_bytes_frame [OF c] assms(2,3) by (simp add: min_absorb2)
  with assms c show ?thesis by (auto simp: corrupt_buffer_def)
qed

text \<open>
  \<open>corrupt_buffer\<close> in every mode, known or not: the result is at most the number of bytes,
  the buffer keeps its length, and the bytes after the first \<open>n\<close> are not touched.
\<close>

lemma corrupt_buffer_bounds:
  assumes "corrupt_buffer buf n md fr r = (buf', ret, r')" "n \<le> length buf" "n < 2 ^ 31"
  shows "ret \<le> n \<and> length buf' = length buf \<and> drop n buf' = drop n buf"
  using assms by (rule corrupt_buffer_frame)

theorem corrupt_buffer_bounds_witness:
  "snd (snd (corrupt_buffer ''abcd'' 2 CORRUPT_DROP (Fin False 1) 5)) = snd (drand48 5) \<and>
   fst (snd (corrupt_buffer ''abcd'' 2 CORRUPT_DROP (Fin False 1) 5)) \<le> 2"
proof -
  obtain b t r' where c: "corrupt_buffer ''abcd'' 2 CORRUPT_DROP (Fin False 1) 5 = (b, t, r')"
    by (cases "corrupt_buffer ''abcd'' 2 CORRUPT_DROP (Fin False 1) 5")
  from corrupt_buffer_bounds [OF c] c show ?thesis
    by (auto simp: corrupt_buffer_def corrupt_bytes_def corrupt_modes Let_def split: prod.splits)
qed

text \<open>
  Zeroing at random: each of the first \<open>n\<close> bytes is kept or becomes NUL and the result is
  \<open>n\<close>; with a fraction of at least 1 all become NUL, with a negative one none does.
\<close>

lemma corrupt_buffer_zero:
  assumes "corrupt_buffer buf n CORRUPT_ZERO fr r = (buf', ret, r')" "n \<le> length buf"
  shows "ret = n \<and> (\<forall>i < n. buf' ! i = buf ! i \<or> buf' ! i = NUL) \<and>
    (\<forall>x \<ge> 1. fr = Fin False x \<longrightarrow> take n buf' = replicate n NUL) \<and>
    (\<forall>x > 0. fr = Fin True x \<longrightarrow> buf' = buf)"
proof -
  let ?bs = "fst (corrupt_zero fr (take n buf) r)"
  have b: "buf' = ?bs @ drop n buf" "ret = n"
    using assms by (auto simp: corrupt_buffer_def corrupt_bytes_def Let_def split: prod.splits)
  have l: "length ?bs = n" using assms(2) by (simp add: zero.corrupt_length)
  have "buf' ! i = buf ! i \<or> buf' ! i = NUL" if "i < n" for i
    using zero.corrupt_nth [of i "take n buf" fr r] that assms(2) l b(1) by (simp add: nth_append)
  moreover have "take n buf' = ?bs" using b l by simp
  ultimately show ?thesis
    using b l corrupt_zero_all [of _ "take n buf" r] corrupt_zero_none [of _ "take n buf" r] assms(2)
    by (auto simp: min_absorb2)
qed

theorem corrupt_buffer_zero_witness:
  "take 2 (fst (corrupt_buffer ''abc'' 2 CORRUPT_ZERO (Fin False 1) 9)) = [NUL, NUL]"
proof -
  obtain b t r' where c: "corrupt_buffer ''abc'' 2 CORRUPT_ZERO (Fin False 1) 9 = (b, t, r')"
    by (cases "corrupt_buffer ''abc'' 2 CORRUPT_ZERO (Fin False 1) 9")
  from corrupt_buffer_zero [OF c] c show ?thesis by (simp add: numeral_2_eq_2)
qed

text \<open>
  Corruption from a random position on: the bytes before some position below \<open>n\<close> are kept
  and those from there to \<open>n\<close> are NUL in mode \<open>CORRUPT_ZERO_SEQ\<close>, so at least the last of a
  non-empty buffer is corrupted; in mode \<open>CORRUPT_RAND_SEQ\<close> the bytes before it are kept too.
\<close>

lemma corrupt_buffer_seq:
  assumes "corrupt_buffer buf n md fr r = (buf', ret, r')" "0 < n" "n < 2 ^ 31" "n \<le> length buf"
    and "md = CORRUPT_ZERO_SEQ \<or> md = CORRUPT_RAND_SEQ"
  shows "ret = n \<and> (\<exists>i < n. take i buf' = take i buf \<and>
    (md = CORRUPT_ZERO_SEQ \<longrightarrow> (\<forall>j. i \<le> j \<longrightarrow> j < n \<longrightarrow> buf' ! j = NUL)))"
proof -
  define i where "i = scaled (fst (drand48 r)) n"
  have i: "i < n" using drand.scaled_less [OF assms(2,3)] by (simp add: i_def)
  have len: "length (take n buf) = n" using assms(4) by simp
  define t where "t = (if md = CORRUPT_ZERO_SEQ then replicate (n - i) NUL
    else fst (corrupt_rand_seq (drop i (take n buf)) (snd (drand48 r))))"
  have b: "buf' = take i (take n buf) @ t @ drop n buf" "ret = n"
    using assms(1,5) len i by (auto simp: corrupt_buffer_def corrupt_bytes_def Let_def i_def t_def
        corrupt_modes split: prod.splits if_splits)
  have "take i buf' = take i buf" using b i assms(4) by (simp add: min_absorb1)
  moreover have "buf' ! j = NUL" if "md = CORRUPT_ZERO_SEQ" "i \<le> j" "j < n" for j
    using that b i assms(4) diff_less_mono [OF that(3,2)] by (simp add: t_def nth_append min_absorb1)
  ultimately show ?thesis using b i by blast
qed

theorem corrupt_buffer_seq_witness:
  "\<exists>i < 2. take i (fst (corrupt_buffer ''abc'' 2 CORRUPT_ZERO_SEQ (Fin False 1) 9)) = take i ''abc''"
proof -
  obtain b t r' where c: "corrupt_buffer ''abc'' 2 CORRUPT_ZERO_SEQ (Fin False 1) 9 = (b, t, r')"
    by (cases "corrupt_buffer ''abc'' 2 CORRUPT_ZERO_SEQ (Fin False 1) 9")
  from corrupt_buffer_seq [OF c] c show ?thesis by auto
qed

text \<open>
  Dropping: the buffer is not changed and, unless it is empty, fewer bytes are reported
  than there are.
\<close>

lemma corrupt_buffer_drop:
  assumes "corrupt_buffer buf n CORRUPT_DROP fr r = (buf', ret, r')" "0 < n" "n < 2 ^ 31"
    "n \<le> length buf"
  shows "ret < n \<and> buf' = buf"
  using assms drand.scaled_less [OF assms(2,3), of r]
  by (auto simp: corrupt_buffer_def corrupt_bytes_def corrupt_modes Let_def min_absorb2
      split: prod.splits)

theorem corrupt_buffer_drop_witness:
  "fst (corrupt_buffer ''abc'' 3 CORRUPT_DROP (Fin False 1) 9) = ''abc''"
proof -
  obtain b t r' where c: "corrupt_buffer ''abc'' 3 CORRUPT_DROP (Fin False 1) 9 = (b, t, r')"
    by (cases "corrupt_buffer ''abc'' 3 CORRUPT_DROP (Fin False 1) 9")
  from corrupt_buffer_drop [OF c] c show ?thesis by simp
qed

section \<open>The countdown\<close>

lemma sint_minus_1: "0 < sint (w :: int32) \<Longrightarrow> sint (w - 1) = sint w - 1"
proof -
  assume "0 < sint w"
  have "w - 1 = word_of_int (sint w - 1)" by simp
  then show ?thesis
    using \<open>0 < sint w\<close> sint_int32_range [of w] sint_word_of_int_id [of "sint w - 1"] by simp
qed

definition dropping :: "corrupt_fault \<Rightarrow> corrupt_fault" where
  "dropping f = f\<lparr>mode := CORRUPT_DROP, count := 0, cfraction := Fin False 1\<rparr>"

text \<open>
  C21. The counter of a corruption fault: from a count of \<open>c \<ge> 0\<close> the first \<open>c\<close> operations keep
  the mode and the fraction and leave \<open>c - k\<close> after \<open>k\<close> of them; every later operation
  drops. A negative count changes nothing.
\<close>

lemma corrupt_countdown:
  "(corrupt_count ^^ k) f =
     (if sint (count f) < 0 then f
      else if int k \<le> sint (count f) then f\<lparr>count := word_of_int (sint (count f) - int k)\<rparr>
      else dropping f)"
proof (induction k)
  case (Suc k)
  let ?c = "sint (count f)"
  note rg = sint_int32_range [of "count f"]
  consider "?c < 0" | "int k < ?c" | "int k = ?c" | "0 \<le> ?c" "?c < int k" by linarith
  then show ?case
  proof cases
    case 1
    then show ?thesis using Suc by (auto simp: corrupt_count_def)
  next
    case 2
    have s: "sint (word_of_int (?c - int k) :: int32) = ?c - int k"
      using 2 rg by (intro sint_word_of_int_id) auto
    have "(word_of_int (?c - int k) :: int32) - 1 = word_of_int (?c - int (Suc k))"
      by (simp add: algebra_simps)
    with 2 Suc s show ?thesis by (auto simp: corrupt_count_def)
  qed (use Suc in \<open>auto simp: corrupt_count_def dropping_def\<close>)
qed (cases f; auto)

section \<open>Applying a fault\<close>

lemma negated_code:
  "sint (if sint c < 0 then c else - c) = - \<bar>sint (c :: int32)\<bar>"
proof (cases "sint c < 0")
  case False
  have "- c = word_of_int (- sint c)" by simp
  then show ?thesis
    using False sint_int32_range [of c] sint_word_of_int_id [of "- sint c"] by simp
qed simp

lemma corrupt_count_path [simp]:
  "fprefix (corrupt_count f) = fprefix f" "fsuffix (corrupt_count f) = fsuffix f"
  by (simp_all add: corrupt_count_def)

text \<open>What a read that returned \<open>n\<close> bytes becomes, by the kind of the fault.\<close>

definition read_outcome :: "kibosh_fault \<Rightarrow> nat \<Rightarrow> string \<Rightarrow> int \<Rightarrow> string \<Rightarrow> uint32 \<Rightarrow> bool" where
  "read_outcome f n buf ret buf' delay =
     (case f of
        Unreadable u \<Rightarrow> ret = - \<bar>sint (code u)\<bar> \<and> buf' = buf \<and> delay = 0
      | Read_delay d \<Rightarrow> ret = int n \<and> buf' = buf \<and> delay = delay_ms d
      | Read_corrupt c \<Rightarrow> 0 \<le> ret \<and> ret \<le> int n \<and> delay = 0 \<and> length buf' = length buf \<and>
                         drop n buf' = drop n buf
      | _ \<Rightarrow> ret = int n \<and> buf' = buf \<and> delay = 0)"

lemma apply_read_fault_spec:
  assumes "apply_read_fault f buf n r = (ret, buf', delay, f', r')" "n \<le> length buf" "n < 2 ^ 31"
  shows "read_outcome f n buf ret buf' delay \<and> fault_type f' = fault_type f \<and>
    fault_path_of f' = fault_path_of f"
proof (cases f)
  case (Read_corrupt c)
  obtain b k q where c: "corrupt_buffer buf n (mode (corrupt_count c)) (cfraction (corrupt_count c)) r = (b, k, q)"
    by (metis prod_cases3)
  from corrupt_buffer_frame [OF c assms(2,3)] c assms(1) Read_corrupt show ?thesis
    by (auto simp: apply_read_fault_def kibosh_fault_read_corrupt_apply_def read_outcome_def Let_def)
qed (use assms in \<open>auto simp: apply_read_fault_def read_outcome_def kibosh_fault_unreadable_apply_def
      kibosh_fault_read_delay_apply_def negated_code split: if_splits\<close>)

text \<open>
  C16. \<open>apply_read_fault\<close>: an unreadable fault gives the negated magnitude of its code, whatever
  the sign it was configured with; a delay keeps data and count; corruption never reports
  more than was read nor touches the buffer past it; other kinds do nothing. The fault
  keeps its kind and its paths.
\<close>

lemma apply_read_fault_outcome:
  assumes "apply_read_fault f buf n r = (ret, buf', delay, f', r')" "n \<le> length buf" "n < 2 ^ 31"
  shows "read_outcome f n buf ret buf' delay \<and> fault_type f' = fault_type f \<and>
    fault_path_of f' = fault_path_of f"
  using assms by (rule apply_read_fault_spec)

theorem apply_read_fault_outcome_witness:
  "fst (apply_read_fault (Unreadable \<lparr>fprefix = ''/'', fsuffix = [], code = 5\<rparr>) ''abc'' 3 1) = - 5"
proof -
  let ?f = "Unreadable \<lparr>fprefix = ''/'', fsuffix = [], code = 5\<rparr>"
  obtain ret b d f' r' where a: "apply_read_fault ?f ''abc'' 3 1 = (ret, b, d, f', r')"
    by (metis prod_cases5)
  from apply_read_fault_outcome [OF a] a show ?thesis by (simp add: read_outcome_def)
qed

definition write_fault_outcome ::
    "kibosh_fault \<Rightarrow> nat \<Rightarrow> string \<Rightarrow> mem \<Rightarrow> int \<Rightarrow> string \<Rightarrow> uint32 \<Rightarrow> bool" where
  "write_fault_outcome f n buf m ret data delay =
     (case f of
        Unwritable u \<Rightarrow> ret = - \<bar>sint (code u)\<bar> \<and> data = buf \<and> delay = 0
      | Write_delay d \<Rightarrow> ret = int n \<and> data = buf \<and> delay = delay_ms d
      | Write_corrupt c \<Rightarrow> delay = 0 \<and>
          (if mode (corrupt_count c) = CORRUPT_DROP then 0 \<le> ret \<and> ret \<le> int n \<and> data = buf
           else if \<not> fst (alloc m) then ret = - ENOMEM \<and> data = buf
           else 0 \<le> ret \<and> ret \<le> int n \<and> length data = n)
      | _ \<Rightarrow> ret = int n \<and> data = buf \<and> delay = 0)"

lemma apply_write_fault_spec:
  assumes "apply_write_fault f buf n r m = (ret, data, dyn, delay, f', r', m')"
    "n \<le> length buf" "n < 2 ^ 31"
  shows "write_fault_outcome f n buf m ret data delay \<and> fault_type f' = fault_type f \<and>
    fault_path_of f' = fault_path_of f"
proof (cases f)
  case (Write_corrupt c)
  let ?c = "corrupt_count c"
  obtain b k q where cb: "corrupt_buffer (take n buf) n (mode ?c) (cfraction ?c) r = (b, k, q)"
    by (metis prod_cases3)
  have "length b = n \<and> k \<le> n" using corrupt_buffer_frame [OF cb _ assms(3)] assms(2) by simp
  with cb assms Write_corrupt drand.scaled_le [OF assms(3), of r] show ?thesis
    by (auto simp: apply_write_fault_def kibosh_fault_write_corrupt_apply_def write_fault_outcome_def Let_def
        split: if_splits prod.splits)
qed (use assms in \<open>auto simp: apply_write_fault_def write_fault_outcome_def kibosh_fault_unwritable_apply_def
      kibosh_fault_write_delay_apply_def negated_code split: if_splits\<close>)

text \<open>
  C17. \<open>apply_write_fault\<close>: an unwritable fault gives the negated magnitude of its code, a delay
  the size; a corruption fault that is not dropping works on a copy of the data of the
  same size, and fails with \<open>-ENOMEM\<close> exactly when that copy cannot be allocated; every
  other kind, and a dropping one, leaves the data to be written as they are.
\<close>

lemma apply_write_fault_outcome:
  assumes "apply_write_fault f buf n r m = (ret, data, dyn, delay, f', r', m')"
    "n \<le> length buf" "n < 2 ^ 31"
  shows "write_fault_outcome f n buf m ret data delay \<and> fault_type f' = fault_type f \<and>
    fault_path_of f' = fault_path_of f"
  using assms by (rule apply_write_fault_spec)

theorem apply_write_fault_outcome_witness:
  "fst (apply_write_fault (Unwritable \<lparr>fprefix = ''/'', fsuffix = [], code = - 28\<rparr>) ''abc'' 3 1 []) = - 28"
proof -
  let ?f = "Unwritable \<lparr>fprefix = ''/'', fsuffix = [], code = - 28\<rparr>"
  obtain ret b y d f' r' m' where a: "apply_write_fault ?f ''abc'' 3 1 [] = (ret, b, y, d, f', r', m')"
    by (metis prod_cases7)
  from apply_write_fault_outcome [OF a] a show ?thesis by (simp add: write_fault_outcome_def)
qed

section \<open>Parsing\<close>

lemmas fault_parse_defs =
  kibosh_fault_unreadable_parse_def kibosh_fault_unwritable_parse_def
  kibosh_fault_read_delay_parse_def kibosh_fault_write_delay_parse_def
  kibosh_fault_read_corrupt_parse_def kibosh_fault_write_corrupt_parse_def

lemma kibosh_fault_base_parse_type:
  assumes "kibosh_fault_base_parse obj m = (Some f, m')"
  obtains ty where "get_child obj ''type'' = Some (JStr ty)" "cstr ty = kibosh_fault_type_name f"
  using assms
  by (auto simp: kibosh_fault_base_parse_def wrap_fault_def kibosh_fault_type_name_def strcmp_eq_def
      split: option.splits jval.splits if_splits prod.splits)

lemma parse_path_spec:
  assumes "parse_path obj m = (Some p, m')"
  shows "nul_free (fprefix p) \<and> nul_free (fsuffix p) \<and>
    (get_child obj ''prefix'' = None \<longrightarrow> fprefix p = ''/'') \<and>
    (get_child obj ''suffix'' = None \<longrightarrow> fsuffix p = [])"
  using assms
  by (auto simp: parse_path_def dup_json_str_value_def strdup_def Let_def
      split: prod.splits if_splits sum.splits option.splits jval.splits)

definition paths_from :: "jval \<Rightarrow> ('a fault_path_scheme) \<Rightarrow> bool" where
  "paths_from obj p \<longleftrightarrow> nul_free (fprefix p) \<and> nul_free (fsuffix p) \<and>
     (get_child obj ''prefix'' = None \<longrightarrow> fprefix p = ''/'') \<and>
     (get_child obj ''suffix'' = None \<longrightarrow> fsuffix p = [])"

lemma paths_from_truncate: "paths_from obj \<lparr>fprefix = fprefix f, fsuffix = fsuffix f\<rparr> = paths_from obj f"
  by (simp add: paths_from_def)

lemma kind_parse_paths:
  "kibosh_fault_unreadable_parse obj m = (Some f1, m') \<Longrightarrow> paths_from obj f1"
  "kibosh_fault_unwritable_parse obj m = (Some f2, m') \<Longrightarrow> paths_from obj f2"
  "kibosh_fault_read_delay_parse obj m = (Some f3, m') \<Longrightarrow> paths_from obj f3"
  "kibosh_fault_write_delay_parse obj m = (Some f4, m') \<Longrightarrow> paths_from obj f4"
  "kibosh_fault_read_corrupt_parse obj m = (Some f5, m') \<Longrightarrow> paths_from obj f5"
  "kibosh_fault_write_corrupt_parse obj m = (Some f6, m') \<Longrightarrow> paths_from obj f6"
  by (auto simp: fault_parse_defs paths_from_def with_code_def with_delay_def with_corrupt_def
      dest!: parse_path_spec split: option.splits prod.splits)

lemma base_parse_sound:
  assumes "kibosh_fault_base_parse obj m = (Some f, m')"
  shows "plain_paths f \<and>
    (\<exists>ty. get_child obj ''type'' = Some (JStr ty) \<and> cstr ty = kibosh_fault_type_name f) \<and>
    (get_child obj ''prefix'' = None \<longrightarrow> fprefix (fault_path_of f) = ''/'') \<and>
    (get_child obj ''suffix'' = None \<longrightarrow> fsuffix (fault_path_of f) = [])"
proof -
  from kibosh_fault_base_parse_type [OF assms] obtain ty where
    ty: "get_child obj ''type'' = Some (JStr ty)" "cstr ty = kibosh_fault_type_name f" .
  have "paths_from obj (fault_path_of f)"
    using assms ty(1)
    by (cases f) (auto simp: kibosh_fault_base_parse_def wrap_fault_def paths_from_truncate
        intro: kind_parse_paths split: if_splits prod.splits)
  with ty show ?thesis by (auto simp: plain_paths_def paths_from_def)
qed

text \<open>
  C31. A fault that was parsed is of the kind its \<open>type\<close> member names, its paths are C strings,
  and the paths that are not given default to the prefix \<open>/\<close> and the empty suffix.
\<close>

lemma kibosh_fault_base_parse_sound:
  assumes "kibosh_fault_base_parse obj m = (Some f, m')"
  shows "plain_paths f \<and>
    (\<exists>ty. get_child obj ''type'' = Some (JStr ty) \<and> cstr ty = kibosh_fault_type_name f) \<and>
    (get_child obj ''prefix'' = None \<longrightarrow> fprefix (fault_path_of f) = ''/'') \<and>
    (get_child obj ''suffix'' = None \<longrightarrow> fsuffix (fault_path_of f) = [])"
  using assms by (rule base_parse_sound)

theorem kibosh_fault_base_parse_sound_witness:
  "fst (kibosh_fault_base_parse
     (JObject [(''type'', JStr ''unreadable''), (''code'', JInt 5)]) []) =
   Some (Unreadable \<lparr>fprefix = ''/'', fsuffix = [], code = 5\<rparr>) \<and>
   plain_paths (Unreadable \<lparr>fprefix = ''/'', fsuffix = [], code = 5\<rparr>)"
proof -
  have "kibosh_fault_base_parse
     (JObject [(''type'', JStr ''unreadable''), (''code'', JInt 5)]) [] =
   (Some (Unreadable \<lparr>fprefix = ''/'', fsuffix = [], code = 5\<rparr>), [])" by code_simp
  from this kibosh_fault_base_parse_sound [OF this] show ?thesis by simp
qed

lemma dup_json_str_value_mem: "snd (dup_json_str_value v d []) = []"
  by (auto simp: dup_json_str_value_def strdup_def Let_def split: option.splits jval.splits)

lemma parse_path_mem: "snd (parse_path obj []) = []"
  using dup_json_str_value_mem
  by (auto simp: parse_path_def split: sum.splits prod.splits) (metis snd_conv)+

lemma kind_parse_mem:
  "snd (kibosh_fault_unreadable_parse obj []) = []" "snd (kibosh_fault_unwritable_parse obj []) = []"
  "snd (kibosh_fault_read_delay_parse obj []) = []" "snd (kibosh_fault_write_delay_parse obj []) = []"
  "snd (kibosh_fault_read_corrupt_parse obj []) = []" "snd (kibosh_fault_write_corrupt_parse obj []) = []"
  using parse_path_mem [of obj] by (auto simp: fault_parse_defs split: option.splits prod.splits)

lemma wrap_fault_mem: "snd (wrap_fault c r) = snd r"
  by (simp add: wrap_fault_def split: prod.splits)

lemma kibosh_fault_base_parse_mem: "snd (kibosh_fault_base_parse obj []) = []"
  by (simp add: kibosh_fault_base_parse_def wrap_fault_mem kind_parse_mem
      split: option.split jval.split)

lemma fault_array_loop_spec:
  "fault_array_loop vs [] = (those (map (\<lambda>v. fst (kibosh_fault_base_parse v [])) vs), [])"
proof (induction vs)
  case (Cons v vs)
  obtain r where "kibosh_fault_base_parse v [] = (r, [])"
    using kibosh_fault_base_parse_mem [of v] by (metis prod.collapse)
  with Cons show ?case by (cases r) (auto split: option.splits)
qed simp

text \<open>
  \<open>fault_array_parse\<close> is all or nothing: when memory suffices, the result is the list of
  the parsed elements if every element of the array parses, and \<open>-EIO\<close> otherwise; a value
  that is no array is \<open>-EIO\<close> too.
\<close>

lemma fault_array_parse_spec:
  "fault_array_parse arr [] =
     (case arr of
        JArray vs \<Rightarrow>
          (case those (map (\<lambda>v. fst (kibosh_fault_base_parse v [])) vs) of
             None \<Rightarrow> (Inl (Errno (- EIO)), []) | Some fs \<Rightarrow> (Inr fs, []))
      | _ \<Rightarrow> (Inl (Errno (- EIO)), []))"
  by (auto simp: fault_array_parse_def fault_array_loop_spec split: jval.splits option.splits)

lemma fault_array_loop_plain:
  "fault_array_loop vs m = (Some fs, m') \<Longrightarrow> \<forall>f \<in> set fs. plain_paths f"
proof (induction vs arbitrary: m fs)
  case (Cons v vs)
  then show ?case
    using base_parse_sound
    by (auto split: prod.splits option.splits)
qed simp

lemma faults_parse_paths:
  assumes "faults_parse str m = (Inr fs, m')"
  shows "\<forall>f \<in> set fs. plain_paths f"
  using assms fault_array_loop_plain
  by (auto simp: faults_parse_def faults_of_json_def fault_array_parse_def faults_calloc_def
      split: prod.splits sum.splits option.splits jval.splits if_splits)

text \<open>
  Whatever the text and the allocator do, the paths of all faults that \<open>faults_parse\<close>
  delivers are C strings, as the search for the first fault needs.
\<close>

lemma faults_parse_plain:
  assumes "faults_parse str m = (Inr fs, m')"
  shows "\<forall>f \<in> set fs. plain_paths f"
  using assms by (rule faults_parse_paths)

lemma faults_parse_example:
  \<open>faults_parse ''{"faults":[{"type":"unwritable","code":-5}]}'' [] =
    (Inr [Unwritable \<lparr>fprefix = ''/'', fsuffix = [], code = - 5\<rparr>], [])\<close>
  by code_simp

theorem faults_parse_plain_witness:
  "plain_paths (Unwritable \<lparr>fprefix = ''/'', fsuffix = [], code = - 5\<rparr>)"
  using faults_parse_plain [OF faults_parse_example] by simp

text \<open>
  When the list of faults cannot be allocated, the cleanup of \<open>fault_array_parse\<close> reads
  through the null pointer, for every array that is not empty.
\<close>

lemma fault_array_parse_oom:
  "vs \<noteq> [] \<Longrightarrow> fault_array_parse (JArray vs) [True, False] = (Inl Segv, [])"
  by (simp add: fault_array_parse_def)

theorem fault_array_parse_oom_witness: "fault_array_parse (JArray [JNull]) [True, False] = (Inl Segv, [])"
  by (rule fault_array_parse_oom) simp

end
