(* ===== verification/Conf.thy ===== *)
theory Conf
  imports Util
begin

text \<open>
  Model of \<open>conf.c\<close>: the configuration, its completion by \<open>kibosh_conf_reify\<close> and its
  printing. The table of command-line options is data for FUSE's option parser, which is
  not part of the sources. \<open>get_current_dir_name\<close> is an argument: the directory, or the
  \<open>errno\<close> it fails with.
\<close>

record kibosh_conf =
  pidfile_path :: "string option"
  log_path :: "string option"
  target_path :: "string option"
  verbose :: int32
  control_mode :: int32
  random_seed :: int64

definition kibosh_conf_alloc :: "mem \<Rightarrow> kibosh_conf option \<times> mem" where
  "kibosh_conf_alloc m =
     (case alloc m of (ok, m') \<Rightarrow>
        (if ok then Some \<lparr>pidfile_path = None, log_path = None, target_path = None,
                         verbose = 0, control_mode = 0, random_seed = 0\<rparr> else None, m'))"

definition absolute :: "string \<Rightarrow> bool" where
  "absolute p \<longleftrightarrow> (case p of c # _ \<Rightarrow> c = CHR ''/'' | [] \<Rightarrow> False)"

definition absolutize :: "int + string \<Rightarrow> string option \<Rightarrow> mem \<Rightarrow> (int + string option) \<times> mem" where
  "absolutize cwd path m =
     (case path of
        None \<Rightarrow> (Inr None, m)
      | Some p \<Rightarrow>
          if absolute p then (Inr (Some p), m)
          else (case cwd of
                  Inl e \<Rightarrow> (Inl (- e), m)
                | Inr dir \<Rightarrow>
                    (case dynprintf (dir @ ''/'' @ p) m of
                       (None, m') \<Rightarrow> (Inl (- ENOMEM), m')
                     | (Some r, m') \<Rightarrow> (Inr (Some r), m'))))"

text \<open>
  \<open>kibosh_conf_reify\<close>: the result and the configuration, which is changed as far as it got.
\<close>

definition kibosh_conf_reify :: "int + string \<Rightarrow> kibosh_conf \<Rightarrow> mem \<Rightarrow> int \<times> kibosh_conf \<times> mem" where
  "kibosh_conf_reify cwd conf m =
     (case absolutize cwd (pidfile_path conf) m of
        (Inl ret, m1) \<Rightarrow> (ret, conf, m1)
      | (Inr p, m1) \<Rightarrow>
          let conf1 = conf\<lparr>pidfile_path := p\<rparr> in
          (case absolutize cwd (log_path conf1) m1 of
             (Inl ret, m2) \<Rightarrow> (ret, conf1, m2)
           | (Inr l, m2) \<Rightarrow>
               let conf2 = conf1\<lparr>log_path := l\<rparr> in
               (case absolutize cwd (target_path conf2) m2 of
                  (Inl ret, m3) \<Rightarrow> (ret, conf2, m3)
                | (Inr t, m3) \<Rightarrow>
                    let conf3 = conf2\<lparr>target_path := t\<rparr> in
                    if t = None then (- EINVAL, conf3, m3) else (0, conf3, m3))))"

text \<open>The conversion \<open>%03o\<close> and the printing of an optional string.\<close>

function oct :: "nat \<Rightarrow> string" where
  "oct n = (if n < 8 then [digit_char n] else oct (n div 8) @ [digit_char (n mod 8)])"
  by pat_completeness auto
termination
  by (relation "measure id") auto

declare oct.simps [simp del]

definition fmt_03o :: "int32 \<Rightarrow> string" where
  "fmt_03o v = (let s = oct (unat v) in replicate (3 - length s) (CHR ''0'') @ s)"

definition str_params :: "string option \<Rightarrow> string" where
  "str_params s = (case s of None \<Rightarrow> ''null'' | Some p \<Rightarrow> CHR 0x22 # p @ [CHR 0x22])"

definition kibosh_conf_to_str :: "kibosh_conf \<Rightarrow> mem \<Rightarrow> string option \<times> mem" where
  "kibosh_conf_to_str conf m =
     dynprintf (''{pidfile_path='' @ str_params (pidfile_path conf) @
                '', log_path='' @ str_params (log_path conf) @
                '', target_path='' @ str_params (target_path conf) @
                '', control_mode=0'' @ fmt_03o (control_mode conf) @
                '', random_seed='' @ fmt_d (sint (random_seed conf)) @
                '', verbose='' @ fmt_d (sint (verbose conf)) @ ''}'') m"

section \<open>Completion\<close>

lemma absolutize_absolute:
  assumes "absolutize cwd path m = (Inr r, m')" "\<And>dir. cwd = Inr dir \<Longrightarrow> absolute dir"
  shows "(r = None \<longleftrightarrow> path = None) \<and> (\<forall>p. r = Some p \<longrightarrow> absolute p)"
  using assms
  by (auto simp: absolutize_def dynprintf_def Let_def absolute_def
      split: option.splits if_splits sum.splits prod.splits list.splits)

lemma absolutize_id: "pred_option absolute path \<Longrightarrow> absolutize cwd path m = (Inr path, m)"
  by (auto simp: absolutize_def split: option.splits)

lemma absolutize_ok:
  "absolutize (Inr dir) path [] =
     (Inr (map_option (\<lambda>p. if absolute p then p else dir @ ''/'' @ p) path), [])"
  by (auto simp: absolutize_def dynprintf_def split: option.splits)

section \<open>The properties\<close>

lemma reify_complete:
  assumes "kibosh_conf_reify cwd conf m = (ret, conf', m')" "\<not> ret < 0"
    and "\<And>dir. cwd = Inr dir \<Longrightarrow> absolute dir" and "\<And>e. cwd = Inl e \<Longrightarrow> e > 0"
  shows "(\<exists>t. target_path conf' = Some t \<and> absolute t) \<and>
    (\<forall>p. pidfile_path conf' = Some p \<longrightarrow> absolute p) \<and> (\<forall>p. log_path conf' = Some p \<longrightarrow> absolute p) \<and>
    (pidfile_path conf' = None \<longleftrightarrow> pidfile_path conf = None) \<and> (log_path conf' = None \<longleftrightarrow> log_path conf = None)"
proof -
  have neg: "ret < 0" if "absolutize cwd p m1 = (Inl ret, m2)" for ret p m1 m2
    using that assms(4)
    by (auto simp: absolutize_def ENOMEM_def dynprintf_def Let_def
        split: option.splits if_splits sum.splits prod.splits)
  note a = absolutize_absolute [OF _ assms(3)]
  from assms(1,2) show ?thesis
    by (auto simp: kibosh_conf_reify_def Let_def EINVAL_def
        split: prod.splits sum.splits if_splits dest!: a dest: neg)
qed

lemma reify_members:
  "kibosh_conf_reify cwd conf m = (ret, conf', m') \<Longrightarrow>
   control_mode conf' = control_mode conf \<and> random_seed conf' = random_seed conf \<and> verbose conf' = verbose conf"
  by (auto simp: kibosh_conf_reify_def Let_def split: prod.splits sum.splits if_splits)

text \<open>
  A configuration that \<open>kibosh_conf_reify\<close> accepts has a target path, and every path it
  has is absolute; paths that were not given stay absent.
\<close>

lemma kibosh_conf_reify_sound:
  assumes "kibosh_conf_reify cwd conf m = (0, conf', m')"
    and "\<And>dir. cwd = Inr dir \<Longrightarrow> absolute dir" and "\<And>e. cwd = Inl e \<Longrightarrow> e > 0"
  shows "(\<exists>t. target_path conf' = Some t \<and> absolute t) \<and>
    (\<forall>p. pidfile_path conf' = Some p \<longrightarrow> absolute p) \<and> (\<forall>p. log_path conf' = Some p \<longrightarrow> absolute p) \<and>
    (pidfile_path conf' = None \<longleftrightarrow> pidfile_path conf = None) \<and> (log_path conf' = None \<longleftrightarrow> log_path conf = None)"
  using reify_complete [OF assms(1) _ assms(2,3)] by simp

definition sample_conf :: kibosh_conf where
  "sample_conf = \<lparr>pidfile_path = Some ''pid'', log_path = None, target_path = Some ''/t'',
     verbose = 0, control_mode = 384, random_seed = 1\<rparr>"

theorem kibosh_conf_reify_sound_witness:
  "absolute (the (target_path (fst (snd (kibosh_conf_reify (Inr ''/home'') sample_conf [])))))"
proof -
  have "fst (kibosh_conf_reify (Inr ''/home'') sample_conf []) = 0" by code_simp
  then obtain c m where k: "kibosh_conf_reify (Inr ''/home'') sample_conf [] = (0, c, m)"
    by (metis prod.collapse)
  from kibosh_conf_reify_sound [OF k] k show ?thesis by (auto simp: absolute_def)
qed

text \<open>
  Completing a complete configuration changes nothing and needs neither memory nor the
  current directory.
\<close>

lemma kibosh_conf_reify_idem:
  assumes "target_path conf \<noteq> None"
    "pred_option absolute (pidfile_path conf)" "pred_option absolute (log_path conf)"
    "pred_option absolute (target_path conf)"
  shows "kibosh_conf_reify cwd conf m = (0, conf, m)"
  using assms by (auto simp: kibosh_conf_reify_def absolutize_id)

theorem kibosh_conf_reify_idem_witness:
  "kibosh_conf_reify (Inl 2) (sample_conf\<lparr>pidfile_path := None\<rparr>) [False] =
     (0, sample_conf\<lparr>pidfile_path := None\<rparr>, [False])"
  by (rule kibosh_conf_reify_idem) (auto simp: sample_conf_def absolute_def)

end
