(* ===== verification/Posix.thy ===== *)
theory Posix
  imports Kibosh_Prelude
begin

text \<open>
  The part of the operating system that the sources use on files: descriptors, open file
  descriptions with an offset, regular files, and a flat name space. The calls follow POSIX
  for regular files. What POSIX leaves open is decided by a schedule: each call takes the
  next outcome from it, which lets the call complete, transfer fewer bytes than asked for
  (at least one), or fail with an \<open>errno\<close>. When the schedule is used up, calls complete.
  A terminating run of the program makes finitely many calls, so each of its interactions
  with the kernel is one of these.

  A call returns \<open>Inl e\<close> when it returns \<open>-1\<close> with \<open>errno = e\<close>.
\<close>

text \<open>\<open>fcntl(fd, F_GETFL)\<close> reads the flags; it is modelled by \<open>d_flags\<close>.\<close>

definition ENOENT :: int where "ENOENT = 2"
definition EBADF :: int where "EBADF = 9"
definition EEXIST :: int where "EEXIST = 17"

datatype outcome = Complete | Short nat | Error int

record fdesc =
  d_inode :: nat
  d_off :: nat
  d_flags :: int32

record posix =
  inodes :: "string list"
  names :: "(string \<times> nat) list"
  fds :: "fdesc option list"
  sched :: "outcome list"

type_synonym 'a sys = "posix \<Rightarrow> (int + 'a) \<times> posix"

section \<open>Outcomes and descriptors\<close>

fun next_outcome :: "posix \<Rightarrow> outcome \<times> posix" where
  "next_outcome w = (case sched w of [] \<Rightarrow> (Complete, w) | x # xs \<Rightarrow> (x, w\<lparr>sched := xs\<rparr>))"

declare next_outcome.simps [simp del]

definition fd_lookup :: "nat \<Rightarrow> posix \<Rightarrow> fdesc option" where
  "fd_lookup fd w = (if fd < length (fds w) then fds w ! fd else None)"

definition content :: "posix \<Rightarrow> nat \<Rightarrow> string" where
  "content w i = (if i < length (inodes w) then inodes w ! i else [])"

text \<open>The bytes a descriptor refers to.\<close>

definition fd_content :: "posix \<Rightarrow> nat \<Rightarrow> string" where
  "fd_content w fd = (case fd_lookup fd w of None \<Rightarrow> [] | Some d \<Rightarrow> content w (d_inode d))"

text \<open>The lowest unused descriptor.\<close>

fun free_slot :: "'a option list \<Rightarrow> nat" where
  "free_slot [] = 0"
| "free_slot (None # xs) = 0"
| "free_slot (Some x # xs) = Suc (free_slot xs)"

definition set_slot :: "'a option list \<Rightarrow> nat \<Rightarrow> 'a \<Rightarrow> 'a option list" where
  "set_slot xs i x = (if i < length xs then xs[i := Some x] else xs @ [Some x])"

definition set_fd :: "nat \<Rightarrow> fdesc \<Rightarrow> posix \<Rightarrow> posix" where
  "set_fd fd d w = w\<lparr>fds := (fds w)[fd := Some d]\<rparr>"

definition install_fd :: "nat \<Rightarrow> int32 \<Rightarrow> posix \<Rightarrow> nat \<times> posix" where
  "install_fd i fl w =
     (let fd = free_slot (fds w) in
      (fd, w\<lparr>fds := set_slot (fds w) fd \<lparr>d_inode = i, d_off = 0, d_flags = fl\<rparr>\<rparr>))"

definition new_inode :: "posix \<Rightarrow> nat \<times> posix" where
  "new_inode w = (length (inodes w), w\<lparr>inodes := inodes w @ [[]]\<rparr>)"

text \<open>Writing \<open>data\<close> at an offset; a gap is filled with NUL bytes.\<close>

definition splice :: "string \<Rightarrow> nat \<Rightarrow> string \<Rightarrow> string" where
  "splice old off data =
     take off old @ replicate (off - length old) NUL @ data @ drop (off + length data) old"

section \<open>The calls\<close>

definition amount :: "outcome \<Rightarrow> nat \<Rightarrow> nat" where
  "amount x n = (case x of Short k \<Rightarrow> min n (Suc k) | _ \<Rightarrow> n)"

definition sys_read :: "nat \<Rightarrow> nat \<Rightarrow> string sys" where
  "sys_read fd n w =
     (case fd_lookup fd w of
        None \<Rightarrow> (Inl EBADF, w)
      | Some d \<Rightarrow>
          (case next_outcome w of
             (Error e, w') \<Rightarrow> (Inl e, w')
           | (x, w') \<Rightarrow>
               let data = take (amount x n) (drop (d_off d) (content w (d_inode d)))
               in (Inr data, set_fd fd (d\<lparr>d_off := d_off d + length data\<rparr>) w')))"

definition sys_write :: "nat \<Rightarrow> string \<Rightarrow> nat sys" where
  "sys_write fd data w =
     (case fd_lookup fd w of
        None \<Rightarrow> (Inl EBADF, w)
      | Some d \<Rightarrow>
          (case next_outcome w of
             (Error e, w') \<Rightarrow> (Inl e, w')
           | (x, w') \<Rightarrow>
               let out = take (amount x (length data)) data
               in (Inr (length out),
                   set_fd fd (d\<lparr>d_off := d_off d + length out\<rparr>)
                     (w'\<lparr>inodes := (inodes w')[d_inode d := splice (content w' (d_inode d)) (d_off d) out]\<rparr>))))"

definition sys_pread :: "nat \<Rightarrow> nat \<Rightarrow> nat \<Rightarrow> string sys" where
  "sys_pread fd n off w =
     (case fd_lookup fd w of
        None \<Rightarrow> (Inl EBADF, w)
      | Some d \<Rightarrow>
          (case next_outcome w of
             (Error e, w') \<Rightarrow> (Inl e, w')
           | (x, w') \<Rightarrow> (Inr (take (amount x n) (drop off (content w (d_inode d)))), w')))"

definition sys_pwrite :: "nat \<Rightarrow> string \<Rightarrow> nat \<Rightarrow> nat sys" where
  "sys_pwrite fd data off w =
     (case fd_lookup fd w of
        None \<Rightarrow> (Inl EBADF, w)
      | Some d \<Rightarrow>
          (case next_outcome w of
             (Error e, w') \<Rightarrow> (Inl e, w')
           | (x, w') \<Rightarrow>
               let out = take (amount x (length data)) data
               in (Inr (length out),
                   w'\<lparr>inodes := (inodes w')[d_inode d := splice (content w' (d_inode d)) off out]\<rparr>)))"

text \<open>\<open>lseek(fd, 0, SEEK_SET)\<close>.\<close>

definition sys_rewind :: "nat \<Rightarrow> unit sys" where
  "sys_rewind fd w =
     (case fd_lookup fd w of
        None \<Rightarrow> (Inl EBADF, w)
      | Some d \<Rightarrow>
          (case next_outcome w of
             (Error e, w') \<Rightarrow> (Inl e, w')
           | (_, w') \<Rightarrow> (Inr (), set_fd fd (d\<lparr>d_off := 0\<rparr>) w')))"

text \<open>\<open>close\<close> releases the descriptor even when it reports an error, as on Linux.\<close>

definition sys_close :: "nat \<Rightarrow> unit sys" where
  "sys_close fd w =
     (case fd_lookup fd w of
        None \<Rightarrow> (Inl EBADF, w)
      | Some d \<Rightarrow>
          (case next_outcome w of
             (Error e, w') \<Rightarrow> (Inl e, w'\<lparr>fds := (fds w')[fd := None]\<rparr>)
           | (_, w') \<Rightarrow> (Inr (), w'\<lparr>fds := (fds w')[fd := None]\<rparr>)))"

text \<open>\<open>fstat\<close>, of which only the size is kept.\<close>

definition sys_fstat :: "nat \<Rightarrow> nat sys" where
  "sys_fstat fd w =
     (case fd_lookup fd w of
        None \<Rightarrow> (Inl EBADF, w)
      | Some d \<Rightarrow>
          (case next_outcome w of
             (Error e, w') \<Rightarrow> (Inl e, w')
           | (_, w') \<Rightarrow> (Inr (length (content w' (d_inode d))), w')))"

text \<open>\<open>ftruncate(fd, len)\<close>: cut, or extended with NUL bytes.\<close>

definition sys_ftruncate :: "nat \<Rightarrow> nat \<Rightarrow> unit sys" where
  "sys_ftruncate fd len w =
     (case fd_lookup fd w of
        None \<Rightarrow> (Inl EBADF, w)
      | Some d \<Rightarrow>
          (case next_outcome w of
             (Error e, w') \<Rightarrow> (Inl e, w')
           | (_, w') \<Rightarrow>
               (Inr (), w'\<lparr>inodes := (inodes w')[d_inode d :=
                  take len (content w' (d_inode d)) @ replicate (len - length (content w' (d_inode d))) NUL]\<rparr>)))"

text \<open>
  A call of which only the outcome is kept: \<open>access\<close>, \<open>fchown\<close>, \<open>pthread_mutex_init\<close>.
\<close>

definition sys_status :: "unit sys" where
  "sys_status w = (case next_outcome w of (Error e, w') \<Rightarrow> (Inl e, w') | (_, w') \<Rightarrow> (Inr (), w'))"

text \<open>\<open>fsync\<close> and \<open>fdatasync\<close>.\<close>

definition sys_fsync :: "nat \<Rightarrow> unit sys" where
  "sys_fsync fd w = (case fd_lookup fd w of None \<Rightarrow> (Inl EBADF, w) | Some _ \<Rightarrow> sys_status w)"

definition sys_unlink :: "string \<Rightarrow> unit sys" where
  "sys_unlink path w =
     (case next_outcome w of
        (Error e, w') \<Rightarrow> (Inl e, w')
      | (_, w') \<Rightarrow>
          if map_of (names w') path = None then (Inl ENOENT, w')
          else (Inr (), w'\<lparr>names := filter (\<lambda>(p, i). p \<noteq> path) (names w')\<rparr>))"

definition O_ACCMODE :: int32 where "O_ACCMODE = 3"
definition O_RDONLY :: int32 where "O_RDONLY = 0"
definition O_WRONLY :: int32 where "O_WRONLY = 1"
definition O_RDWR :: int32 where "O_RDWR = 2"
definition O_CREAT :: int32 where "O_CREAT = 0x40"
definition O_TRUNC :: int32 where "O_TRUNC = 0x200"

lemmas open_flag_defs = O_ACCMODE_def O_RDONLY_def O_WRONLY_def O_RDWR_def O_CREAT_def O_TRUNC_def

text \<open>\<open>open(path, flags, mode)\<close>; permissions are not modelled, a refusal is an outcome.\<close>

definition sys_open :: "string \<Rightarrow> int32 \<Rightarrow> nat sys" where
  "sys_open path fl w =
     (case next_outcome w of
        (Error e, w') \<Rightarrow> (Inl e, w')
      | (_, w') \<Rightarrow>
          (case map_of (names w') path of
             Some i \<Rightarrow>
               let w2 = (if and fl O_TRUNC \<noteq> 0 then w'\<lparr>inodes := (inodes w')[i := []]\<rparr> else w');
                   (fd, w3) = install_fd i fl w2
               in (Inr fd, w3)
           | None \<Rightarrow>
               if and fl O_CREAT = 0 then (Inl ENOENT, w')
               else let (i, w2) = new_inode w';
                        w3 = w2\<lparr>names := (path, i) # names w2\<rparr>;
                        (fd, w4) = install_fd i fl w3
                    in (Inr fd, w4)))"

text \<open>
  \<open>memfd_create\<close> of \<open>util.c\<close>: an anonymous file open for reading and writing, then
  \<open>fchmod\<close>; when that fails the descriptor is closed again. The result is the descriptor
  or the negated \<open>errno\<close>.
\<close>

definition memfd_create :: "posix \<Rightarrow> (int + nat) \<times> posix" where
  "memfd_create w =
     (case next_outcome w of
        (Error e, w') \<Rightarrow> (Inl (- e), w')
      | (_, w') \<Rightarrow>
          let (i, w1) = new_inode w'; (fd, w2) = install_fd i O_RDWR w1
          in (case next_outcome w2 of
                (Error e, w3) \<Rightarrow> (case sys_close fd w3 of (_, w4) \<Rightarrow> (Inl (- e), w4))
              | (_, w3) \<Rightarrow> (Inr fd, w3)))"

section \<open>Laws of the calls\<close>

lemma next_outcome_sched:
  "next_outcome w = (x, w') \<Longrightarrow>
   inodes w' = inodes w \<and> names w' = names w \<and> fds w' = fds w \<and>
   length (sched w') \<le> length (sched w) \<and>
   (\<forall>e. x = Error e \<longrightarrow> length (sched w') < length (sched w))"
  by (auto simp: next_outcome.simps split: list.splits)

lemma next_outcome_frame:
  assumes "next_outcome w = (x, w')"
  shows "inodes w' = inodes w" "names w' = names w" "fds w' = fds w"
    "fd_lookup fd w' = fd_lookup fd w" "content w' i = content w i"
  using next_outcome_sched [OF assms] by (simp_all add: fd_lookup_def content_def)

lemma next_outcome_idle: "sched w = [] \<Longrightarrow> next_outcome w = (Complete, w)"
  by (simp add: next_outcome.simps)

lemma amount_le: "amount x n \<le> n"
  by (cases x) (auto simp: amount_def)

lemma min_amount_le [simp]: "min k (amount x n) \<le> n" "min (amount x n) k \<le> n"
  using amount_le [of x n] by (auto simp: min_def)

lemma amount_pos: "0 < n \<Longrightarrow> 0 < amount x n"
  by (cases x) (auto simp: amount_def)

lemma length_splice:
  "off \<le> length old \<Longrightarrow> length (splice old off data) = max (length old) (off + length data)"
  by (simp add: splice_def max_def)

lemma splice_append: "splice old (length old) data = old @ data"
  by (simp add: splice_def)

lemma splice_Nil: "off \<le> length old \<Longrightarrow> splice old off [] = old"
  by (simp add: splice_def)

text \<open>Two adjacent writes are one write.\<close>

lemma splice_splice:
  "off \<le> length old \<Longrightarrow>
   splice (splice old off a) (off + length a) b = splice old off (a @ b)"
  by (simp add: splice_def ac_simps)

lemma free_slot_le: "free_slot xs \<le> length xs"
  by (induction xs rule: free_slot.induct) auto

lemma free_slot_None: "free_slot xs < length xs \<Longrightarrow> xs ! free_slot xs = None"
  by (induction xs rule: free_slot.induct) auto

lemma set_slot_nth:
  "i \<le> length xs \<Longrightarrow> j < length (set_slot xs i x) \<Longrightarrow>
   set_slot xs i x ! j = (if j = i then Some x else xs ! j)"
  by (auto simp: set_slot_def nth_append)

lemma length_set_slot: "i \<le> length xs \<Longrightarrow> length (set_slot xs i x) = max (length xs) (Suc i)"
  by (auto simp: set_slot_def)

section \<open>Well-formed states\<close>

text \<open>Names and descriptors refer to files that exist.\<close>

definition posix_ok :: "posix \<Rightarrow> bool" where
  "posix_ok w \<longleftrightarrow>
     (\<forall>(p, i) \<in> set (names w). i < length (inodes w)) \<and>
     (\<forall>d. Some d \<in> set (fds w) \<longrightarrow> d_inode d < length (inodes w))"

text \<open>No call fails; transfers may still be partial.\<close>

definition smooth :: "posix \<Rightarrow> bool" where
  "smooth w \<longleftrightarrow> (\<forall>x \<in> set (sched w). \<forall>e. x \<noteq> Error e)"

lemma next_outcome_smooth:
  "next_outcome w = (x, w') \<Longrightarrow> smooth w \<Longrightarrow> smooth w' \<and> (\<forall>e. x \<noteq> Error e)"
  by (auto simp: next_outcome.simps smooth_def split: list.splits)

lemma fd_lookup_in: "fd_lookup fd w = Some d \<Longrightarrow> Some d \<in> set (fds w)"
  by (auto simp: fd_lookup_def in_set_conv_nth split: if_splits)

lemma posix_ok_fd: "posix_ok w \<Longrightarrow> fd_lookup fd w = Some d \<Longrightarrow> d_inode d < length (inodes w)"
  using fd_lookup_in by (auto simp: posix_ok_def)

lemma posix_ok_name: "posix_ok w \<Longrightarrow> map_of (names w) p = Some i \<Longrightarrow> i < length (inodes w)"
  by (auto simp: posix_ok_def dest!: map_of_SomeD)

lemma install_fd_lookup:
  assumes "install_fd i fl w = (fd, w')"
  shows "fd_lookup fd w' = Some \<lparr>d_inode = i, d_off = 0, d_flags = fl\<rparr>"
    "fd' \<noteq> fd \<Longrightarrow> fd_lookup fd' w' = fd_lookup fd' w"
    "fd_lookup fd w = None" "inodes w' = inodes w" "names w' = names w" "sched w' = sched w"
  using assms free_slot_le [of "fds w"] free_slot_None [of "fds w"]
  by (auto simp: install_fd_def Let_def fd_lookup_def length_set_slot set_slot_nth)

lemma set_set_slot: "set (set_slot xs i x) \<subseteq> insert (Some x) (set xs)"
  by (auto simp: set_slot_def dest: set_update_subset_insert [THEN subsetD])

lemma install_fd_ok:
  "install_fd i fl w = (fd, w') \<Longrightarrow> posix_ok w \<Longrightarrow> i < length (inodes w) \<Longrightarrow> posix_ok w'"
  using set_set_slot [of "fds w" "free_slot (fds w)"]
  by (fastforce simp: install_fd_def Let_def posix_ok_def)

lemma new_inode_ok: "new_inode w = (i, w') \<Longrightarrow> posix_ok w \<Longrightarrow> posix_ok w' \<and> i < length (inodes w')"
  by (fastforce simp: new_inode_def posix_ok_def)

end
