(* ===== verification/Io.thy ===== *)
theory Io
  imports Posix
begin

text \<open>
  Model of \<open>io.c\<close>: the transfers that repeat interrupted and partial system calls. Shown
  is that they terminate, that a successful \<open>safe_read\<close> returns the next bytes of the file
  and a successful \<open>safe_write\<close> appends all of its data however the kernel splits the
  transfer, and that an error is returned with its negated code. \<open>duplicate_fd\<close> reads until
  the end of its source, which never comes when it copies a file into itself, so it may
  fail to return.
\<close>

named_theorems io_simps "the calls on an open descriptor"

section \<open>The functions\<close>

text \<open>What a call can do to the schedule, for the termination of the loops.\<close>

lemma sys_read_sched:
  "sys_read fd n w = (r, w') \<Longrightarrow>
   length (sched w') \<le> length (sched w) \<and>
   (r = Inl EINTR \<longrightarrow> length (sched w') < length (sched w)) \<and>
   (\<forall>data. r = Inr data \<longrightarrow> length data \<le> n)"
  by (auto simp: sys_read_def Let_def set_fd_def errno_defs EBADF_def
      split: option.splits prod.splits outcome.splits
      dest!: next_outcome_sched)

lemma sys_write_sched:
  "sys_write fd data w = (r, w') \<Longrightarrow>
   length (sched w') \<le> length (sched w) \<and>
   (r = Inl EINTR \<longrightarrow> length (sched w') < length (sched w)) \<and>
   (\<forall>n. r = Inr n \<longrightarrow> data \<noteq> [] \<longrightarrow> 0 < n \<and> n \<le> length data)"
  by (auto simp: sys_write_def Let_def set_fd_def errno_defs EBADF_def
      split: option.splits prod.splits outcome.splits
      dest!: next_outcome_sched simp: amount_pos)

text \<open>\<open>safe_read(fd, b, c)\<close>, with the bytes read so far; the result is the whole of them.\<close>

function safe_read_loop :: "nat \<Rightarrow> nat \<Rightarrow> string \<Rightarrow> posix \<Rightarrow> (int + string) \<times> posix" where
  "safe_read_loop fd c acc w =
     (if length acc < c then
        (case sys_read fd (c - length acc) w of
           (Inl e, w') \<Rightarrow> if e \<noteq> EINTR then (Inl (- e), w') else safe_read_loop fd c acc w'
         | (Inr data, w') \<Rightarrow>
             if data = [] then (Inr acc, w') else safe_read_loop fd c (acc @ data) w')
      else (Inr acc, w))"
  by pat_completeness auto
termination
  by (relation "measure (\<lambda>(fd, c, acc, w). (c - length acc) + length (sched w))")
     (auto dest!: sys_read_sched [OF sym] simp flip: length_greater_0_conv)

declare safe_read_loop.simps [simp del]

definition safe_read :: "nat \<Rightarrow> nat \<Rightarrow> posix \<Rightarrow> (int + string) \<times> posix" where
  "safe_read fd c w = safe_read_loop fd c [] w"

text \<open>\<open>safe_write(fd, b, c)\<close> of the \<open>c\<close> bytes at \<open>b\<close>: 0, or the negated error code.\<close>

function safe_write :: "nat \<Rightarrow> string \<Rightarrow> posix \<Rightarrow> int \<times> posix" where
  "safe_write fd b w =
     (if b \<noteq> [] then
        (case sys_write fd b w of
           (Inl e, w') \<Rightarrow> if e \<noteq> EINTR then (- e, w') else safe_write fd b w'
         | (Inr n, w') \<Rightarrow> safe_write fd (drop n b) w')
      else (0, w))"
  by pat_completeness auto
termination
  by (relation "measure (\<lambda>(fd, b, w). length b + length (sched w))")
     (auto dest!: sys_write_sched [OF sym])

declare safe_write.simps [simp del]

definition write_string_to_file :: "string \<Rightarrow> string \<Rightarrow> posix \<Rightarrow> int \<times> posix" where
  "write_string_to_file path str w =
     (case sys_open path (or O_WRONLY (or O_CREAT O_TRUNC)) w of
        (Inl e, w1) \<Rightarrow> (- e, w1)
      | (Inr fd, w1) \<Rightarrow>
          (case safe_write fd str w1 of (ret, w2) \<Rightarrow>
             if ret < 0 then (case sys_close fd w2 of (_, w3) \<Rightarrow> (ret, w3))
             else (case sys_close fd w2 of (Inl e, w3) \<Rightarrow> (- e, w3) | (Inr _, w3) \<Rightarrow> (0, w3))))"

text \<open>
  \<open>read_string_from_fd(fd, buf, buf_len)\<close>: at most \<open>buf_len - 1\<close> bytes and a NUL; the bytes
  before the NUL are what the buffer holds as a string.
\<close>

definition read_string_from_fd :: "nat \<Rightarrow> nat \<Rightarrow> posix \<Rightarrow> (int + string) \<times> posix" where
  "read_string_from_fd fd buf_len w = safe_read fd (buf_len - 1) w"

definition read_string_from_file :: "string \<Rightarrow> nat \<Rightarrow> posix \<Rightarrow> (int + string) \<times> posix" where
  "read_string_from_file path buf_len w =
     (case sys_open path O_RDONLY w of
        (Inl e, w1) \<Rightarrow> (Inl (- e), w1)
      | (Inr fd, w1) \<Rightarrow>
          (case read_string_from_fd fd buf_len w1 of
             (Inl e, w2) \<Rightarrow> (case sys_close fd w2 of (_, w3) \<Rightarrow> (Inl e, w3))
           | (Inr str, w2) \<Rightarrow>
               (case sys_close fd w2 of (Inl e, w3) \<Rightarrow> (Inl (- e), w3) | (Inr _, w3) \<Rightarrow> (Inr str, w3))))"

text \<open>\<open>duplicate_fd\<close> copies in pieces of 128 bytes until the source is at its end.\<close>

partial_function (option) duplicate_fd :: "nat \<Rightarrow> nat \<Rightarrow> posix \<Rightarrow> (int \<times> posix) option" where
  "duplicate_fd dest src w =
     (case safe_read src 128 w of
        (Inl e, w1) \<Rightarrow> Some (e, w1)
      | (Inr data, w1) \<Rightarrow>
          if data = [] then Some (0, w1)
          else (case safe_write dest data w1 of (ret, w2) \<Rightarrow>
                  if ret < 0 then Some (ret, w2) else duplicate_fd dest src w2))"

section \<open>Reading\<close>

text \<open>The bytes a descriptor has still to deliver.\<close>

definition unread :: "posix \<Rightarrow> nat \<Rightarrow> string" where
  "unread w fd =
     (case fd_lookup fd w of None \<Rightarrow> [] | Some d \<Rightarrow> drop (d_off d) (content w (d_inode d)))"

lemma fd_lookup_set_fd:
  "fd_lookup fd w = Some d0 \<Longrightarrow>
   fd_lookup fd' (set_fd fd d w) = (if fd' = fd then Some d else fd_lookup fd' w)"
  by (auto simp: fd_lookup_def set_fd_def split: if_splits)

lemma content_set_fd [simp]: "content (set_fd fd d w) i = content w i"
  by (simp add: content_def set_fd_def)

lemma sched_set_fd [simp]: "sched (set_fd fd d w) = sched w"
  by (simp add: set_fd_def)

lemma same_files:
  "inodes w' = inodes w \<Longrightarrow> fds w' = fds w \<Longrightarrow>
   content w' i = content w i \<and> fd_lookup fd w' = fd_lookup fd w"
  by (simp add: content_def fd_lookup_def)

text \<open>
  One \<open>read\<close>: the data are the next unread bytes, no file changes, other descriptors keep
  their offsets, and an empty result means the end of the file.
\<close>

lemma sys_read_spec:
  assumes "sys_read fd n w = (Inr data, w')"
  shows "unread w fd = data @ unread w' fd" "inodes w' = inodes w" "names w' = names w"
    "fd' \<noteq> fd \<Longrightarrow> fd_lookup fd' w' = fd_lookup fd' w"
    "data = [] \<Longrightarrow> 0 < n \<Longrightarrow> unread w fd = []"
    "length data \<le> n" "sched w = [] \<Longrightarrow> data = take n (unread w fd)"
proof -
  obtain d x w1 where d: "fd_lookup fd w = Some d" and x: "next_outcome w = (x, w1)"
    and data: "data = take (amount x n) (drop (d_off d) (content w (d_inode d)))"
    and w': "w' = set_fd fd (d\<lparr>d_off := d_off d + length data\<rparr>) w1"
    using assms by (auto simp: sys_read_def Let_def split: option.splits prod.splits outcome.splits)
  note o = next_outcome_frame [OF x]
  have l: "fd_lookup fd w1 = Some d" using o d by simp
  have "unread w' fd = drop (length data) (unread w fd)"
    using d o by (simp add: unread_def w' fd_lookup_set_fd [OF l] add.commute)
  moreover have "data = take (length data) (unread w fd)"
    by (simp only: data unread_def d option.case take_length_take)
  ultimately show "unread w fd = data @ unread w' fd" by (metis append_take_drop_id)
  show "inodes w' = inodes w" "names w' = names w" using o by (simp_all add: w' set_fd_def)
  show "fd' \<noteq> fd \<Longrightarrow> fd_lookup fd' w' = fd_lookup fd' w"
    using o by (simp add: w' fd_lookup_set_fd [OF l])
  show "data = [] \<Longrightarrow> 0 < n \<Longrightarrow> unread w fd = []"
    using amount_pos [of n x] by (simp add: data unread_def d)
  show "length data \<le> n" using amount_le [of x n] by (simp add: data)
  show "sched w = [] \<Longrightarrow> data = take n (unread w fd)"
    using x d by (auto simp: next_outcome_idle data unread_def amount_def)
qed

lemma sys_read_error:
  assumes "sys_read fd n w = (Inl e, w')"
  shows "unread w' fd = unread w fd" "inodes w' = inodes w" "names w' = names w"
    "fd_lookup fd' w' = fd_lookup fd' w"
  using assms
  by (auto simp: sys_read_def Let_def unread_def next_outcome_frame
      split: option.splits prod.splits outcome.splits)

definition seek_by :: "fdesc \<Rightarrow> nat \<Rightarrow> fdesc" where
  "seek_by d k = d\<lparr>d_off := d_off d + k\<rparr>"

lemma seek_by_simps [simp]:
  "d_inode (seek_by d k) = d_inode d" "d_off (seek_by d k) = d_off d + k" "seek_by d 0 = d"
  "seek_by (seek_by d j) k = seek_by d (j + k)"
  by (simp_all add: seek_by_def)

lemma sys_read_inode:
  assumes "sys_read fd n w = (r, w')" "fd_lookup fd w = Some d"
  shows "length (fds w') = length (fds w) \<and> (\<exists>k. fd_lookup fd w' = Some (seek_by d k))"
proof -
  obtain x w1 where x: "next_outcome w = (x, w1)" by (cases "next_outcome w")
  note fr = next_outcome_frame [OF x]
  have l: "fd_lookup fd w1 = Some d" using fr assms(2) by simp
  show ?thesis using assms x fr fd_lookup_set_fd [OF l]
    by (auto simp: sys_read_def Let_def seek_by_def split: outcome.splits)
       (auto simp: set_fd_def intro: exI [of _ 0])
qed

text \<open>
  What a call leaves alone: the files, the names and every descriptor but one, of which
  only the offset moves.
\<close>

definition only_fd :: "nat \<Rightarrow> posix \<Rightarrow> posix \<Rightarrow> bool" where
  "only_fd fd w w' \<longleftrightarrow>
     inodes w' = inodes w \<and> names w' = names w \<and> length (fds w') = length (fds w) \<and>
     (\<forall>fd'. fd' \<noteq> fd \<longrightarrow> fd_lookup fd' w' = fd_lookup fd' w) \<and>
     (\<forall>d. fd_lookup fd w = Some d \<longrightarrow> (\<exists>k. fd_lookup fd w' = Some (seek_by d k)))"

lemma only_fd_refl [simp]: "only_fd fd w w"
  by (auto simp: only_fd_def intro: exI [of _ 0])

lemma only_fd_trans: "only_fd fd w w1 \<Longrightarrow> only_fd fd w1 w2 \<Longrightarrow> only_fd fd w w2"
  by (fastforce simp: only_fd_def)

lemma sys_read_fds: "sys_read fd n w = (r, w') \<Longrightarrow> length (fds w') = length (fds w)"
  by (auto simp: sys_read_def Let_def set_fd_def next_outcome_frame
      split: option.splits prod.splits outcome.splits)

lemma sys_read_only_fd:
  assumes "sys_read fd n w = (r, w')" shows "only_fd fd w w'"
  using assms sys_read_inode [OF assms] sys_read_fds [OF assms]
  by (cases r) (auto simp: only_fd_def sys_read_spec sys_read_error)

lemma safe_read_loop_spec:
  assumes "safe_read_loop fd c acc w = (r, w')" "length acc \<le> c"
  shows "only_fd fd w w' \<and>
    (\<forall>out. r = Inr out \<longrightarrow>
       (\<exists>data. out = acc @ data \<and> unread w fd = data @ unread w' fd \<and> length out \<le> c \<and>
               (length out < c \<longrightarrow> unread w' fd = [])))"
  using assms
proof (induction fd c acc w arbitrary: r w' rule: safe_read_loop.induct)
  case (1 fd c acc w)
  show ?case
  proof (cases "length acc < c")
    case False
    with 1 show ?thesis by (auto simp: safe_read_loop.simps [of fd c acc w])
  next
    case True
    obtain q w1 where q: "sys_read fd (c - length acc) w = (q, w1)"
      by (cases "sys_read fd (c - length acc) w")
    note only = sys_read_only_fd [OF q]
    show ?thesis
    proof (cases q)
      case (Inl e)
      show ?thesis
      proof (cases "e = EINTR")
        case False
        with 1 True q Inl only show ?thesis
          by (auto simp: safe_read_loop.simps [of fd c acc w])
      next
        case intr: True
        have "safe_read_loop fd c acc w1 = (r, w')"
          using "1.prems" True q Inl intr by (simp add: safe_read_loop.simps [of fd c acc w])
        from "1.IH"(1) [OF True q [symmetric] Inl _ this] intr "1.prems"(2)
        show ?thesis
          using only sys_read_error(1) [of fd _ w e w1] q Inl by (auto intro: only_fd_trans)
      qed
    next
      case (Inr data)
      note s = sys_read_spec [OF q [unfolded Inr]]
      show ?thesis
      proof (cases "data = []")
        case empty: True
        with "1.prems" True q Inr have "r = Inr acc" "w' = w1"
          by (simp_all add: safe_read_loop.simps [of fd c acc w])
        with empty s(1,5) only True show ?thesis by simp
      next
        case False
        have rec: "safe_read_loop fd c (acc @ data) w1 = (r, w')"
          using "1.prems" True q Inr False by (simp add: safe_read_loop.simps [of fd c acc w])
        have "length (acc @ data) \<le> c" using s(6) True by simp
        from "1.IH"(2) [OF True q [symmetric] Inr False rec this]
        show ?thesis using only s(1) by (auto intro: only_fd_trans)
      qed
    qed
  qed
qed

lemma sys_read_set:
  "sys_read fd n w = (r, w') \<Longrightarrow> set (sched w') \<subseteq> set (sched w)"
  by (auto simp: sys_read_def Let_def next_outcome.simps
      split: option.splits prod.splits outcome.splits list.splits)

lemma safe_read_loop_sched:
  "safe_read_loop fd c acc w = (r, w') \<Longrightarrow> set (sched w') \<subseteq> set (sched w)"
proof (induction fd c acc w arbitrary: r w' rule: safe_read_loop.induct)
  case (1 fd c acc w)
  obtain q w1 where q: "sys_read fd (c - length acc) w = (q, w1)"
    by (cases "sys_read fd (c - length acc) w")
  note s = sys_read_set [OF q]
  show ?case
    using "1.prems" "1.IH" [OF _ q [symmetric]] q s
    by (cases q) (force simp: safe_read_loop.simps [of fd c acc w] split: if_splits)+
qed

text \<open>A successful \<open>safe_read\<close> returns the next \<open>c\<close> unread bytes, or all that are left.\<close>

lemma safe_read_Inr:
  assumes "safe_read fd c w = (Inr out, w')"
  shows "out = take c (unread w fd)" "unread w' fd = drop c (unread w fd)" "only_fd fd w w'"
proof -
  from safe_read_loop_spec [of fd c "[]" w "Inr out" w'] assms
  have o: "only_fd fd w w'" and u: "unread w fd = out @ unread w' fd" "length out \<le> c"
    "length out < c \<longrightarrow> unread w' fd = []"
    by (auto simp: safe_read_def)
  show "only_fd fd w w'" by (rule o)
  have "length out = c \<or> unread w' fd = []" using u(2,3) by auto
  then show "out = take c (unread w fd)" "unread w' fd = drop c (unread w fd)"
    using u by auto
qed

lemma safe_read_only_fd: "safe_read fd c w = (r, w') \<Longrightarrow> only_fd fd w w'"
  using safe_read_loop_spec [of fd c "[]" w r w'] by (simp add: safe_read_def)

text \<open>
  When the kernel only interrupts and splits the calls, the read succeeds.
\<close>

definition benign :: "posix \<Rightarrow> bool" where
  "benign w \<longleftrightarrow> (\<forall>x \<in> set (sched w). \<forall>e. x = Error e \<longrightarrow> e = EINTR)"

lemma next_outcome_benign:
  "next_outcome w = (x, w') \<Longrightarrow> benign w \<Longrightarrow> benign w' \<and> (\<forall>e. x = Error e \<longrightarrow> e = EINTR)"
  by (auto simp: next_outcome.simps benign_def split: list.splits)

lemma sys_read_benign:
  assumes "benign w" "fd_lookup fd w = Some d" "sys_read fd n w = (r, w')"
  shows "benign w' \<and> (\<exists>d'. fd_lookup fd w' = Some d') \<and> (\<forall>e. r = Inl e \<longrightarrow> e = EINTR)"
proof -
  obtain x w1 where x: "next_outcome w = (x, w1)" by (cases "next_outcome w")
  from next_outcome_benign [OF x assms(1)] next_outcome_frame [OF x] assms(2,3) x show ?thesis
    by (auto simp: sys_read_def Let_def fd_lookup_set_fd benign_def split: outcome.splits)
qed

lemma safe_read_loop_benign:
  assumes "benign w" "fd_lookup fd w = Some d" "safe_read_loop fd c acc w = (r, w')"
  shows "(\<exists>out. r = Inr out) \<and> benign w' \<and> (\<exists>d'. fd_lookup fd w' = Some d')"
  using assms
proof (induction fd c acc w arbitrary: d r w' rule: safe_read_loop.induct)
  case (1 fd c acc w)
  obtain q w1 where q: "sys_read fd (c - length acc) w = (q, w1)"
    by (cases "sys_read fd (c - length acc) w")
  from sys_read_benign [OF "1.prems"(1,2) q] obtain d1 where
    b: "benign w1" "fd_lookup fd w1 = Some d1" "\<forall>e. q = Inl e \<longrightarrow> e = EINTR" by blast
  show ?case
  proof (cases "length acc < c")
    case False
    with "1.prems" show ?thesis by (auto simp: safe_read_loop.simps [of fd c acc w])
  next
    case True
    show ?thesis
    proof (cases q)
      case (Inl e)
      with b have "e = EINTR" by simp
      then have "safe_read_loop fd c acc w1 = (r, w')"
        using "1.prems" True q Inl by (simp add: safe_read_loop.simps [of fd c acc w])
      with "1.IH"(1) [OF True q [symmetric] Inl _ b(1,2)] \<open>e = EINTR\<close> show ?thesis by simp
    next
      case (Inr data)
      show ?thesis
      proof (cases "data = []")
        case empty: True
        with "1.prems" True q Inr b show ?thesis
          by (auto simp: safe_read_loop.simps [of fd c acc w])
      next
        case False
        have "safe_read_loop fd c (acc @ data) w1 = (r, w')"
          using "1.prems" True q Inr False by (simp add: safe_read_loop.simps [of fd c acc w])
        with "1.IH"(2) [OF True q [symmetric] Inr False b(1,2)] show ?thesis by simp
      qed
    qed
  qed
qed

lemma safe_read_benign:
  assumes "benign w" "fd_lookup fd w = Some d"
  obtains w' d' where "safe_read fd c w = (Inr (take c (unread w fd)), w')" "benign w'"
    "fd_lookup fd w' = Some d'" "only_fd fd w w'" "unread w' fd = drop c (unread w fd)"
proof -
  obtain r w' where r: "safe_read fd c w = (r, w')" by (cases "safe_read fd c w")
  from safe_read_loop_benign [OF assms, of c "[]" r w'] r obtain out d'
    where o: "r = Inr out" "benign w'" "fd_lookup fd w' = Some d'" by (auto simp: safe_read_def)
  from safe_read_Inr [of fd c w out w'] r o show thesis by (intro that [of w' d']) auto
qed

section \<open>Writing\<close>

text \<open>
  A descriptor is usable when its file exists and its offset is not past the end; \<open>wrote\<close>
  says that exactly \<open>data\<close> went to the file at the descriptor's offset.
\<close>

definition usable :: "posix \<Rightarrow> nat \<Rightarrow> fdesc \<Rightarrow> bool" where
  "usable w fd d \<longleftrightarrow>
     fd_lookup fd w = Some d \<and> d_inode d < length (inodes w) \<and>
     d_off d \<le> length (content w (d_inode d))"

definition wrote :: "nat \<Rightarrow> fdesc \<Rightarrow> string \<Rightarrow> posix \<Rightarrow> posix \<Rightarrow> bool" where
  "wrote fd d data w w' \<longleftrightarrow>
     inodes w' = (inodes w)[d_inode d := splice (content w (d_inode d)) (d_off d) data] \<and>
     names w' = names w \<and> fds w' = (fds w)[fd := Some (seek_by d (length data))]"

lemma usable_nth:
  "usable w fd d \<Longrightarrow> fd < length (fds w) \<and> fds w ! fd = Some d"
  by (auto simp: usable_def fd_lookup_def split: if_splits)

lemma wrote_Nil: "usable w fd d \<Longrightarrow> wrote fd d [] w w"
  using usable_nth [of w fd d]
  by (auto simp: wrote_def usable_def splice_Nil list_update_id content_def)
     (metis list_update_id)

lemma wrote_content:
  "wrote fd d data w w' \<Longrightarrow> usable w fd d \<Longrightarrow>
   content w' i = (if i = d_inode d then splice (content w i) (d_off d) data else content w i)"
  by (auto simp: wrote_def usable_def content_def)

lemma wrote_fd_lookup:
  "wrote fd d data w w' \<Longrightarrow> usable w fd d \<Longrightarrow>
   fd_lookup fd' w' = (if fd' = fd then Some (seek_by d (length data)) else fd_lookup fd' w)"
  using usable_nth [of w fd d] by (auto simp: wrote_def fd_lookup_def)

lemma wrote_usable:
  "wrote fd d data w w' \<Longrightarrow> usable w fd d \<Longrightarrow> usable w' fd (seek_by d (length data))"
  using wrote_content [of fd d data w w' "d_inode d"] wrote_fd_lookup [of fd d data w w' fd]
  by (auto simp: usable_def length_splice wrote_def)

lemma wrote_append:
  assumes "wrote fd d a w w1" "wrote fd (seek_by d (length a)) b w1 w2" "usable w fd d"
  shows "wrote fd d (a @ b) w w2"
  using assms wrote_content [OF assms(1,3), of "d_inode d"]
  by (simp add: wrote_def splice_splice usable_def)

lemma next_outcome_set:
  "next_outcome w = (x, w') \<Longrightarrow>
   set (sched w') \<subseteq> set (sched w) \<and> (\<forall>e. x = Error e \<longrightarrow> x \<in> set (sched w))"
  by (auto simp: next_outcome.simps split: list.splits)

lemma sys_write_spec:
  assumes "sys_write fd data w = (r, w')" "usable w fd d"
  shows "set (sched w') \<subseteq> set (sched w) \<and>
    ((\<exists>e. r = Inl e \<and> Error e \<in> set (sched w) \<and> wrote fd d [] w w') \<or>
     (\<exists>k \<le> length data. r = Inr k \<and> wrote fd d (take k data) w w'))"
proof -
  obtain x w1 where x: "next_outcome w = (x, w1)" by (cases "next_outcome w")
  note fr = next_outcome_frame [OF x] and se = next_outcome_set [OF x]
  have nil: "wrote fd d [] w w1" using wrote_Nil [OF assms(2)] fr by (simp add: wrote_def)
  from assms have d: "fd_lookup fd w = Some d" by (simp add: usable_def)
  show ?thesis
  proof (cases "\<exists>e. x = Error e")
    case True
    with assms(1) d x nil se show ?thesis by (auto simp: sys_write_def)
  next
    case False
    then have "set (sched w') \<subseteq> set (sched w)" and
        "r = Inr (length (take (amount x (length data)) data)) \<and>
         wrote fd d (take (amount x (length data)) data) w w'"
      using assms(1) d x fr se
      by (auto simp: sys_write_def Let_def wrote_def seek_by_def set_fd_def split: outcome.splits)
    then show ?thesis by (metis length_take min.cobounded1 take_length_take)
  qed
qed

text \<open>
  Whatever the kernel does, \<open>safe_write\<close> leaves an initial part of its data in the file: all
  of them with result 0, or fewer with the negated code of an error of the kernel.
\<close>

definition write_outcome :: "nat \<Rightarrow> fdesc \<Rightarrow> string \<Rightarrow> posix \<Rightarrow> int \<Rightarrow> posix \<Rightarrow> nat \<Rightarrow> bool" where
  "write_outcome fd d b w r w' k \<longleftrightarrow>
     k \<le> length b \<and> wrote fd d (take k b) w w' \<and> set (sched w') \<subseteq> set (sched w) \<and>
     (k = length b \<and> r = 0 \<or> k < length b \<and> (\<exists>e. r = - e \<and> e \<noteq> EINTR \<and> Error e \<in> set (sched w)))"

lemma write_outcome_step:
  assumes "write_outcome fd (seek_by d k) (drop k b) w1 r w' j" "wrote fd d (take k b) w w1"
    "usable w fd d" "set (sched w1) \<subseteq> set (sched w)" "k \<le> length b"
  shows "write_outcome fd d b w r w' (k + j)"
proof -
  have "wrote fd d (take k b @ take j (drop k b)) w w'"
    using assms wrote_append [OF assms(2) _ assms(3)]
    by (simp add: write_outcome_def min_absorb2)
  with assms show ?thesis by (auto simp: write_outcome_def take_add)
qed

lemma safe_write_spec:
  assumes "safe_write fd b w = (r, w')" "usable w fd d"
  shows "\<exists>k. write_outcome fd d b w r w' k"
  using assms
proof (induction fd b w arbitrary: r w' d rule: safe_write.induct)
  case (1 fd b w)
  show ?case
  proof (cases "b = []")
    case True
    with "1.prems" wrote_Nil show ?thesis
      by (auto simp: safe_write.simps [of fd "[]" w] write_outcome_def)
  next
    case False
    obtain q w1 where q: "sys_write fd b w = (q, w1)" by (cases "sys_write fd b w")
    note sp = sys_write_spec [OF q "1.prems"(2)]
    then show ?thesis
    proof (elim disjE exE conjE)
      fix e assume e: "q = Inl e" "Error e \<in> set (sched w)" "wrote fd d [] w w1"
      show ?thesis
      proof (cases "e = EINTR")
        case intr: True
        have "usable w1 fd d" using wrote_usable [OF e(3) "1.prems"(2)] by simp
        moreover have "safe_write fd b w1 = (r, w')"
          using "1.prems"(1) False q e intr by (simp add: safe_write.simps [of fd b w])
        ultimately obtain j where "write_outcome fd d b w1 r w' j"
          using "1.IH"(1) [OF False q [symmetric] e(1)] intr by blast
        then have "write_outcome fd d b w r w' (0 + j)"
          using e "1.prems"(2) sp by (intro write_outcome_step) auto
        then show ?thesis by blast
      next
        case no: False
        then have "r = - e" "w' = w1" using "1.prems"(1) False q e
          by (simp_all add: safe_write.simps [of fd b w])
        with e no False sp show ?thesis by (intro exI [of _ 0]) (auto simp: write_outcome_def)
      qed
    next
      fix k assume k: "k \<le> length b" "q = Inr k" "wrote fd d (take k b) w w1"
      have u: "usable w1 fd (seek_by d k)"
        using wrote_usable [OF k(3) "1.prems"(2)] k(1) by (simp add: min_absorb2)
      have "safe_write fd (drop k b) w1 = (r, w')"
        using "1.prems"(1) False q k by (simp add: safe_write.simps [of fd b w])
      from "1.IH"(2) [OF False q [symmetric] k(2) this u]
      show ?thesis using write_outcome_step [OF _ k(3) "1.prems"(2) _ k(1)] sp by blast
    qed
  qed
qed

lemma safe_write_benign:
  assumes "benign w" "usable w fd d"
  obtains w' where "safe_write fd b w = (0, w')" "benign w'" "wrote fd d b w w'"
proof -
  obtain r w' where r: "safe_write fd b w = (r, w')" by (cases "safe_write fd b w")
  from safe_write_spec [OF r assms(2)] assms(1)
  have "r = 0" "wrote fd d b w w'" "benign w'" by (auto simp: write_outcome_def benign_def)
  with r that show thesis by simp
qed

section \<open>Copying\<close>

text \<open>
  \<open>duplicate_fd\<close> into a file other than its source returns, and has then copied all that was
  unread. The inodes must differ: copying a file into itself at its end never stops.
\<close>

definition distinct_fds :: "posix \<Rightarrow> nat \<Rightarrow> fdesc \<Rightarrow> nat \<Rightarrow> fdesc \<Rightarrow> bool" where
  "distinct_fds w dest dd src sd \<longleftrightarrow>
     dest \<noteq> src \<and> usable w dest dd \<and> fd_lookup src w = Some sd \<and> d_inode sd \<noteq> d_inode dd"

definition copied :: "nat \<Rightarrow> fdesc \<Rightarrow> nat \<Rightarrow> fdesc \<Rightarrow> string \<Rightarrow> posix \<Rightarrow> posix \<Rightarrow> bool" where
  "copied dest dd src sd data w w' \<longleftrightarrow>
     inodes w' = (inodes w)[d_inode dd := splice (content w (d_inode dd)) (d_off dd) data] \<and>
     names w' = names w \<and> length (fds w') = length (fds w) \<and>
     fd_lookup dest w' = Some (seek_by dd (length data)) \<and>
     (\<exists>k. fd_lookup src w' = Some (seek_by sd k)) \<and>
     (\<forall>fd. fd \<noteq> dest \<longrightarrow> fd \<noteq> src \<longrightarrow> fd_lookup fd w' = fd_lookup fd w)"

lemma only_fd_usable:
  "only_fd fd w w' \<Longrightarrow> fd \<noteq> fd' \<Longrightarrow> usable w fd' d \<Longrightarrow> usable w' fd' d"
  by (auto simp: only_fd_def usable_def content_def)

lemma read_write_copied:
  assumes "distinct_fds w dest dd src sd" "only_fd src w w1" "wrote dest dd data w1 w2"
  shows "copied dest dd src sd data w w2"
    "\<exists>k. distinct_fds w2 dest (seek_by dd (length data)) src (seek_by sd k)"
    "unread w2 src = unread w1 src"
proof -
  have u: "usable w1 dest dd"
    using assms only_fd_usable [of src w w1 dest dd] by (auto simp: distinct_fds_def)
  obtain k where k: "fd_lookup src w1 = Some (seek_by sd k)"
    using assms by (auto simp: distinct_fds_def only_fd_def)
  note l = wrote_fd_lookup [OF assms(3) u] and c = wrote_content [OF assms(3) u]
  have k2: "fd_lookup src w2 = Some (seek_by sd k)" using k l assms(1) by (simp add: distinct_fds_def)
  show "unread w2 src = unread w1 src"
    using k k2 c assms(1) by (simp add: unread_def distinct_fds_def)
  show "\<exists>k. distinct_fds w2 dest (seek_by dd (length data)) src (seek_by sd k)"
    using wrote_usable [OF assms(3) u] k2 assms(1) by (auto simp: distinct_fds_def)
  have "content w1 i = content w i" for i using assms(2) by (simp add: only_fd_def content_def)
  then show "copied dest dd src sd data w w2"
    using assms k2 l by (auto simp: copied_def only_fd_def wrote_def)
qed

lemma copied_append:
  assumes "copied dest dd src sd a w w1"
    "copied dest (seek_by dd (length a)) src (seek_by sd k) b w1 w2" "usable w dest dd"
  shows "copied dest dd src sd (a @ b) w w2"
proof -
  have "content w1 (d_inode dd) = splice (content w (d_inode dd)) (d_off dd) a"
    using assms by (simp add: copied_def content_def usable_def)
  then show ?thesis using assms by (auto simp: copied_def splice_splice usable_def)
qed

lemma copied_Nil:
  assumes "distinct_fds w dest dd src sd" "only_fd src w w1"
  shows "copied dest dd src sd [] w w1"
  using read_write_copied(1) [OF assms wrote_Nil] only_fd_usable [OF assms(2)] assms(1)
  by (simp add: distinct_fds_def)

lemma duplicate_fd_copies:
  assumes "benign w" "distinct_fds w dest dd src sd"
  shows "\<exists>w'. duplicate_fd dest src w = Some (0, w') \<and> set (sched w') \<subseteq> set (sched w) \<and>
    copied dest dd src sd (unread w src) w w'"
  using assms
proof (induction "length (unread w src)" arbitrary: w dd sd rule: less_induct)
  case less
  from safe_read_benign [of w src sd 128] less.prems obtain w1 d' where
    r: "safe_read src 128 w = (Inr (take 128 (unread w src)), w1)" "benign w1"
      "only_fd src w w1" "unread w1 src = drop 128 (unread w src)"
    by (auto simp: distinct_fds_def)
  have s1: "set (sched w1) \<subseteq> set (sched w)"
    using safe_read_loop_sched r(1) by (auto simp: safe_read_def)
  show ?case
  proof (cases "unread w src = []")
    case True
    with r s1 copied_Nil [OF less.prems(2) r(3)] show ?thesis by (simp add: duplicate_fd.simps)
  next
    case False
    let ?data = "take 128 (unread w src)"
    have u: "usable w1 dest dd"
      using less.prems(2) only_fd_usable [OF r(3)] by (simp add: distinct_fds_def)
    from safe_write_benign [OF r(2) u, of ?data] obtain w2 where
      s: "safe_write dest ?data w1 = (0, w2)" "benign w2" "wrote dest dd ?data w1 w2" .
    have s2: "set (sched w2) \<subseteq> set (sched w1)"
      using safe_write_spec [OF s(1) u] by (auto simp: write_outcome_def)
    note c = read_write_copied [OF less.prems(2) r(3) s(3)]
    obtain k where k: "distinct_fds w2 dest (seek_by dd (length ?data)) src (seek_by sd k)"
      using c(2) by blast
    have u2: "unread w2 src = drop 128 (unread w src)" using c(3) r(4) by simp
    with False have "length (unread w2 src) < length (unread w src)" by simp
    from less.hyps [OF this s(2) k] obtain w' where
      w': "duplicate_fd dest src w2 = Some (0, w')" "set (sched w') \<subseteq> set (sched w2)"
        "copied dest (seek_by dd (length ?data)) src (seek_by sd k) (unread w2 src) w2 w'" by blast
    have "copied dest dd src sd (?data @ unread w2 src) w w'"
      using copied_append [OF c(1) w'(3)] less.prems(2) by (simp add: distinct_fds_def)
    then show ?thesis using w' r s s1 s2 False u2
      by (simp add: duplicate_fd.simps [of dest src w])
  qed
qed

section \<open>Whole files\<close>

lemma smooth_benign: "smooth w \<Longrightarrow> benign w"
  by (auto simp: smooth_def benign_def)

lemma sys_open_opens:
  assumes "smooth w" "posix_ok w" "map_of (names w) path \<noteq> None \<or> and fl O_CREAT \<noteq> 0"
  obtains fd i w' where "sys_open path fl w = (Inr fd, w')" "smooth w'" "posix_ok w'"
    "fd_lookup fd w' = Some \<lparr>d_inode = i, d_off = 0, d_flags = fl\<rparr>"
    "map_of (names w') path = Some i" "i < length (inodes w')"
    "content w' i = (if and fl O_TRUNC \<noteq> 0 \<or> map_of (names w) path = None then []
                     else content w (the (map_of (names w) path)))"
proof -
  obtain x w1 where x: "next_outcome w = (x, w1)" by (cases "next_outcome w")
  note sm = next_outcome_smooth [OF x assms(1)] and fr = next_outcome_frame [OF x]
  have ok1: "posix_ok w1" using assms(2) fr by (simp add: posix_ok_def)
  show thesis
  proof (cases "map_of (names w) path")
    case (Some i)
    let ?w2 = "if and fl O_TRUNC \<noteq> 0 then w1\<lparr>inodes := (inodes w1)[i := []]\<rparr> else w1"
    obtain fd w3 where i: "install_fd i fl ?w2 = (fd, w3)" by (cases "install_fd i fl ?w2")
    have lt: "i < length (inodes w)" using posix_ok_name [OF assms(2) Some] .
    have "posix_ok ?w2" using ok1 by (auto simp: posix_ok_def)
    then have "posix_ok w3" using install_fd_ok [OF i] lt fr by simp
    moreover have "sys_open path fl w = (Inr fd, w3)"
      using x sm Some i fr by (auto simp: sys_open_def Let_def split: outcome.splits)
    ultimately show thesis
      using that [of fd w3 i] install_fd_lookup [OF i] sm Some lt fr
      by (auto simp: content_def smooth_def)
  next
    case None
    then have "and fl O_CREAT \<noteq> 0" using assms(3) by simp
    obtain i w2 where n: "new_inode w1 = (i, w2)" by (cases "new_inode w1")
    let ?w3 = "w2\<lparr>names := (path, i) # names w2\<rparr>"
    obtain fd w4 where f: "install_fd i fl ?w3 = (fd, w4)" by (cases "install_fd i fl ?w3")
    have ok3: "posix_ok ?w3" "i < length (inodes w2)"
      using new_inode_ok [OF n ok1] by (auto simp: posix_ok_def)
    have "sys_open path fl w = (Inr fd, w4)"
      using x sm None n f fr \<open>and fl O_CREAT \<noteq> 0\<close>
      by (auto simp: sys_open_def Let_def split: outcome.splits)
    then show thesis
      using that [of fd w4 i] install_fd_lookup [OF f] install_fd_ok [OF f ok3(1)] ok3(2) sm None n
      by (auto simp: content_def smooth_def new_inode_def)
  qed
qed

lemma sys_close_smooth:
  assumes "smooth w" "fd_lookup fd w = Some d"
  obtains w' where "sys_close fd w = (Inr (), w')" "smooth w'" "inodes w' = inodes w"
    "names w' = names w" "fds w' = (fds w)[fd := None]"
proof -
  obtain x w1 where x: "next_outcome w = (x, w1)" by (cases "next_outcome w")
  note sm = next_outcome_smooth [OF x assms(1)] and fr = next_outcome_frame [OF x]
  have "sys_close fd w = (Inr (), w1\<lparr>fds := (fds w1)[fd := None]\<rparr>)"
    using assms x sm by (auto simp: sys_close_def split: outcome.splits)
  then show thesis using that sm fr by (simp add: smooth_def)
qed

lemma closed_ok: "posix_ok w \<Longrightarrow> inodes w' = inodes w \<Longrightarrow> names w' = names w \<Longrightarrow>
  fds w' = (fds w)[fd := None] \<Longrightarrow> posix_ok w'"
  by (auto simp: posix_ok_def dest: set_update_subset_insert [THEN subsetD])

lemma wrote_smooth: "safe_write fd b w = (r, w') \<Longrightarrow> usable w fd d \<Longrightarrow> smooth w \<Longrightarrow> smooth w'"
  using safe_write_spec [of fd b w r w' d] by (auto simp: write_outcome_def smooth_def)

lemma wrote_ok: "wrote fd d data w w' \<Longrightarrow> posix_ok w \<Longrightarrow> usable w fd d \<Longrightarrow> posix_ok w'"
  by (auto simp: wrote_def posix_ok_def usable_def dest!: set_update_subset_insert [THEN subsetD])

text \<open>\<open>write_string_to_file\<close> replaces the file's contents, whatever they were.\<close>

lemma write_string_to_file_ok:
  assumes "smooth w" "posix_ok w"
  obtains w' i where "write_string_to_file path str w = (0, w')" "smooth w'" "posix_ok w'"
    "map_of (names w') path = Some i" "content w' i = str"
proof -
  let ?fl = "or O_WRONLY (or O_CREAT O_TRUNC)"
  have fl: "and ?fl O_CREAT \<noteq> 0" "and ?fl O_TRUNC \<noteq> 0" by (simp_all add: open_flag_defs)
  from sys_open_opens [OF assms, of path ?fl] fl obtain fd i w1 where
    o: "sys_open path ?fl w = (Inr fd, w1)" "smooth w1" "posix_ok w1"
      "fd_lookup fd w1 = Some \<lparr>d_inode = i, d_off = 0, d_flags = ?fl\<rparr>"
      "map_of (names w1) path = Some i" "i < length (inodes w1)" "content w1 i = []"
    by metis
  then have u: "usable w1 fd \<lparr>d_inode = i, d_off = 0, d_flags = ?fl\<rparr>" by (simp add: usable_def)
  from safe_write_benign [OF smooth_benign [OF o(2)] u, of str] obtain w2 where
    s: "safe_write fd str w1 = (0, w2)" "wrote fd \<lparr>d_inode = i, d_off = 0, d_flags = ?fl\<rparr> str w1 w2" .
  have c: "content w2 i = str" using wrote_content [OF s(2) u] o(7) by (simp add: splice_def)
  obtain d2 where "fd_lookup fd w2 = Some d2" using wrote_fd_lookup [OF s(2) u] by simp
  from sys_close_smooth [OF wrote_smooth [OF s(1) u o(2)] this] obtain w3 where
    w3: "sys_close fd w2 = (Inr (), w3)" "smooth w3" "inodes w3 = inodes w2"
      "names w3 = names w2" "fds w3 = (fds w2)[fd := None]" .
  have "write_string_to_file path str w = (0, w3)"
    using o(1) s(1) w3(1) by (simp add: write_string_to_file_def)
  moreover have "names w3 = names w1" using s(2) w3(4) by (simp add: wrote_def)
  moreover have "content w3 i = str" using c w3(3) by (metis content_def)
  ultimately show thesis
    using that [of w3 i] w3(2) closed_ok [OF wrote_ok [OF s(2) o(3) u] w3(3,4,5)] o(5) by simp
qed

lemma read_string_from_file_ok:
  assumes "smooth w" "posix_ok w" "map_of (names w) path = Some i"
  shows "fst (read_string_from_file path buf_len w) = Inr (take (buf_len - 1) (content w i))"
proof -
  have tr: "and O_RDONLY O_TRUNC = 0" by (simp add: open_flag_defs)
  from sys_open_opens [OF assms(1,2), of path O_RDONLY] assms(3) tr obtain fd j w1 where
    o: "sys_open path O_RDONLY w = (Inr fd, w1)" "smooth w1"
      "fd_lookup fd w1 = Some \<lparr>d_inode = j, d_off = 0, d_flags = O_RDONLY\<rparr>" "content w1 j = content w i"
    by (metis option.discI option.sel)
  from safe_read_benign [OF smooth_benign [OF o(2)] o(3), of "buf_len - 1"] obtain w2 d2 where
    r: "safe_read fd (buf_len - 1) w1 = (Inr (take (buf_len - 1) (unread w1 fd)), w2)"
      "fd_lookup fd w2 = Some d2" .
  have "smooth w2" using safe_read_loop_sched [of fd "buf_len - 1" "[]" w1] r(1) o(2)
    by (auto simp: smooth_def safe_read_def)
  from sys_close_smooth [OF this r(2)] obtain w3 where "sys_close fd w2 = (Inr (), w3)" .
  then show ?thesis
    using o r by (simp add: read_string_from_file_def read_string_from_fd_def unread_def)
qed

section \<open>The properties\<close>

text \<open>
  C34. A \<open>safe_read\<close> that succeeds returns the next \<open>c\<close> unread bytes, or all that are left when
  there are fewer, however the kernel splits or interrupts the transfer; the offset moves
  past them, and no file and no other descriptor changes.
\<close>

lemma safe_read_contract:
  assumes "safe_read fd c w = (Inr out, w')"
  shows "out = take c (unread w fd) \<and> unread w' fd = drop c (unread w fd) \<and> only_fd fd w w'"
  using safe_read_Inr [OF assms] by blast

definition sample_posix :: posix where
  "sample_posix = \<lparr>inodes = [''hello'', []], names = [(''/a'', 0)],
     fds = [Some \<lparr>d_inode = 0, d_off = 0, d_flags = 0\<rparr>, Some \<lparr>d_inode = 1, d_off = 0, d_flags = 2\<rparr>],
     sched = [Short 1, Error EINTR, Short 0]\<rparr>"

lemma sample_read: "safe_read 0 4 sample_posix =
  (Inr ''hell'', \<lparr>inodes = [''hello'', []], names = [(''/a'', 0)],
     fds = [Some \<lparr>d_inode = 0, d_off = 4, d_flags = 0\<rparr>, Some \<lparr>d_inode = 1, d_off = 0, d_flags = 2\<rparr>],
     sched = []\<rparr>)"
  by code_simp

theorem safe_read_contract_witness: "''hell'' = take 4 (unread sample_posix 0)"
  using safe_read_contract [OF sample_read] by blast

text \<open>
  Signals do not make a read fail: when the only errors of the kernel are interruptions,
  \<open>safe_read\<close> on an open descriptor succeeds.
\<close>

lemma safe_read_interrupted:
  assumes "benign w" "fd_lookup fd w = Some d"
  shows "fst (safe_read fd c w) = Inr (take c (unread w fd))"
  by (rule safe_read_benign [OF assms, of c]) simp

lemma sample_benign: "benign sample_posix"
  by (simp add: benign_def sample_posix_def)

theorem safe_read_interrupted_witness: "fst (safe_read 0 4 sample_posix) = Inr ''hell''"
  using safe_read_interrupted [OF sample_benign, of 0 "\<lparr>d_inode = 0, d_off = 0, d_flags = 0\<rparr>" 4]
  by (simp add: sample_posix_def fd_lookup_def unread_def content_def)

text \<open>
  C35. \<open>safe_write\<close> returns 0 exactly when it has written all of its data at the offset of the
  descriptor; on an error other than an interruption it returns the negated code and has
  written an initial part of the data, and nothing else has changed in the file.
\<close>

lemma safe_write_contract:
  assumes "safe_write fd b w = (r, w')" "usable w fd d"
  shows "\<exists>k. write_outcome fd d b w r w' k"
  using assms by (rule safe_write_spec)

theorem safe_write_contract_witness:
  "\<exists>r w' k. safe_write 1 ''abc'' sample_posix = (r, w') \<and>
     write_outcome 1 \<lparr>d_inode = 1, d_off = 0, d_flags = 2\<rparr> ''abc'' sample_posix r w' k"
proof -
  obtain r w' where s: "safe_write 1 ''abc'' sample_posix = (r, w')"
    by (cases "safe_write 1 ''abc'' sample_posix")
  have "usable sample_posix 1 \<lparr>d_inode = 1, d_off = 0, d_flags = 2\<rparr>"
    by (simp add: usable_def sample_posix_def fd_lookup_def content_def)
  from safe_write_contract [OF s this] s show ?thesis by blast
qed

text \<open>
  C36. Round trip of a file: what \<open>write_string_to_file\<close> writes, to a new or an existing file,
  \<open>read_string_from_file\<close> reads back, if the buffer has room for it and its NUL.
\<close>

lemma string_file_roundtrip:
  assumes "smooth w" "posix_ok w" "length str < buf_len"
  shows "fst (read_string_from_file path buf_len (snd (write_string_to_file path str w))) = Inr str"
proof -
  from write_string_to_file_ok [OF assms(1,2)] obtain w' i where
    "write_string_to_file path str w = (0, w')" "smooth w'" "posix_ok w'"
    "map_of (names w') path = Some i" "content w' i = str" .
  with read_string_from_file_ok [of w' path i buf_len] assms(3) show ?thesis by simp
qed

theorem string_file_roundtrip_witness:
  "fst (read_string_from_file ''/a'' 10
     (snd (write_string_to_file ''/a'' ''xy'' (sample_posix\<lparr>sched := [Short 0]\<rparr>)))) = Inr ''xy''"
  by (rule string_file_roundtrip)
     (auto simp: smooth_def posix_ok_def sample_posix_def)

text \<open>
  \<open>duplicate_fd\<close> returns when its two descriptors are on different files and the kernel
  only interrupts and splits its calls: it has then copied everything that was unread in
  the source to the offset of the destination, and changed nothing else.
\<close>

lemma duplicate_fd_correct:
  assumes "benign w" "distinct_fds w dest dd src sd"
  shows "\<exists>w'. duplicate_fd dest src w = Some (0, w') \<and> copied dest dd src sd (unread w src) w w'"
  using duplicate_fd_copies [OF assms] by blast

theorem duplicate_fd_correct_witness:
  "\<exists>w'. duplicate_fd 1 0 sample_posix = Some (0, w')"
  using duplicate_fd_correct [OF sample_benign, of 1 "\<lparr>d_inode = 1, d_off = 0, d_flags = 2\<rparr>" 0
      "\<lparr>d_inode = 0, d_off = 0, d_flags = 0\<rparr>"]
  by (auto simp: distinct_fds_def usable_def sample_posix_def fd_lookup_def content_def)

end
