(* ===== verification/Pid.thy ===== *)
theory Pid
  imports Io C_Format
begin

text \<open>
  Model of \<open>pid.c\<close>: the file that holds the process identifier in decimal, followed by a
  newline. The identifier that \<open>getpid\<close> returns is an argument.
\<close>

definition write_pidfile :: "int \<Rightarrow> string \<Rightarrow> posix \<Rightarrow> int \<times> posix" where
  "write_pidfile pid path w =
     (case write_string_to_file path (take 127 (fmt_d pid @ [CHR 0x0A])) w of (ret, w') \<Rightarrow>
        if ret < 0 then (ret, w') else (0, w'))"

definition remove_pidfile :: "string \<Rightarrow> posix \<Rightarrow> int \<times> posix" where
  "remove_pidfile path w =
     (case sys_unlink path w of (Inl e, w') \<Rightarrow> (- e, w') | (Inr _, w') \<Rightarrow> (0, w'))"

text \<open>
  The pid file holds the process identifier in decimal and a newline, also when a file of
  that name existed before with other contents, and reading it back gives the number.
\<close>

lemma write_pidfile_content:
  assumes "smooth w" "posix_ok w" "0 \<le> pid" "length (dec pid) < 100"
  shows "fst (write_pidfile pid path w) = 0 \<and>
    fst (read_string_from_file path 128 (snd (write_pidfile pid path w))) = Inr (dec pid @ [CHR 0x0A]) \<and>
    digits_val 0 (dec pid) = pid"
proof -
  let ?s = "take 127 (fmt_d pid @ [CHR 0x0A])"
  have s: "?s = dec pid @ [CHR 0x0A]" using assms(3,4) by (simp add: fmt_d_def)
  from write_string_to_file_ok [OF assms(1,2), of path ?s] obtain w' i where
    w': "write_string_to_file path ?s w = (0, w')" "smooth w'" "posix_ok w'"
      "map_of (names w') path = Some i" "content w' i = ?s" .
  have "content w' i = dec pid @ [CHR 0x0A]" using w'(5) s by simp
  then have "fst (read_string_from_file path 128 w') = Inr (dec pid @ [CHR 0x0A])"
    using read_string_from_file_ok [OF w'(2,3,4), of 128] assms(4) by simp
  then show ?thesis using w'(1) assms(3) by (simp add: write_pidfile_def)
qed

theorem write_pidfile_content_witness:
  "fst (read_string_from_file ''/p'' 128 (snd (write_pidfile 42 ''/p''
      (sample_posix\<lparr>sched := []\<rparr>)))) = Inr (dec 42 @ [CHR 0x0A])"
  using write_pidfile_content [of "sample_posix\<lparr>sched := []\<rparr>" 42 "''/p''"]
  by (simp add: smooth_def posix_ok_def sample_posix_def dec.simps [of 42] dec.simps [of 4])

end
