(* ===== verification/Time.thy ===== *)
theory Time
  imports Kibosh_Prelude
begin

text \<open>
  Model of \<open>time.c\<close>. \<open>milli_sleep\<close> computes an absolute deadline on the monotonic clock and
  sleeps until then, again after each signal; any other failure of the sleep aborts the
  process. Shown is that a sleep that returns has lasted at least the time asked for, and
  exactly when the process aborts instead.
\<close>

record timespec =
  tv_sec :: int
  tv_nsec :: int

text \<open>
  The clock: the current time, whether \<open>clock_gettime\<close> works, and how many of the coming
  sleeps a signal interrupts.
\<close>

record clock =
  now :: timespec
  clock_ok :: bool
  signals :: nat

definition ns :: "timespec \<Rightarrow> int" where
  "ns t = tv_sec t * 1000000000 + tv_nsec t"

definition timespec_ok :: "timespec \<Rightarrow> bool" where
  "timespec_ok t \<longleftrightarrow> 0 \<le> tv_nsec t \<and> tv_nsec t < 1000000000"

text \<open>
  \<open>clock_nanosleep(CLOCK_MONOTONIC, TIMER_ABSTIME, deadline)\<close>: \<open>EINVAL\<close> for a deadline whose
  nanoseconds are out of range, \<open>EINTR\<close> on a signal, else 0 once the deadline has passed.
\<close>

definition clock_nanosleep :: "timespec \<Rightarrow> clock \<Rightarrow> int \<times> clock" where
  "clock_nanosleep deadline c =
     (if \<not> timespec_ok deadline then (EINVAL, c)
      else if signals c > 0 then (EINTR, c\<lparr>signals := signals c - 1\<rparr>)
      else (0, if ns (now c) < ns deadline then c\<lparr>now := deadline\<rparr> else c))"

definition milli_deadline :: "timespec \<Rightarrow> uint32 \<Rightarrow> timespec" where
  "milli_deadline t delay =
     (let delay_seconds = delay div 1000;
          sec = tv_sec t + uint delay_seconds;
          nsec = tv_nsec t + uint ((delay - delay_seconds * 1000) * 1000000)
      in if nsec > 1000000000 then \<lparr>tv_sec = sec + 1, tv_nsec = nsec - 1000000000\<rparr>
         else \<lparr>tv_sec = sec, tv_nsec = nsec\<rparr>)"

function sleep_loop :: "timespec \<Rightarrow> clock \<Rightarrow> clock run" where
  "sleep_loop deadline c =
     (case clock_nanosleep deadline c of (rval, c') \<Rightarrow>
        if rval = 0 then Ret c'
        else if rval \<noteq> EINTR then Crash
        else sleep_loop deadline c')"
  by pat_completeness auto
termination
  by (relation "measure (\<lambda>(d, c). signals c)")
     (auto simp: clock_nanosleep_def errno_defs split: if_splits)

declare sleep_loop.simps [simp del]

definition milli_sleep :: "uint32 \<Rightarrow> clock \<Rightarrow> clock run" where
  "milli_sleep delay c =
     (if \<not> clock_ok c then Crash else sleep_loop (milli_deadline (now c) delay) c)"

definition timespec_to_ms :: "timespec \<Rightarrow> 64 word" where
  "timespec_to_ms ts = word_of_int (tv_sec ts) * 1000 + word_of_int (tv_nsec ts) div 1000000"

section \<open>The deadline\<close>

lemma milli_split:
  "uint ((delay - delay div 1000 * 1000) * 1000000 :: uint32) = uint delay mod 1000 * 1000000"
proof -
  have "delay - delay div 1000 * 1000 = delay mod (1000 :: uint32)"
    by (simp add: minus_div_mult_eq_mod)
  moreover have "uint (delay mod (1000 :: uint32)) = uint delay mod 1000"
    by (simp add: uint_mod)
  ultimately show ?thesis
    by (simp add: uint_word_ariths(3) uint_mod)
qed

lemma milli_deadline_parts:
  "milli_deadline t delay =
     (let nsec = tv_nsec t + uint delay mod 1000 * 1000000; sec = tv_sec t + uint (delay div 1000)
      in if nsec > 1000000000 then \<lparr>tv_sec = sec + 1, tv_nsec = nsec - 1000000000\<rparr>
         else \<lparr>tv_sec = sec, tv_nsec = nsec\<rparr>)"
  by (simp only: milli_deadline_def Let_def milli_split)

text \<open>The deadline is the time asked for, to the nanosecond.\<close>

lemma ns_milli_deadline: "ns (milli_deadline t delay) = ns t + uint delay * 1000000"
proof -
  have "uint (delay div 1000) * 1000 + uint delay mod 1000 = uint delay"
    by (simp add: uint_div)
  then show ?thesis by (simp add: ns_def milli_deadline_parts Let_def)
qed

lemma milli_deadline_ok:
  assumes "timespec_ok t"
  shows "timespec_ok (milli_deadline t delay) \<longleftrightarrow>
    tv_nsec t + uint delay mod 1000 * 1000000 \<noteq> 1000000000"
proof -
  have "0 \<le> uint delay mod 1000 * 1000000" "uint delay mod 1000 * 1000000 \<le> 999000000" by auto
  with assms show ?thesis
    by (auto simp: timespec_ok_def milli_deadline_parts Let_def)
qed

lemma sleep_loop_spec:
  "sleep_loop d c = (if timespec_ok d then Ret (c\<lparr>signals := 0, now := if ns (now c) < ns d then d else now c\<rparr>)
                     else Crash)"
proof (induction d c rule: sleep_loop.induct)
  case (1 d c)
  then show ?case
    by (subst sleep_loop.simps) (auto simp: clock_nanosleep_def errno_defs)
qed

section \<open>The properties\<close>

lemma milli_sleep_lasts:
  assumes "milli_sleep delay c = Ret c'"
  shows "ns (now c') = ns (now c) + uint delay * 1000000"
proof -
  have "uint delay = 0 \<or> 0 < uint delay" using uint_ge_0 [of delay] by linarith
  then show ?thesis
    using assms ns_milli_deadline [of "now c" delay]
    by (auto simp: milli_sleep_def sleep_loop_spec split: if_splits)
qed



text \<open>
  \<open>milli_sleep\<close> always ends, and it aborts the process in two cases only: when the clock
  cannot be read, and when the nanoseconds of the clock and of the delay add up to exactly
  one second, since the carry is done for sums above it only.
\<close>

lemma milli_sleep_aborts:
  assumes "timespec_ok (now c)"
  shows "milli_sleep delay c \<noteq> Stuck \<and>
    (milli_sleep delay c = Crash \<longleftrightarrow>
       \<not> clock_ok c \<or> tv_nsec (now c) + uint delay mod 1000 * 1000000 = 1000000000)"
  using milli_deadline_ok [OF assms, of delay] by (auto simp: milli_sleep_def sleep_loop_spec)

theorem milli_sleep_aborts_witness:
  "milli_sleep 500 \<lparr>now = \<lparr>tv_sec = 7, tv_nsec = 500000000\<rparr>, clock_ok = True, signals = 0\<rparr> = Crash"
  using milli_sleep_aborts [of "\<lparr>now = \<lparr>tv_sec = 7, tv_nsec = 500000000\<rparr>, clock_ok = True, signals = 0\<rparr>" 500]
  by (simp add: timespec_ok_def)

text \<open>
  \<open>timespec_to_ms\<close> is the time in milliseconds, rounded down, without wrap-around for
  times that fit.
\<close>

lemma timespec_to_ms_correct:
  assumes "0 \<le> tv_sec ts" "timespec_ok ts" "tv_sec ts * 1000 + 999 < 2 ^ 64"
  shows "uint (timespec_to_ms ts) = ns ts div 1000000"
proof -
  have n: "0 \<le> tv_nsec ts" "tv_nsec ts < 1000000000" using assms(2) by (simp_all add: timespec_ok_def)
  have q: "0 \<le> tv_nsec ts div 1000000" "tv_nsec ts div 1000000 \<le> 999" using n by auto
  have "uint (word_of_int (tv_nsec ts) div 1000000 :: 64 word) = tv_nsec ts div 1000000"
    using n by (simp add: uint_div uint_word_of_int)
  then have "uint (timespec_to_ms ts) = (tv_sec ts * 1000 + tv_nsec ts div 1000000) mod 2 ^ 64"
    by (simp add: timespec_to_ms_def uint_word_ariths uint_word_of_int mod_simps)
  also have "\<dots> = tv_sec ts * 1000 + tv_nsec ts div 1000000" using assms q by simp
  also have "\<dots> = ns ts div 1000000" by (simp add: ns_def)
  finally show ?thesis .
qed

theorem timespec_to_ms_correct_witness: "uint (timespec_to_ms \<lparr>tv_sec = 2, tv_nsec = 3999999\<rparr>) = 2003"
  using timespec_to_ms_correct [of "\<lparr>tv_sec = 2, tv_nsec = 3999999\<rparr>"] by (simp add: timespec_ok_def ns_def)

end
