(* ===== verification/Drop_Cache.thy ===== *)
theory Drop_Cache
  imports Io
begin

text \<open>
  Model of \<open>drop_cache.c\<close>: writing \<open>1\<close> to the kernel's \<open>drop_caches\<close> file, and the thread that
  does so periodically. The thread and the caller of \<open>drop_cache_thread_join\<close> are a step
  relation; a step is one action between two accesses to the lock or the condition
  variable. \<open>pthread_cond_timedwait\<close> may wake at any time (time-out, signal, spuriously).
  Shown are mutual exclusion, that the thread has ended when the join returns, and that it
  ends within a bounded number of its own steps once the join has cleared \<open>should_run\<close>,
  with at most one more write.
\<close>

section \<open>Dropping the cache\<close>

definition drop_cache :: "string \<Rightarrow> posix \<Rightarrow> int \<times> posix" where
  "drop_cache path w =
     (case sys_open path (or O_WRONLY O_CREAT) w of
        (Inl e, w1) \<Rightarrow> (- e, w1)
      | (Inr fd, w1) \<Rightarrow>
          (case safe_write fd ''1'' w1 of (ret, w2) \<Rightarrow>
             (case sys_close fd w2 of (_, w3) \<Rightarrow> (ret, w3))))"

section \<open>The thread\<close>

text \<open>Where the thread is in \<open>drop_cache_thread_run\<close>, and its creator in the join.\<close>

datatype dc_loc = Top | Locked | Waiting | Woken | Dropping | Exited | Aborted

datatype join_loc = Not_joining | Stopping | Joining | Joined

datatype lock_owner = Thread | Joiner

record drop_cache_thread =
  dc_path :: string
  should_run :: bool
  period :: int32
  dc_lock :: "lock_owner option"
  dc_loc :: dc_loc

text \<open>\<open>late\<close> counts the writes that begin after \<open>should_run\<close> was cleared.\<close>

record dc_state =
  thread :: drop_cache_thread
  joiner :: join_loc
  files :: posix
  late :: nat

definition drop_cache_thread_start ::
    "string \<Rightarrow> int32 \<Rightarrow> bool \<Rightarrow> mem \<Rightarrow> drop_cache_thread option \<times> mem" where
  "drop_cache_thread_start path per pthread_ok m =
     (case alloc m of (ok, m1) \<Rightarrow>
        if \<not> ok then (None, m1)
        else (case alloc m1 of (ok2, m2) \<Rightarrow>
          if \<not> ok2 then (None, m2)
          else if \<not> pthread_ok then (None, m2)
          else (Some \<lparr>dc_path = path, should_run = True, period = per, dc_lock = None, dc_loc = Top\<rparr>, m2)))"

text \<open>One step of \<open>drop_cache_thread_run\<close>.\<close>

inductive thread_step :: "dc_state \<Rightarrow> dc_state \<Rightarrow> bool" where
  lock_run: "dc_loc (thread s) = Top \<Longrightarrow> dc_lock (thread s) = None \<Longrightarrow> should_run (thread s) \<Longrightarrow>
    thread_step s (s\<lparr>thread := (thread s)\<lparr>dc_lock := Some Thread, dc_loc := Locked\<rparr>\<rparr>)"
| lock_stop: "dc_loc (thread s) = Top \<Longrightarrow> dc_lock (thread s) = None \<Longrightarrow> \<not> should_run (thread s) \<Longrightarrow>
    thread_step s (s\<lparr>thread := (thread s)\<lparr>dc_loc := Exited\<rparr>\<rparr>)"
| clock_fails: "dc_loc (thread s) = Locked \<Longrightarrow>
    thread_step s (s\<lparr>thread := (thread s)\<lparr>dc_loc := Aborted\<rparr>\<rparr>)"
| timedwait: "dc_loc (thread s) = Locked \<Longrightarrow>
    thread_step s (s\<lparr>thread := (thread s)\<lparr>dc_lock := None, dc_loc := Waiting\<rparr>\<rparr>)"
| wake: "dc_loc (thread s) = Waiting \<Longrightarrow> dc_lock (thread s) = None \<Longrightarrow>
    thread_step s (s\<lparr>thread := (thread s)\<lparr>dc_lock := Some Thread, dc_loc := Woken\<rparr>\<rparr>)"
| unlock: "dc_loc (thread s) = Woken \<Longrightarrow>
    thread_step s (s\<lparr>thread := (thread s)\<lparr>dc_lock := None, dc_loc := Dropping\<rparr>\<rparr>)"
| drop: "dc_loc (thread s) = Dropping \<Longrightarrow>
    thread_step s (s\<lparr>thread := (thread s)\<lparr>dc_loc := Top\<rparr>,
                     files := snd (drop_cache (dc_path (thread s)) (files s)),
                     late := late s + (if should_run (thread s) then 0 else 1)\<rparr>)"

text \<open>One step of \<open>drop_cache_thread_join\<close>.\<close>

inductive join_step :: "dc_state \<Rightarrow> dc_state \<Rightarrow> bool" where
  stop: "joiner s = Not_joining \<Longrightarrow> dc_lock (thread s) = None \<Longrightarrow>
    join_step s (s\<lparr>thread := (thread s)\<lparr>dc_lock := Some Joiner, should_run := False\<rparr>,
                   joiner := Stopping\<rparr>)"
| release: "joiner s = Stopping \<Longrightarrow>
    join_step s (s\<lparr>thread := (thread s)\<lparr>dc_lock := None\<rparr>, joiner := Joining\<rparr>)"
| joined: "joiner s = Joining \<Longrightarrow> dc_loc (thread s) = Exited \<Longrightarrow>
    join_step s (s\<lparr>joiner := Joined\<rparr>)"

inductive_simps thread_step_simps: "thread_step s s'"
inductive_simps join_step_simps: "join_step s s'"
inductive_cases thread_stepE: "thread_step s s'"
inductive_cases join_stepE: "join_step s s'"

text \<open>After an abort nothing moves any more.\<close>

definition dc_step :: "dc_state \<Rightarrow> dc_state \<Rightarrow> bool" where
  "dc_step s s' \<longleftrightarrow> dc_loc (thread s) \<noteq> Aborted \<and> (thread_step s s' \<or> join_step s s')"

definition dc_init :: "drop_cache_thread \<Rightarrow> posix \<Rightarrow> dc_state" where
  "dc_init t w = \<lparr>thread = t, joiner = Not_joining, files = w, late = 0\<rparr>"

definition started :: "drop_cache_thread \<Rightarrow> bool" where
  "started t \<longleftrightarrow> should_run t \<and> dc_lock t = None \<and> dc_loc t = Top"

inductive dc_reachable :: "drop_cache_thread \<Rightarrow> posix \<Rightarrow> dc_state \<Rightarrow> bool" for t w where
  init: "dc_reachable t w (dc_init t w)"
| step: "dc_reachable t w s \<Longrightarrow> dc_step s s' \<Longrightarrow> dc_reachable t w s'"

section \<open>The invariant\<close>

text \<open>
  The lock is held by whoever is in a critical section and by nobody else, \<open>should_run\<close> is
  cleared exactly when the join has begun, and one more write is due after that at most.
\<close>

definition dc_inv :: "dc_state \<Rightarrow> bool" where
  "dc_inv s \<longleftrightarrow>
     (dc_lock (thread s) = Some Thread \<longleftrightarrow> dc_loc (thread s) \<in> {Locked, Woken, Aborted}) \<and>
     (dc_lock (thread s) = Some Joiner \<longleftrightarrow> joiner s = Stopping) \<and>
     (should_run (thread s) \<longleftrightarrow> joiner s = Not_joining) \<and>
     (dc_loc (thread s) = Exited \<longrightarrow> joiner s \<in> {Joining, Joined}) \<and>
     (joiner s = Joined \<longrightarrow> dc_loc (thread s) = Exited) \<and>
     (dc_loc (thread s) = Locked \<longrightarrow> should_run (thread s)) \<and>
     (should_run (thread s) \<longrightarrow> late s = 0) \<and>
     late s + (if dc_loc (thread s) \<in> {Top, Exited} then 0 else 1) \<le> 1"

lemma lock_owner_rest: "x \<noteq> Some Thread \<Longrightarrow> x \<noteq> Some Joiner \<Longrightarrow> x = None"
  by (metis lock_owner.exhaust option.exhaust)

lemma join_loc_rest: "j \<noteq> Stopping \<Longrightarrow> j \<noteq> Not_joining \<Longrightarrow> j \<noteq> Joined \<Longrightarrow> j = Joining"
  by (cases j) auto

lemma dc_inv_init: "started t \<Longrightarrow> dc_inv (dc_init t w)"
  by (simp add: dc_inv_def dc_init_def started_def)

lemma dc_inv_thread: "dc_inv s \<Longrightarrow> thread_step s s' \<Longrightarrow> dc_inv s'"
  by (erule thread_stepE) (auto simp: dc_inv_def dest: join_loc_rest)

lemma dc_inv_join:
  assumes "dc_inv s" "dc_loc (thread s) \<noteq> Aborted" "join_step s s'"
  shows "dc_inv s'"
  using assms by (elim join_stepE) (auto simp: dc_inv_def)

lemma dc_reachable_inv: "dc_reachable t w s \<Longrightarrow> started t \<Longrightarrow> dc_inv s"
  by (induction rule: dc_reachable.induct)
     (auto simp: dc_inv_init dc_step_def intro: dc_inv_thread dc_inv_join)

text \<open>The steps the thread can still take once \<open>should_run\<close> is cleared.\<close>

fun steps_left :: "dc_loc \<Rightarrow> nat" where
  "steps_left Waiting = 4"
| "steps_left Woken = 3"
| "steps_left Dropping = 2"
| "steps_left Top = 1"
| "steps_left _ = 0"

lemma stopping_decreases:
  "thread_step s s' \<Longrightarrow> \<not> should_run (thread s) \<Longrightarrow> dc_inv s \<Longrightarrow>
   Suc (steps_left (dc_loc (thread s'))) = steps_left (dc_loc (thread s)) \<and>
   \<not> should_run (thread s')"
  by (erule thread_stepE) (auto simp: dc_inv_def)

text \<open>While the join waits, the thread is never blocked.\<close>

lemma joining_progress:
  assumes "dc_inv s" "joiner s = Joining" "dc_loc (thread s) \<noteq> Exited" "dc_loc (thread s) \<noteq> Aborted"
  shows "\<exists>s'. thread_step s s'"
proof (cases "dc_loc (thread s)")
  case Top
  moreover have "dc_lock (thread s) = None" "\<not> should_run (thread s)"
    using assms Top by (auto simp: dc_inv_def intro: lock_owner_rest)
  ultimately show ?thesis using lock_stop by blast
next
  case Waiting
  moreover have "dc_lock (thread s) = None"
    using assms Waiting by (auto simp: dc_inv_def intro: lock_owner_rest)
  ultimately show ?thesis using wake by blast
qed (use assms in \<open>auto intro: timedwait unlock drop\<close>)

section \<open>What a join amounts to\<close>

text \<open>
  For its caller, \<open>drop_cache_thread_join\<close> on the thread as it is when the join takes the
  lock: a thread that has not yet reached the test of \<open>should_run\<close> writes once more.
\<close>

definition drop_cache_thread_join :: "drop_cache_thread \<Rightarrow> posix \<Rightarrow> posix" where
  "drop_cache_thread_join t w =
     (if dc_loc t \<in> {Waiting, Woken, Dropping} then snd (drop_cache (dc_path t) w) else w)"

definition ended :: "dc_state \<Rightarrow> dc_state \<Rightarrow> bool" where
  "ended s s' \<longleftrightarrow> thread_step\<^sup>*\<^sup>* s s' \<and> dc_loc (thread s') = Exited \<and>
     files s' = drop_cache_thread_join (thread s) (files s)"

lemma ended_step:
  "thread_step s s1 \<Longrightarrow> ended s1 s' \<Longrightarrow>
   drop_cache_thread_join (thread s1) (files s1) = drop_cache_thread_join (thread s) (files s) \<Longrightarrow>
   ended s s'"
  by (auto simp: ended_def intro: converse_rtranclp_into_rtranclp)

lemma dc_lock_free:
  "dc_inv s \<Longrightarrow> joiner s = Joining \<Longrightarrow> dc_loc (thread s) \<in> {Top, Waiting, Dropping} \<Longrightarrow>
   dc_lock (thread s) = None"
  by (rule lock_owner_rest) (auto simp: dc_inv_def)

lemma ended_Top:
  assumes "dc_inv s" "joiner s = Joining" "dc_loc (thread s) = Top"
  shows "ended s (s\<lparr>thread := (thread s)\<lparr>dc_loc := Exited\<rparr>\<rparr>)"
  using lock_stop [of s] dc_lock_free [OF assms(1,2)] assms
  by (auto simp: ended_def drop_cache_thread_join_def dc_inv_def)

lemma join_refines:
  assumes "dc_inv s" "joiner s = Joining" "dc_loc (thread s) \<noteq> Aborted"
  shows "\<exists>s'. ended s s'"
  using assms
proof (induction "steps_left (dc_loc (thread s))" arbitrary: s rule: less_induct)
  case less
  have stop: "\<not> should_run (thread s)" using less.prems by (simp add: dc_inv_def)
  show ?case
  proof (cases "dc_loc (thread s) \<in> {Top, Exited}")
    case True
    moreover have "ended s s" if "dc_loc (thread s) = Exited"
      using that by (simp add: ended_def drop_cache_thread_join_def)
    ultimately show ?thesis using ended_Top [OF less.prems(1,2)] by blast
  next
    case False
    from joining_progress [OF less.prems(1,2) _ less.prems(3)] False
    obtain s1 where s1: "thread_step s s1" by auto
    have "joiner s1 = Joining" "dc_loc (thread s1) \<noteq> Aborted"
      "drop_cache_thread_join (thread s1) (files s1) = drop_cache_thread_join (thread s) (files s)"
      using s1 less.prems False stop
      by (auto elim!: thread_stepE simp: drop_cache_thread_join_def dc_inv_def)
    with less.hyps [of s1] stopping_decreases [OF s1 stop less.prems(1)]
      dc_inv_thread [OF less.prems(1) s1] ended_step [OF s1] show ?thesis by (metis lessI)
  qed
qed

section \<open>The properties\<close>

text \<open>
  C38. The thread and the join never hold the lock at the same time, and the lock is held by
  whoever is between its lock and unlock.
\<close>

lemma drop_cache_mutual_exclusion:
  assumes "dc_reachable t w s" "started t"
  shows "\<not> (dc_loc (thread s) \<in> {Locked, Woken} \<and> joiner s = Stopping) \<and>
    (dc_loc (thread s) \<in> {Locked, Woken} \<longrightarrow> dc_lock (thread s) = Some Thread) \<and>
    (joiner s = Stopping \<longrightarrow> dc_lock (thread s) = Some Joiner)"
  using dc_reachable_inv [OF assms] by (auto simp: dc_inv_def)

definition sample_thread :: drop_cache_thread where
  "sample_thread = \<lparr>dc_path = ''/d'', should_run = True, period = 5, dc_lock = None, dc_loc = Top\<rparr>"

lemma sample_thread_started: "started sample_thread"
  by (simp add: started_def sample_thread_def)

theorem drop_cache_mutual_exclusion_witness:
  "\<not> (dc_loc (thread (dc_init sample_thread sample_posix)) \<in> {Locked, Woken} \<and>
      joiner (dc_init sample_thread sample_posix) = Stopping)"
  using drop_cache_mutual_exclusion [OF dc_reachable.init sample_thread_started] by blast

text \<open>
  When the join returns the thread has ended; after the join has cleared \<open>should_run\<close> the
  thread starts at most one more write.
\<close>

lemma drop_cache_join_safe:
  assumes "dc_reachable t w s" "started t"
  shows "(joiner s = Joined \<longrightarrow> dc_loc (thread s) = Exited) \<and> late s \<le> 1"
  using dc_reachable_inv [OF assms] by (auto simp: dc_inv_def split: if_splits)

theorem drop_cache_join_safe_witness: "late (dc_init sample_thread sample_posix) \<le> 1"
  using drop_cache_join_safe [OF dc_reachable.init sample_thread_started] by blast

text \<open>
  C39. The join does not wait for ever: in every reachable state in which it waits and the
  process has not aborted, the thread can run on to its end, and the files are then those
  after one more write if it had not reached the test of \<open>should_run\<close>, and unchanged else.
  Its own steps are bounded: each brings it closer to the end.
\<close>

lemma drop_cache_join_ends:
  assumes "dc_reachable t w s" "started t" "joiner s = Joining" "dc_loc (thread s) \<noteq> Aborted"
  shows "(\<exists>s'. thread_step\<^sup>*\<^sup>* s s' \<and> dc_loc (thread s') = Exited \<and>
           files s' = drop_cache_thread_join (thread s) (files s)) \<and>
    (\<forall>s'. thread_step s s' \<longrightarrow> steps_left (dc_loc (thread s')) < steps_left (dc_loc (thread s)))"
proof -
  note inv = dc_reachable_inv [OF assms(1,2)]
  have "\<not> should_run (thread s)" using inv assms(3) by (simp add: dc_inv_def)
  then show ?thesis
    using join_refines [OF inv assms(3,4)] stopping_decreases [OF _ _ inv]
    by (force simp: ended_def)
qed

definition sample_joining :: dc_state where
  "sample_joining = (dc_init sample_thread sample_posix)
     \<lparr>thread := sample_thread\<lparr>should_run := False\<rparr>, joiner := Joining\<rparr>"

lemma sample_joining_reachable: "dc_reachable sample_thread sample_posix sample_joining"
proof -
  let ?s0 = "dc_init sample_thread sample_posix"
  let ?s1 = "?s0\<lparr>thread := sample_thread\<lparr>dc_lock := Some Joiner, should_run := False\<rparr>, joiner := Stopping\<rparr>"
  have "dc_step ?s0 ?s1"
    using join_step.stop [of ?s0] by (simp add: dc_step_def dc_init_def sample_thread_def)
  moreover have "dc_step ?s1 sample_joining"
    using join_step.release [of ?s1]
    by (simp add: dc_step_def dc_init_def sample_thread_def sample_joining_def)
  ultimately show ?thesis by (meson dc_reachable.intros)
qed

theorem drop_cache_join_ends_witness:
  "\<exists>s'. thread_step\<^sup>*\<^sup>* sample_joining s' \<and> dc_loc (thread s') = Exited"
  using drop_cache_join_ends [OF sample_joining_reachable sample_thread_started]
  by (auto simp: sample_joining_def sample_thread_def)

end
