(* ===== verification/Fs.thy ===== *)
theory Fs
  imports Fault_Facts Conf Pid Time Drop_Cache
begin

text \<open>
  Model of \<open>fs.c\<close>: the file system object, its creation, and the accessors through which the
  control file is read and written. An accessor is a copy of the control file in a memory
  file; releasing it replaces the faults when its contents parse.

  \<open>process\<close> collects what the functions use of their environment: the kernel's files, the
  allocator, the random numbers and the clock. The mutex of the file system is the flag
  \<open>locked\<close>: to lock it when it is held does not return.
\<close>

record process =
  os :: posix
  memory :: mem
  rnd :: rand48
  clk :: clock
  pid :: int

record kibosh_fs =
  drop_thread :: "drop_cache_thread option"
  fs_root :: string
  fs_pidfile_path :: "string option"
  control_fd :: nat
  fs_control_mode :: int32
  faults :: kibosh_faults
  cur_control_json :: string
  control_buf :: string
  locked :: bool

definition CONTROL_BUF_LEN :: nat where "CONTROL_BUF_LEN = 16384"

definition pthread_mutex_lock :: "kibosh_fs \<Rightarrow> (kibosh_fs \<Rightarrow> 'a run) \<Rightarrow> 'a run" where
  "pthread_mutex_lock fs k = (if locked fs then Stuck else k (fs\<lparr>locked := True\<rparr>))"

definition pthread_mutex_unlock :: "kibosh_fs \<Rightarrow> kibosh_fs" where
  "pthread_mutex_unlock fs = fs\<lparr>locked := False\<rparr>"

definition close_fd :: "nat \<Rightarrow> posix \<Rightarrow> posix" where
  "close_fd fd w = snd (sys_close fd w)"

section \<open>Creation\<close>

text \<open>
  \<open>kibosh_fs_free\<close>, on the members of an object that may be incomplete: the thread, the path
  of the pid file and the control file.
\<close>

definition fs_cleanup :: "drop_cache_thread option \<Rightarrow> string option \<Rightarrow> nat option \<Rightarrow> posix \<Rightarrow> posix" where
  "fs_cleanup thr pidfile fd w =
     (let w1 = (case thr of None \<Rightarrow> w | Some t \<Rightarrow> drop_cache_thread_join t w);
          w2 = (case pidfile of None \<Rightarrow> w1 | Some p \<Rightarrow> snd (remove_pidfile p w1))
      in case fd of None \<Rightarrow> w2 | Some fd \<Rightarrow> close_fd fd w2)"

definition kibosh_fs_free :: "kibosh_fs \<Rightarrow> process \<Rightarrow> process" where
  "kibosh_fs_free fs p =
     p\<lparr>os := fs_cleanup (drop_thread fs) (fs_pidfile_path fs) (Some (control_fd fs)) (os p)\<rparr>"

type_synonym 'a fs_result = "((int + 'a) \<times> process) run"

text \<open>The last part of \<open>kibosh_fs_alloc\<close>: the faults, the buffers and the first contents.\<close>

definition fs_alloc_contents ::
    "(nat \<Rightarrow> char) \<Rightarrow> kibosh_conf \<Rightarrow> string \<Rightarrow> string option \<Rightarrow> nat \<Rightarrow> process \<Rightarrow> kibosh_fs fs_result" where
  "fs_alloc_contents junk conf r pidfile fd p =
     (let failed = (\<lambda>ret m w. Ret (Inl ret, p\<lparr>memory := m, os := fs_cleanup None pidfile (Some fd) w\<rparr>)) in
      case faults_calloc (memory p) of
        (Inl ret, m1) \<Rightarrow> failed ret m1 (os p)
      | (Inr fl, m1) \<Rightarrow>
          (case alloc m1 of (ok2, m2) \<Rightarrow>
             if \<not> ok2 then failed (- ENOMEM) m2 (os p)
             else (case alloc m2 of (ok3, m3) \<Rightarrow>
               if \<not> ok3 then failed (- ENOMEM) m3 (os p)
               else (case faults_unparse junk fl m3 of
                 (Inl _, m4) \<Rightarrow> Crash
               | (Inr None, m4) \<Rightarrow> failed (- ENOMEM) m4 (os p)
               | (Inr (Some buf), m4) \<Rightarrow>
                   if CONTROL_BUF_LEN \<le> length buf then failed (- ENAMETOOLONG) m4 (os p)
                   else (case safe_write fd buf (os p) of (ret, w) \<Rightarrow>
                     if ret < 0 then failed ret m4 w
                     else Ret (Inr \<lparr>drop_thread = None, fs_root = r, fs_pidfile_path = pidfile,
                                    control_fd = fd, fs_control_mode = control_mode conf,
                                    faults = fl, cur_control_json = buf, control_buf = [],
                                    locked = False\<rparr>,
                               p\<lparr>memory := m4, os := w\<rparr>))))))"

definition fs_alloc_control ::
    "(nat \<Rightarrow> char) \<Rightarrow> kibosh_conf \<Rightarrow> string \<Rightarrow> string option \<Rightarrow> process \<Rightarrow> kibosh_fs fs_result" where
  "fs_alloc_control junk conf r pidfile p =
     (case memfd_create (os p) of
        (Inl ret, w) \<Rightarrow> Ret (Inl ret, p\<lparr>os := fs_cleanup None pidfile None w\<rparr>)
      | (Inr fd, w) \<Rightarrow> fs_alloc_contents junk conf r pidfile fd (p\<lparr>os := w\<rparr>))"

text \<open>
  \<open>kibosh_fs_alloc\<close>. A failure of \<open>pthread_mutex_init\<close> is reported with the value of \<open>errno\<close>,
  as for \<open>access\<close>. A configuration without target does not pass \<open>kibosh_conf_reify\<close>.
\<close>

definition kibosh_fs_alloc :: "(nat \<Rightarrow> char) \<Rightarrow> kibosh_conf \<Rightarrow> process \<Rightarrow> kibosh_fs fs_result" where
  "kibosh_fs_alloc junk conf p =
     (case alloc (memory p) of (ok, m) \<Rightarrow>
        if \<not> ok then Ret (Inl (- ENOMEM), p\<lparr>memory := m\<rparr>)
        else (case sys_status (os p) of
          (Inl e, w) \<Rightarrow> Ret (Inl (- e), p\<lparr>memory := m, os := w\<rparr>)
        | (Inr _, w) \<Rightarrow>
            (case target_path conf of
               None \<Rightarrow> Crash
             | Some t \<Rightarrow>
                 (case strdup t m of
                    (None, m1) \<Rightarrow> Ret (Inl (- ENOMEM), p\<lparr>memory := m1, os := w\<rparr>)
                  | (Some r, m1) \<Rightarrow>
                      (case sys_status w of
                         (Inl e, w1) \<Rightarrow> Ret (Inl (- e), p\<lparr>memory := m1, os := w1\<rparr>)
                       | (Inr _, w1) \<Rightarrow>
                           (case pidfile_path conf of
                              None \<Rightarrow> fs_alloc_control junk conf r None (p\<lparr>memory := m1, os := w1\<rparr>)
                            | Some pf \<Rightarrow>
                                (case strdup pf m1 of
                                   (None, m2) \<Rightarrow> Ret (Inl (- ENOMEM), p\<lparr>memory := m2, os := w1\<rparr>)
                                 | (Some pf', m2) \<Rightarrow>
                                     (case write_pidfile (pid p) pf' w1 of (ret, w2) \<Rightarrow>
                                        if ret < 0 then
                                          Ret (Inl ret, p\<lparr>memory := m2, os := fs_cleanup None (Some pf') None w2\<rparr>)
                                        else fs_alloc_control junk conf r (Some pf')
                                               (p\<lparr>memory := m2, os := w2\<rparr>)))))))))"

section \<open>Accessors\<close>

definition kibosh_fs_accessor_fd_alloc ::
    "kibosh_fs \<Rightarrow> bool \<Rightarrow> process \<Rightarrow> ((int + nat) \<times> kibosh_fs \<times> process) run" where
  "kibosh_fs_accessor_fd_alloc fs populate p =
     (case memfd_create (os p) of
        (Inl ret, w) \<Rightarrow> Ret (Inl ret, fs, p\<lparr>os := w\<rparr>)
      | (Inr new_fd, w) \<Rightarrow>
          if \<not> populate then Ret (Inr new_fd, fs, p\<lparr>os := w\<rparr>)
          else pthread_mutex_lock fs (\<lambda>fs.
            let failed = (\<lambda>ret w. Ret (Inl ret, pthread_mutex_unlock fs, p\<lparr>os := close_fd new_fd w\<rparr>)) in
            case sys_rewind (control_fd fs) w of
              (Inl e, w1) \<Rightarrow> failed (- e) w1
            | (Inr _, w1) \<Rightarrow>
                (case duplicate_fd new_fd (control_fd fs) w1 of
                   None \<Rightarrow> Stuck
                 | Some (ret, w2) \<Rightarrow>
                     if ret < 0 then failed ret w2
                     else (case sys_rewind new_fd w2 of
                             (Inl e, w3) \<Rightarrow> failed (- e) w3
                           | (Inr _, w3) \<Rightarrow>
                               Ret (Inr new_fd, pthread_mutex_unlock fs, p\<lparr>os := w3\<rparr>)))))"

text \<open>\<open>kibosh_fs_control_stat\<close>; of the \<open>stat\<close> structure only the size is kept.\<close>

definition kibosh_fs_control_stat :: "kibosh_fs \<Rightarrow> process \<Rightarrow> ((int + nat) \<times> kibosh_fs \<times> process) run" where
  "kibosh_fs_control_stat fs p =
     pthread_mutex_lock fs (\<lambda>fs.
       case sys_fstat (control_fd fs) (os p) of
         (Inl e, w) \<Rightarrow> Ret (Inl (- e), pthread_mutex_unlock fs, p\<lparr>os := w\<rparr>)
       | (Inr n, w) \<Rightarrow> Ret (Inr n, pthread_mutex_unlock fs, p\<lparr>os := w\<rparr>))"

text \<open>\<open>fcntl(fd, F_GETFL, 0)\<close>, \<open>-1\<close> for a bad descriptor.\<close>

definition fcntl_getfl :: "nat \<Rightarrow> posix \<Rightarrow> int32" where
  "fcntl_getfl fd w = (case fd_lookup fd w of None \<Rightarrow> - 1 | Some d \<Rightarrow> d_flags d)"

text \<open>
  \<open>kibosh_fs_accessor_fd_release\<close>. After a failed read \<open>control_buf\<close> holds what was read so
  far, which nothing looks at; it is left as it was.
\<close>

definition kibosh_fs_accessor_fd_release ::
    "kibosh_fs \<Rightarrow> nat \<Rightarrow> process \<Rightarrow> (int \<times> kibosh_fs \<times> process) run" where
  "kibosh_fs_accessor_fd_release fs fd p =
     (if and (fcntl_getfl fd (os p)) O_ACCMODE = O_RDONLY
      then Ret (0, fs, p\<lparr>os := close_fd fd (os p)\<rparr>)
      else pthread_mutex_lock fs (\<lambda>fs.
        case sys_rewind fd (os p) of
          (Inl e, w) \<Rightarrow> Ret (- e, pthread_mutex_unlock fs, p\<lparr>os := close_fd fd w\<rparr>)
        | (Inr _, w) \<Rightarrow>
            (case read_string_from_fd fd CONTROL_BUF_LEN w of
               (Inl ret, w1) \<Rightarrow> Ret (ret, pthread_mutex_unlock fs, p\<lparr>os := close_fd fd w1\<rparr>)
             | (Inr str, w1) \<Rightarrow>
                 let fs1 = fs\<lparr>control_buf := str\<rparr> in
                 if strcmp_eq (cur_control_json fs1) (control_buf fs1)
                 then Ret (0, pthread_mutex_unlock fs1, p\<lparr>os := close_fd fd w1\<rparr>)
                 else (case faults_parse (cstr (control_buf fs1)) (memory p) of
                         (Inl Segv, m) \<Rightarrow> Crash
                       | (Inl (Errno ret), m) \<Rightarrow>
                           Ret (ret, pthread_mutex_unlock fs1, p\<lparr>os := close_fd fd w1, memory := m\<rparr>)
                       | (Inr new_faults, m) \<Rightarrow>
                           let fs2 = fs1\<lparr>cur_control_json := cstr (control_buf fs1), faults := new_faults,
                                         control_fd := fd\<rparr>
                           in Ret (0, pthread_mutex_unlock fs2,
                                   p\<lparr>os := close_fd (control_fd fs1) w1, memory := m\<rparr>)))))"

section \<open>The calls without errors\<close>

lemma sys_rewind_smooth:
  assumes "smooth w" "fd_lookup fd w = Some d"
  obtains w' where "sys_rewind fd w = (Inr (), w')" "smooth w'" "inodes w' = inodes w" "names w' = names w"
    "fds w' = (fds w)[fd := Some (d\<lparr>d_off := 0\<rparr>)]"
proof -
  obtain x w1 where x: "next_outcome w = (x, w1)" by (cases "next_outcome w")
  note sm = next_outcome_smooth [OF x assms(1)] and fr = next_outcome_frame [OF x]
  have "sys_rewind fd w = (Inr (), set_fd fd (d\<lparr>d_off := 0\<rparr>) w1)"
    using assms x sm by (auto simp: sys_rewind_def split: outcome.splits)
  then show thesis using that sm fr by (simp add: smooth_def set_fd_def)
qed

lemma memfd_create_smooth:
  assumes "smooth w"
  obtains fd w' where "memfd_create w = (Inr fd, w')" "smooth w'" "inodes w' = inodes w @ [[]]"
    "names w' = names w" "fd_lookup fd w = None"
    "fd_lookup fd w' = Some \<lparr>d_inode = length (inodes w), d_off = 0, d_flags = O_RDWR\<rparr>"
    "\<forall>fd'. fd' \<noteq> fd \<longrightarrow> fd_lookup fd' w' = fd_lookup fd' w"
proof -
  obtain x w1 where x: "next_outcome w = (x, w1)" by (cases "next_outcome w")
  note sm = next_outcome_smooth [OF x assms] and fr = next_outcome_frame [OF x]
  obtain i w2 where n: "new_inode w1 = (i, w2)" by (cases "new_inode w1")
  obtain fd w3 where f: "install_fd i O_RDWR w2 = (fd, w3)" by (cases "install_fd i O_RDWR w2")
  note inst = install_fd_lookup [OF f]
  have w2: "i = length (inodes w)" "inodes w2 = inodes w @ [[]]" "names w2 = names w"
    "\<And>fd. fd_lookup fd w2 = fd_lookup fd w" "sched w2 = sched w1"
    using n fr by (auto simp: new_inode_def fd_lookup_def)
  obtain y w4 where y: "next_outcome w3 = (y, w4)" by (cases "next_outcome w3")
  have sm3: "smooth w3" using sm inst w2 by (simp add: smooth_def)
  note sm4 = next_outcome_smooth [OF y sm3] and fr4 = next_outcome_frame [OF y]
  have "memfd_create w = (Inr fd, w4)"
    using x n f y sm sm4 by (auto simp: memfd_create_def Let_def split: outcome.splits)
  then show thesis using that [of fd w4] sm4 fr4 inst w2 by simp
qed

lemma close_fd_smooth:
  assumes "smooth w" "fd_lookup fd w = Some d"
  shows "smooth (close_fd fd w) \<and> inodes (close_fd fd w) = inodes w \<and>
    fds (close_fd fd w) = (fds w)[fd := None]"
  by (rule sys_close_smooth [OF assms]) (simp add: close_fd_def)

lemma fd_lookup_update:
  "fd < length (fds w) \<Longrightarrow> fds w' = (fds w)[fd := x] \<Longrightarrow>
   fd_lookup fd' w' = (if fd' = fd then x else fd_lookup fd' w)"
  by (auto simp: fd_lookup_def)

lemma fd_lookup_less: "fd_lookup fd w = Some d \<Longrightarrow> fd < length (fds w)"
  by (auto simp: fd_lookup_def split: if_splits)

text \<open>What reading the whole of an accessor gives.\<close>

definition accessor_text :: "posix \<Rightarrow> nat \<Rightarrow> string" where
  "accessor_text w fd = take (CONTROL_BUF_LEN - 1) (fd_content w fd)"

lemma read_accessor:
  assumes "smooth w" "fd_lookup fd w = Some d"
  obtains w1 w2 d2 where "sys_rewind fd w = (Inr (), w1)"
    "read_string_from_fd fd CONTROL_BUF_LEN w1 = (Inr (accessor_text w fd), w2)" "smooth w2"
    "fd_lookup fd w2 = Some d2" "d_inode d2 = d_inode d" "inodes w2 = inodes w"
    "\<forall>fd'. fd' \<noteq> fd \<longrightarrow> fd_lookup fd' w2 = fd_lookup fd' w"
proof -
  from sys_rewind_smooth [OF assms] obtain w1 where
    w1: "sys_rewind fd w = (Inr (), w1)" "smooth w1" "inodes w1 = inodes w"
      "fds w1 = (fds w)[fd := Some (d\<lparr>d_off := 0\<rparr>)]" by metis
  note l1 = fd_lookup_update [OF fd_lookup_less [OF assms(2)] w1(4)]
  let ?c = "CONTROL_BUF_LEN - 1"
  have l: "fd_lookup fd w1 = Some (d\<lparr>d_off := 0\<rparr>)" using l1 by simp
  obtain w2 d2 where r: "safe_read fd ?c w1 = (Inr (take ?c (unread w1 fd)), w2)"
    "fd_lookup fd w2 = Some d2" "only_fd fd w1 w2"
    by (rule safe_read_benign [OF smooth_benign [OF w1(2)] l, of ?c])
  have "smooth w2"
    using safe_read_loop_sched r(1) w1(2) by (fastforce simp: smooth_def safe_read_def)
  moreover have "take ?c (unread w1 fd) = accessor_text w fd"
    using l1 w1(3) assms(2) by (simp add: unread_def accessor_text_def fd_content_def content_def)
  moreover have "d_inode d2 = d_inode d"
    using r(2,3) l1 [of fd] unfolding only_fd_def by auto
  ultimately show thesis
    using that [OF w1(1), of w2 d2] r w1(3) l1 by (auto simp: read_string_from_fd_def only_fd_def)
qed

section \<open>Releasing an accessor\<close>

lemmas release_defs = kibosh_fs_accessor_fd_release_def pthread_mutex_lock_def pthread_mutex_unlock_def

text \<open>
  The lock is taken at most once and released on every path: an operation that begins with
  the lock free ends with it free, and none of them gets stuck on it.
\<close>

lemma accessor_release_lock:
  assumes "\<not> locked fs"
  shows "kibosh_fs_accessor_fd_release fs fd p \<noteq> Stuck \<and>
    (\<forall>ret fs' p'. kibosh_fs_accessor_fd_release fs fd p = Ret (ret, fs', p') \<longrightarrow> \<not> locked fs')"
  using assms
  by (auto simp: release_defs Let_def split: prod.splits sum.splits c_error.splits)

definition sample_fs :: kibosh_fs where
  "sample_fs = \<lparr>drop_thread = None, fs_root = ''/t'', fs_pidfile_path = None, control_fd = 1,
     fs_control_mode = 384, faults = [], cur_control_json = [], control_buf = [], locked = False\<rparr>"

definition sample_process :: process where
  "sample_process = \<lparr>os = sample_posix, memory = [], rnd = 1,
     clk = \<lparr>now = \<lparr>tv_sec = 0, tv_nsec = 0\<rparr>, clock_ok = True, signals = 0\<rparr>, pid = 42\<rparr>"

theorem accessor_release_lock_witness: "kibosh_fs_accessor_fd_release sample_fs 1 sample_process \<noteq> Stuck"
  using accessor_release_lock [of sample_fs 1 sample_process] by (simp add: sample_fs_def)

text \<open>
  C26. A release that reports an error leaves the faults, the control file and the current
  text as they were, whatever the kernel and the allocator did.
\<close>

lemma accessor_release_error:
  assumes "kibosh_fs_accessor_fd_release fs fd p = Ret (ret, fs', p')" "ret \<noteq> 0"
  shows "faults fs' = faults fs \<and> cur_control_json fs' = cur_control_json fs \<and>
    control_fd fs' = control_fd fs"
  using assms
  by (auto simp: release_defs Let_def split: if_splits prod.splits sum.splits c_error.splits)

lemma sample_release_error:
  "kibosh_fs_accessor_fd_release sample_fs 7 sample_process =
     Ret (- EBADF, sample_fs, sample_process)"
  by (simp add: release_defs fcntl_getfl_def sys_rewind_def fd_lookup_def sample_process_def
      sample_posix_def sample_fs_def close_fd_def sys_close_def open_flag_defs)

theorem accessor_release_error_witness: "faults sample_fs = []"
  using accessor_release_error [OF sample_release_error] by (simp add: EBADF_def sample_fs_def)

text \<open>The text of an accessor, read as a C string, is what is compared and parsed.\<close>

definition control_text :: "posix \<Rightarrow> nat \<Rightarrow> string" where
  "control_text w fd = cstr (accessor_text w fd)"

text \<open>A release without errors of the kernel; \<open>w\<close> is the state after the text was read.\<close>

definition released :: "kibosh_fs \<Rightarrow> nat \<Rightarrow> process \<Rightarrow> posix \<Rightarrow> (int \<times> kibosh_fs \<times> process) run" where
  "released fs fd p w =
       (let fs1 = fs\<lparr>control_buf := accessor_text (os p) fd\<rparr> in
        if strcmp_eq (cur_control_json fs) (accessor_text (os p) fd)
        then Ret (0, fs1, p\<lparr>os := close_fd fd w\<rparr>)
        else case faults_parse (control_text (os p) fd) (memory p) of
          (Inl Segv, m) \<Rightarrow> Crash
        | (Inl (Errno ret), m) \<Rightarrow> Ret (ret, fs1, p\<lparr>os := close_fd fd w, memory := m\<rparr>)
        | (Inr fl, m) \<Rightarrow> Ret (0, fs1\<lparr>cur_control_json := control_text (os p) fd, faults := fl, control_fd := fd\<rparr>,
                            p\<lparr>os := close_fd (control_fd fs) w, memory := m\<rparr>))"

lemma release_reads:
  assumes "smooth (os p)" "fd_lookup fd (os p) = Some d" "and (d_flags d) O_ACCMODE \<noteq> O_RDONLY"
    "\<not> locked fs"
  obtains w d2 where "smooth w" "fd_lookup fd w = Some d2" "d_inode d2 = d_inode d"
    "inodes w = inodes (os p)" "\<forall>fd'. fd' \<noteq> fd \<longrightarrow> fd_lookup fd' w = fd_lookup fd' (os p)"
    "kibosh_fs_accessor_fd_release fs fd p = released fs fd p w"
proof -
  from read_accessor [OF assms(1,2)] obtain w1 w d2 where
    a: "sys_rewind fd (os p) = (Inr (), w1)"
      "read_string_from_fd fd CONTROL_BUF_LEN w1 = (Inr (accessor_text (os p) fd), w)" "smooth w"
      "fd_lookup fd w = Some d2" "d_inode d2 = d_inode d" "inodes w = inodes (os p)"
      "\<forall>fd'. fd' \<noteq> fd \<longrightarrow> fd_lookup fd' w = fd_lookup fd' (os p)" .
  show thesis
    by (rule that [OF a(3,4,5,6,7)])
       (use assms a(1,2) in \<open>auto simp: release_defs fcntl_getfl_def Let_def control_text_def
          released_def
          split: prod.splits sum.splits c_error.splits\<close>)
qed

text \<open>
  C11. Releasing a writable accessor whose text differs from the current one and parses
  installs the faults of that text: they replace the old list, the text becomes the current
  one, the accessor becomes the control file and the old control file is closed.
\<close>

lemma accessor_release_installs:
  assumes "smooth (os p)" "fd_lookup fd (os p) = Some d" "and (d_flags d) O_ACCMODE \<noteq> O_RDONLY"
    and "\<not> locked fs" "fd_lookup (control_fd fs) (os p) = Some d0" "fd \<noteq> control_fd fs"
    and "\<not> strcmp_eq (cur_control_json fs) (accessor_text (os p) fd)"
    and "faults_parse (control_text (os p) fd) (memory p) = (Inr fl, m)"
  shows "\<exists>fs' p'. kibosh_fs_accessor_fd_release fs fd p = Ret (0, fs', p') \<and> faults fs' = fl \<and>
    cur_control_json fs' = control_text (os p) fd \<and> control_fd fs' = fd \<and> \<not> locked fs' \<and>
    fd_lookup (control_fd fs) (os p') = None \<and> fd_content (os p') fd = fd_content (os p) fd"
proof -
  from release_reads [OF assms(1-4)] obtain w d2 where
    w: "smooth w" "fd_lookup fd w = Some d2" "d_inode d2 = d_inode d" "inodes w = inodes (os p)"
      "\<forall>fd'. fd' \<noteq> fd \<longrightarrow> fd_lookup fd' w = fd_lookup fd' (os p)" and
    r0: "kibosh_fs_accessor_fd_release fs fd p = released fs fd p w" .
  have r: "kibosh_fs_accessor_fd_release fs fd p =
       Ret (0, fs\<lparr>control_buf := accessor_text (os p) fd, cur_control_json := control_text (os p) fd,
                  faults := fl, control_fd := fd\<rparr>,
            p\<lparr>os := close_fd (control_fd fs) w, memory := m\<rparr>)"
    using assms(7,8) by (simp add: r0 released_def)
  have l: "fd_lookup (control_fd fs) w = Some d0" using w(5) assms(5,6) by simp
  note c = close_fd_smooth [OF w(1) l]
  have "fd_lookup f (close_fd (control_fd fs) w) = (if f = control_fd fs then None else fd_lookup f w)" for f
    using c by (intro fd_lookup_update [OF fd_lookup_less [OF l]]) simp
  then have "fd_lookup (control_fd fs) (close_fd (control_fd fs) w) = None"
    "fd_content (close_fd (control_fd fs) w) fd = fd_content (os p) fd"
    using c w assms(2,6) by (simp_all add: fd_content_def content_def)
  with r show ?thesis using assms(4) by simp
qed

definition sample_text :: string where
  \<open>sample_text = ''{"faults":[{"type":"unwritable","code":-5}]}''\<close>

definition sample_open :: "string \<Rightarrow> process" where
  "sample_open txt = sample_process\<lparr>os := \<lparr>inodes = [txt, []], names = [],
     fds = [Some \<lparr>d_inode = 0, d_off = 0, d_flags = 2\<rparr>, Some \<lparr>d_inode = 1, d_off = 0, d_flags = 2\<rparr>],
     sched = [Short 3]\<rparr>\<rparr>"

lemma sample_open_facts:
  "smooth (os (sample_open txt))"
  "fd_lookup 0 (os (sample_open txt)) = Some \<lparr>d_inode = 0, d_off = 0, d_flags = 2\<rparr>"
  "fd_lookup 1 (os (sample_open txt)) = Some \<lparr>d_inode = 1, d_off = 0, d_flags = 2\<rparr>"
  "accessor_text (os (sample_open txt)) 0 = take 16383 txt" "memory (sample_open txt) = []"
  by (simp_all add: smooth_def sample_open_def sample_process_def fd_lookup_def accessor_text_def
      fd_content_def content_def CONTROL_BUF_LEN_def)

theorem accessor_release_installs_witness:
  "\<exists>fs' p'. kibosh_fs_accessor_fd_release sample_fs 0 (sample_open sample_text) = Ret (0, fs', p') \<and>
     faults fs' = [Unwritable \<lparr>fprefix = ''/'', fsuffix = [], code = - 5\<rparr>]"
proof -
  have t: "take 16383 sample_text = sample_text" "cstr sample_text = sample_text"
    by (simp_all add: sample_text_def cstr_def)
  have parse: "faults_parse (control_text (os (sample_open sample_text)) 0) (memory (sample_open sample_text)) =
      (Inr [Unwritable \<lparr>fprefix = ''/'', fsuffix = [], code = - 5\<rparr>], [])"
    using faults_parse_example by (simp add: control_text_def sample_open_facts t) (simp add: sample_text_def)
  have diff: "\<not> strcmp_eq (cur_control_json sample_fs) (accessor_text (os (sample_open sample_text)) 0)"
    using t by (simp add: sample_open_facts sample_fs_def strcmp_eq_def) (simp add: sample_text_def cstr_def)
  have fl: "and (d_flags \<lparr>d_inode = 0, d_off = 0, d_flags = 2\<rparr>) O_ACCMODE \<noteq> O_RDONLY"
    by (simp add: open_flag_defs)
  have fs: "\<not> locked sample_fs" "fd_lookup (control_fd sample_fs) (os (sample_open sample_text)) =
      Some \<lparr>d_inode = 1, d_off = 0, d_flags = 2\<rparr>" "0 \<noteq> control_fd sample_fs"
    using sample_open_facts(3) by (simp_all add: sample_fs_def)
  from accessor_release_installs [OF sample_open_facts(1,2) fl fs diff parse] show ?thesis by blast
qed

text \<open>
  C27. Releasing an accessor whose text does not parse keeps the old faults, closes the accessor
  and reports the error; when the text is the current one nothing happens but the close.
\<close>

lemma accessor_release_rejects:
  assumes "smooth (os p)" "fd_lookup fd (os p) = Some d" "and (d_flags d) O_ACCMODE \<noteq> O_RDONLY"
    and "\<not> locked fs"
    and "strcmp_eq (cur_control_json fs) (accessor_text (os p) fd) \<and> e = 0 \<or>
      \<not> strcmp_eq (cur_control_json fs) (accessor_text (os p) fd) \<and>
      faults_parse (control_text (os p) fd) (memory p) = (Inl (Errno e), m)"
  shows "\<exists>fs' p'. kibosh_fs_accessor_fd_release fs fd p = Ret (e, fs', p') \<and> faults fs' = faults fs \<and>
    cur_control_json fs' = cur_control_json fs \<and> control_fd fs' = control_fd fs \<and> \<not> locked fs' \<and>
    fd_lookup fd (os p') = None"
proof -
  from release_reads [OF assms(1-4)] obtain w d2 where
    w: "smooth w" "fd_lookup fd w = Some d2" and
    r: "kibosh_fs_accessor_fd_release fs fd p = released fs fd p w" .
  have "fd_lookup fd (close_fd fd w) = None"
    using close_fd_smooth [OF w] fd_lookup_less [OF w(2)] fd_lookup_update [of fd w "close_fd fd w" None fd]
    by simp
  with assms(4,5) show ?thesis by (elim disjE conjE) (simp_all add: r released_def)
qed

theorem accessor_release_rejects_witness:
  "\<exists>fs' p'. kibosh_fs_accessor_fd_release (sample_fs\<lparr>cur_control_json := ''x''\<rparr>) 0 (sample_open []) =
     Ret (- EIO, fs', p')"
proof -
  have "faults_parse [] [] = (Inl (Errno (- EIO)), [])" by code_simp
  then show ?thesis
    using accessor_release_rejects [where p = "sample_open []" and fs = "sample_fs\<lparr>cur_control_json := ''x''\<rparr>" and
        e = "- EIO", OF sample_open_facts(1,2)]
    by (fastforce simp: sample_fs_def sample_open_facts open_flag_defs strcmp_eq_def control_text_def cstr_def)
qed

section \<open>Opening an accessor\<close>

lemma unlock_lock: "\<not> locked fs \<Longrightarrow> pthread_mutex_unlock (fs\<lparr>locked := True\<rparr>) = fs"
  by (cases fs) (simp add: pthread_mutex_unlock_def)

text \<open>
  C28. A populated accessor is a fresh descriptor, open for reading and writing at offset 0, on
  a file of its own that has the contents of the control file, which itself is unchanged;
  the lock is free again.
\<close>

lemma accessor_alloc_populates:
  assumes "smooth (os p)" "fd_lookup (control_fd fs) (os p) = Some d0" "d_inode d0 < length (inodes (os p))"
    and "\<not> locked fs"
  shows "\<exists>fd p'. kibosh_fs_accessor_fd_alloc fs True p = Ret (Inr fd, fs, p') \<and>
    fd_lookup fd (os p) = None \<and>
    fd_lookup fd (os p') = Some \<lparr>d_inode = length (inodes (os p)), d_off = 0, d_flags = O_RDWR\<rparr> \<and>
    fd_content (os p') fd = fd_content (os p) (control_fd fs) \<and>
    fd_content (os p') (control_fd fs) = fd_content (os p) (control_fd fs)"
proof -
  let ?c = "control_fd fs" and ?i = "length (inodes (os p))"
  from memfd_create_smooth [OF assms(1)] obtain fd w1 where
    w1: "memfd_create (os p) = (Inr fd, w1)" "smooth w1" "inodes w1 = inodes (os p) @ [[]]"
      "fd_lookup fd (os p) = None" "fd_lookup fd w1 = Some \<lparr>d_inode = ?i, d_off = 0, d_flags = O_RDWR\<rparr>"
      "\<forall>fd'. fd' \<noteq> fd \<longrightarrow> fd_lookup fd' w1 = fd_lookup fd' (os p)" by metis
  have ne: "fd \<noteq> ?c" using w1(4) assms(2) by auto
  have c1: "fd_lookup ?c w1 = Some d0" using w1(6) ne assms(2) by auto
  from sys_rewind_smooth [OF w1(2) c1] obtain w2 where
    w2: "sys_rewind ?c w1 = (Inr (), w2)" "smooth w2" "inodes w2 = inodes w1"
      "fds w2 = (fds w1)[?c := Some (d0\<lparr>d_off := 0\<rparr>)]" by metis
  note l2 = fd_lookup_update [OF fd_lookup_less [OF c1] w2(4)]
  let ?dd = "\<lparr>d_inode = ?i, d_off = 0, d_flags = O_RDWR\<rparr>"
  have dist: "distinct_fds w2 fd ?dd ?c (d0\<lparr>d_off := 0\<rparr>)"
    using ne l2 w1(3,5) w2(3) assms(3) by (simp add: distinct_fds_def usable_def)
  have un: "unread w2 ?c = fd_content (os p) ?c"
    using l2 w1(3) w2(3) assms(2,3) by (simp add: unread_def fd_content_def content_def nth_append)
  from duplicate_fd_copies [OF smooth_benign [OF w2(2)] dist] obtain w3 where
    w3: "duplicate_fd fd ?c w2 = Some (0, w3)" "set (sched w3) \<subseteq> set (sched w2)"
      "copied fd ?dd ?c (d0\<lparr>d_off := 0\<rparr>) (fd_content (os p) ?c) w2 w3" using un by auto
  have sm3: "smooth w3" using w2(2) w3(2) by (auto simp: smooth_def)
  obtain d3 where d3: "fd_lookup fd w3 = Some d3" "d_inode d3 = ?i" "d_flags d3 = O_RDWR"
    using w3(3) by (auto simp: copied_def seek_by_def)
  from sys_rewind_smooth [OF sm3 d3(1)] obtain w4 where
    w4: "sys_rewind fd w3 = (Inr (), w4)" "inodes w4 = inodes w3"
      "fds w4 = (fds w3)[fd := Some (d3\<lparr>d_off := 0\<rparr>)]" by metis
  note l4 = fd_lookup_update [OF fd_lookup_less [OF d3(1)] w4(3)]
  have ino: "inodes w4 = inodes (os p) @ [fd_content (os p) ?c]"
    using w3(3) w4(2) w2(3) w1(3) by (simp add: copied_def splice_def content_def list_update_append)
  have "\<exists>k. fd_lookup ?c w3 = Some (d0\<lparr>d_off := k\<rparr>)"
    using w3(3) by (auto simp: copied_def seek_by_def)
  then have "fd_content w4 ?c = fd_content (os p) ?c"
    using l4 ne ino assms(2,3) by (auto simp: fd_content_def content_def nth_append)
  moreover have l: "fd_lookup fd w4 = Some ?dd" using l4 d3 by (cases d3) simp
  moreover have "fd_content w4 fd = fd_content (os p) ?c" using ino by (simp add: fd_content_def l content_def)
  moreover have "kibosh_fs_accessor_fd_alloc fs True p = Ret (Inr fd, fs, p\<lparr>os := w4\<rparr>)"
    using w1(1) w2(1) w3(1) w4(1) assms(4) unlock_lock [OF assms(4)]
    by (simp add: kibosh_fs_accessor_fd_alloc_def pthread_mutex_lock_def)
  ultimately show ?thesis using w1(4) by simp
qed

theorem accessor_alloc_populates_witness:
  "\<exists>fd p'. kibosh_fs_accessor_fd_alloc (sample_fs\<lparr>control_fd := 0\<rparr>) True (sample_open ''{}'') =
     Ret (Inr fd, sample_fs\<lparr>control_fd := 0\<rparr>, p') \<and> fd_content (os p') fd = ''{}''"
  using accessor_alloc_populates [where p = "sample_open ''{}''" and fs = "sample_fs\<lparr>control_fd := 0\<rparr>",
      OF sample_open_facts(1)]
    sample_open_facts(2) [of "''{}''"]
  by (fastforce simp: sample_fs_def sample_open_def sample_process_def fd_content_def content_def fd_lookup_def)

section \<open>Creating the file system object\<close>

definition empty_faults_json :: string where
  \<open>empty_faults_json = ''{"faults":[]}''\<close>

lemma faults_unparse_Nil: "faults_unparse junk [] [] = (Inr (Some empty_faults_json), [])"
proof -
  have "join_strs junk [''{'' @ jq ''faults'' @ '':['', '']}''] [] =
      (Inr (Some (concat [''{'' @ jq ''faults'' @ '':['', '']}''])), [])"
    by (subst join_strs_concat) (simp_all add: jq_def)
  then show ?thesis
    by (simp add: faults_unparse_def strdup_def empty_faults_json_def jq_def)
qed

lemma sys_status_smooth:
  assumes "smooth w"
  obtains w' where "sys_status w = (Inr (), w')" "smooth w'" "inodes w' = inodes w"
    "names w' = names w" "fds w' = fds w"
proof -
  obtain x w1 where x: "next_outcome w = (x, w1)" by (cases "next_outcome w")
  from next_outcome_smooth [OF x assms] next_outcome_frame [OF x] x that show thesis
    by (cases x) (auto simp: sys_status_def)
qed

definition fresh_fs :: "string \<Rightarrow> string option \<Rightarrow> kibosh_conf \<Rightarrow> nat \<Rightarrow> kibosh_fs" where
  "fresh_fs r pidfile conf fd =
     \<lparr>drop_thread = None, fs_root = r, fs_pidfile_path = pidfile, control_fd = fd,
      fs_control_mode = control_mode conf, faults = [], cur_control_json = empty_faults_json,
      control_buf = [], locked = False\<rparr>"

lemma posix_ok_lookups:
  assumes "posix_ok w" "names w' = names w" "inodes w' = inodes w @ xs" "fd_lookup fd w' = Some d" "d_inode d < length (inodes w')"
    and "\<forall>fd'. fd' \<noteq> fd \<longrightarrow> fd_lookup fd' w' = fd_lookup fd' w"
  shows "posix_ok w'"
proof -
  have "d_inode e < length (inodes w')" if "Some e \<in> set (fds w')" for e
  proof -
    from that obtain i where "i < length (fds w')" "fds w' ! i = Some e" by (auto simp: in_set_conv_nth)
    then have "fd_lookup i w' = Some e" by (simp add: fd_lookup_def)
    with assms(4,5,6) posix_ok_fd [OF assms(1), of i e] assms(3) show ?thesis by (cases "i = fd") auto
  qed
  moreover have "\<forall>(p, i) \<in> set (names w'). i < length (inodes w')" using assms(1,2,3) by (fastforce simp: posix_ok_def)
  ultimately show ?thesis by (simp add: posix_ok_def)
qed

lemma fs_alloc_control_ok:
  assumes "smooth (os p)" "posix_ok (os p)" "memory p = []"
  shows "\<exists>fd w. fs_alloc_control junk conf r pidfile p = Ret (Inr (fresh_fs r pidfile conf fd), p\<lparr>memory := [], os := w\<rparr>) \<and>
    fd_content w fd = empty_faults_json \<and> names w = names (os p) \<and> smooth w \<and> posix_ok w"
proof -
  from memfd_create_smooth [OF assms(1)] obtain fd w1 where
    w1: "memfd_create (os p) = (Inr fd, w1)" "smooth w1" "inodes w1 = inodes (os p) @ [[]]"
      "names w1 = names (os p)"
      "fd_lookup fd w1 = Some \<lparr>d_inode = length (inodes (os p)), d_off = 0, d_flags = O_RDWR\<rparr>"
      "\<forall>fd'. fd' \<noteq> fd \<longrightarrow> fd_lookup fd' w1 = fd_lookup fd' (os p)" by metis
  let ?d = "\<lparr>d_inode = length (inodes (os p)), d_off = 0, d_flags = O_RDWR\<rparr>"
  have u: "usable w1 fd ?d" using w1 by (simp add: usable_def)
  from safe_write_benign [OF smooth_benign [OF w1(2)] u, of empty_faults_json] obtain w2 where
    w2: "safe_write fd empty_faults_json w1 = (0, w2)" "wrote fd ?d empty_faults_json w1 w2" .
  have "posix_ok w1" using posix_ok_lookups [OF assms(2) w1(4,3,5)] w1(3,6) by simp
  then have ok: "posix_ok w2" "smooth w2" using wrote_ok [OF w2(2) _ u] wrote_smooth [OF w2(1) u w1(2)] by blast+
  have "fd_content w2 fd = empty_faults_json"
    using wrote_content [OF w2(2) u] wrote_fd_lookup [OF w2(2) u] w1(3)
    by (simp add: fd_content_def content_def splice_def)
  moreover have "\<not> CONTROL_BUF_LEN \<le> length empty_faults_json"
    by (simp add: CONTROL_BUF_LEN_def empty_faults_json_def)
  ultimately show ?thesis
    using w1(1,4) w2 assms(3) ok
    by (auto simp: fs_alloc_control_def fs_alloc_contents_def Let_def faults_calloc_def
        faults_unparse_Nil fresh_fs_def wrote_def)
qed

lemma fs_alloc_fresh:
  assumes "smooth (os p)" "posix_ok (os p)" "memory p = []" "target_path conf = Some t"
  shows "\<exists>fd w. kibosh_fs_alloc junk conf p = Ret (Inr (fresh_fs t (pidfile_path conf) conf fd), p\<lparr>memory := [], os := w\<rparr>) \<and>
    fd_content w fd = empty_faults_json \<and> smooth w \<and> posix_ok w \<and>
    (\<forall>pf. pidfile_path conf = Some pf \<longrightarrow> map_of (names w) pf \<noteq> None)"
proof -
  from sys_status_smooth [OF assms(1)] obtain w1 where
    w1: "sys_status (os p) = (Inr (), w1)" "smooth w1" "inodes w1 = inodes (os p)"
      "names w1 = names (os p)" "fds w1 = fds (os p)" .
  from sys_status_smooth [OF w1(2)] obtain w2 where
    w2: "sys_status w1 = (Inr (), w2)" "smooth w2" "inodes w2 = inodes w1" "names w2 = names w1"
      "fds w2 = fds w1" .
  have ok2: "posix_ok w2" using assms(2) w1 w2 by (simp add: posix_ok_def)
  show ?thesis
  proof (cases "pidfile_path conf")
    case None
    then show ?thesis
      using fs_alloc_control_ok [of "p\<lparr>memory := [], os := w2\<rparr>" junk conf t None] w1(1) w2(1,2) ok2 assms(3,4)
      by (auto simp: kibosh_fs_alloc_def strdup_def)
  next
    case (Some pf)
    let ?s = "take 127 (fmt_d (pid p) @ [CHR 0x0A])"
    from write_string_to_file_ok [OF w2(2) ok2, of pf ?s] obtain w3 i where
      w3: "write_string_to_file pf ?s w2 = (0, w3)" "smooth w3" "posix_ok w3" "map_of (names w3) pf = Some i" by metis
    then have "write_pidfile (pid p) pf w2 = (0, w3)" by (simp add: write_pidfile_def)
    moreover obtain fd w where
      "fs_alloc_control junk conf t (Some pf) (p\<lparr>memory := [], os := w3\<rparr>) = Ret (Inr (fresh_fs t (Some pf) conf fd), p\<lparr>memory := [], os := w\<rparr>)"
      "fd_content w fd = empty_faults_json" "names w = names w3" "smooth w" "posix_ok w"
      using fs_alloc_control_ok [of "p\<lparr>memory := [], os := w3\<rparr>" junk conf t "Some pf"] w3 by auto
    ultimately show ?thesis
      using w1(1) w2(1) w3(4) assms(3,4) Some
      by (intro exI [of _ fd] exI [of _ w]) (simp add: kibosh_fs_alloc_def strdup_def)
  qed
qed

text \<open>
  When memory suffices and no call fails, \<open>kibosh_fs_alloc\<close> makes a file system without
  faults whose control file holds the empty fault list as JSON, whose lock is free, and
  whose pid file, if one is configured, holds the process identifier.
\<close>

lemma kibosh_fs_alloc_ok:
  assumes "smooth (os p)" "posix_ok (os p)" "memory p = []" "target_path conf = Some t"
  shows "\<exists>fs p'. kibosh_fs_alloc junk conf p = Ret (Inr fs, p') \<and> faults fs = [] \<and> \<not> locked fs \<and>
    fs_root fs = t \<and> cur_control_json fs = empty_faults_json \<and>
    fd_content (os p') (control_fd fs) = empty_faults_json \<and>
    (\<forall>pf. pidfile_path conf = Some pf \<longrightarrow> map_of (names (os p')) pf \<noteq> None)"
  using fs_alloc_fresh [OF assms, of junk] by (auto simp: fresh_fs_def)

theorem kibosh_fs_alloc_ok_witness:
  "\<exists>fs p'. kibosh_fs_alloc (\<lambda>_. NUL) sample_conf (sample_process\<lparr>os := sample_posix\<lparr>sched := []\<rparr>\<rparr>) =
     Ret (Inr fs, p') \<and> faults fs = []"
  using kibosh_fs_alloc_ok [of "sample_process\<lparr>os := sample_posix\<lparr>sched := []\<rparr>\<rparr>" sample_conf "''/t''" "\<lambda>_. NUL"]
  by (auto simp: smooth_def posix_ok_def sample_process_def sample_posix_def sample_conf_def)

section \<open>Descriptors on the error paths\<close>

definition same_fds :: "posix \<Rightarrow> posix \<Rightarrow> bool" where
  "same_fds w w' \<longleftrightarrow> (\<forall>fd. fd_lookup fd w' = fd_lookup fd w)"

definition other_fds :: "nat \<Rightarrow> posix \<Rightarrow> posix \<Rightarrow> bool" where
  "other_fds fd w w' \<longleftrightarrow> (\<forall>fd'. fd' \<noteq> fd \<longrightarrow> fd_lookup fd' w' = fd_lookup fd' w)"

lemma same_fds_refl: "same_fds w w"
  by (simp add: same_fds_def)

lemma same_fds_trans: "same_fds a b \<Longrightarrow> same_fds b c \<Longrightarrow> same_fds a c"
  by (simp add: same_fds_def)

lemma other_fds_trans: "other_fds fd a b \<Longrightarrow> other_fds fd b c \<Longrightarrow> other_fds fd a c"
  by (simp add: other_fds_def)

lemma next_outcome_same: "next_outcome w = (x, w') \<Longrightarrow> same_fds w w'"
  by (simp add: same_fds_def next_outcome_frame)

lemma sys_write_other: "sys_write fd data w = (r, w') \<Longrightarrow> other_fds fd w w'"
  by (auto simp: sys_write_def other_fds_def Let_def set_fd_def fd_lookup_def next_outcome_frame
      split: option.splits prod.splits outcome.splits)

lemma safe_write_other: "safe_write fd b w = (r, w') \<Longrightarrow> other_fds fd w w'"
proof (induction fd b w arbitrary: r w' rule: safe_write.induct)
  case (1 fd b w)
  obtain q w1 where q: "sys_write fd b w = (q, w1)" by (cases "sys_write fd b w")
  note o = sys_write_other [OF q]
  show ?case
    using "1.prems" "1.IH" [OF _ q [symmetric]] q o other_fds_trans [OF o]
    by (cases q) (auto simp: safe_write.simps [of fd b w] other_fds_def split: if_splits)
qed

text \<open>A descriptor that was not open before is closed again: the table is as before.\<close>

lemma closed_again:
  assumes "fd_lookup fd w = None" "other_fds fd w w1"
  shows "same_fds w (close_fd fd w1)"
proof (cases "fd_lookup fd w1")
  case None
  then have "close_fd fd w1 = w1" by (simp add: close_fd_def sys_close_def)
  with None assms show ?thesis unfolding same_fds_def other_fds_def by metis
next
  case (Some d)
  obtain x w2 where x: "next_outcome w1 = (x, w2)" by (cases "next_outcome w1")
  have "close_fd fd w1 = w2\<lparr>fds := (fds w2)[fd := None]\<rparr>"
    using Some x by (auto simp: close_fd_def sys_close_def split: outcome.splits)
  then have "fds (close_fd fd w1) = (fds w1)[fd := None]" using next_outcome_frame [OF x] by simp
  note l = fd_lookup_update [OF fd_lookup_less [OF Some] this]
  show ?thesis using assms unfolding same_fds_def other_fds_def l by metis
qed

lemma install_fd_fresh:
  assumes "install_fd i fl w0 = (fd, w')" "fds w0 = fds w"
  shows "fd_lookup fd w = None" "other_fds fd w w'"
proof -
  have "fd_lookup f w0 = fd_lookup f w" for f using assms(2) by (simp add: fd_lookup_def)
  then show "fd_lookup fd w = None" "other_fds fd w w'"
    using install_fd_lookup(2,3) [OF assms(1)] by (simp_all add: other_fds_def)
qed

lemma sys_open_error: "sys_open path fl w = (Inl e, w') \<Longrightarrow> same_fds w w'"
  by (auto simp: sys_open_def Let_def dest: next_outcome_same
      split: prod.splits outcome.splits option.splits if_splits)

lemma sys_open_fresh:
  assumes "sys_open path fl w = (Inr fd, w')"
  shows "fd_lookup fd w = None \<and> other_fds fd w w'"
proof -
  obtain x w1 where x: "next_outcome w = (x, w1)" by (cases "next_outcome w")
  have "\<exists>i w0. install_fd i fl w0 = (fd, w') \<and> fds w0 = fds w1"
    using assms x
    by (cases x; cases "map_of (names w1) path")
       (auto simp: sys_open_def Let_def new_inode_def split: prod.splits if_splits intro!: exI)
  then show ?thesis using next_outcome_frame(3) [OF x] install_fd_fresh by metis
qed

lemma write_string_to_file_fds: "same_fds w (snd (write_string_to_file path str w))"
proof -
  obtain q w1 where o: "sys_open path (or O_WRONLY (or O_CREAT O_TRUNC)) w = (q, w1)"
    by (cases "sys_open path (or O_WRONLY (or O_CREAT O_TRUNC)) w")
  show ?thesis
  proof (cases q)
    case (Inl e)
    with o sys_open_error show ?thesis by (auto simp: write_string_to_file_def)
  next
    case (Inr fd)
    obtain r w2 where s: "safe_write fd str w1 = (r, w2)" by (cases "safe_write fd str w1")
    have "snd (write_string_to_file path str w) = close_fd fd w2"
      using o Inr s by (auto simp: write_string_to_file_def close_fd_def split: prod.splits sum.splits)
    then show ?thesis
      using closed_again sys_open_fresh [of path _ w fd w1] o Inr other_fds_trans safe_write_other [OF s]
      by metis
  qed
qed

lemma remove_pidfile_fds: "same_fds w (snd (remove_pidfile path w))"
proof -
  obtain x w1 where x: "next_outcome w = (x, w1)" by (cases "next_outcome w")
  from next_outcome_frame [OF x] x show ?thesis
    by (auto simp: remove_pidfile_def sys_unlink_def same_fds_def fd_lookup_def split: outcome.splits)
qed

lemma sys_status_fds: "same_fds w (snd (sys_status w))"
  using next_outcome_same by (auto simp: sys_status_def split: prod.splits outcome.splits)

lemma memfd_create_fds:
  "memfd_create w = (Inl e, w') \<Longrightarrow> same_fds w w'"
  "memfd_create w = (Inr fd, w') \<Longrightarrow> fd_lookup fd w = None \<and> other_fds fd w w'"
proof -
  obtain x w1 where x: "next_outcome w = (x, w1)" by (cases "next_outcome w")
  obtain i w2 where n: "new_inode w1 = (i, w2)" by (cases "new_inode w1")
  obtain fd0 w3 where f: "install_fd i O_RDWR w2 = (fd0, w3)" by (cases "install_fd i O_RDWR w2")
  obtain y w4 where y: "next_outcome w3 = (y, w4)" by (cases "next_outcome w3")
  have "fds w2 = fds w" using n next_outcome_frame [OF x] by (auto simp: new_inode_def)
  note fr = install_fd_fresh [OF f this]
  have o4: "other_fds fd0 w w4" using fr(2) next_outcome_frame [OF y] by (simp add: other_fds_def)
  show "memfd_create w = (Inl e, w') \<Longrightarrow> same_fds w w'"
    using x n f y next_outcome_same [OF x] closed_again [OF fr(1) o4]
    by (auto simp: memfd_create_def Let_def close_fd_def split: outcome.splits prod.splits)
  show "memfd_create w = (Inr fd, w') \<Longrightarrow> fd_lookup fd w = None \<and> other_fds fd w w'"
    using x n f y fr(1) o4
    by (auto simp: memfd_create_def Let_def split: outcome.splits prod.splits)
qed

lemma fs_cleanup_fds:
  assumes "\<And>fd. fdo = Some fd \<Longrightarrow> fd_lookup fd w = None \<and> other_fds fd w w'"
    "fdo = None \<Longrightarrow> same_fds w w'"
  shows "same_fds w (fs_cleanup None pidfile fdo w')"
proof -
  define w2 where "w2 = (case pidfile of None \<Rightarrow> w' | Some p \<Rightarrow> snd (remove_pidfile p w'))"
  have s: "same_fds w' w2"
    using remove_pidfile_fds by (simp add: w2_def same_fds_def split: option.splits)
  show ?thesis
  proof (cases fdo)
    case None
    with assms(2) s show ?thesis by (simp add: fs_cleanup_def w2_def [symmetric] same_fds_def)
  next
    case (Some fd)
    have "other_fds fd w w2" using assms(1) [OF Some] s by (simp add: same_fds_def other_fds_def)
    with closed_again assms(1) [OF Some] Some show ?thesis
      by (simp add: fs_cleanup_def w2_def [symmetric])
  qed
qed

lemma fs_alloc_contents_fds:
  assumes "fs_alloc_contents junk conf r pidfile fd p = Ret (Inl e, p')"
    "fd_lookup fd w = None" "other_fds fd w (os p)"
  shows "same_fds w (os p')"
proof -
  have "\<exists>w1. os p' = fs_cleanup None pidfile (Some fd) w1 \<and> other_fds fd w w1"
    using assms(1,3) other_fds_trans [OF assms(3) safe_write_other]
    by (auto simp: fs_alloc_contents_def Let_def
        split: prod.splits sum.splits if_splits option.splits)
  then show ?thesis using fs_cleanup_fds [of "Some fd" w] assms(2) by auto
qed

lemma fs_alloc_control_fds:
  assumes "fs_alloc_control junk conf r pidfile p = Ret (Inl e, p')"
  shows "same_fds (os p) (os p')"
proof (cases "memfd_create (os p)")
  case (Pair q w1)
  show ?thesis
  proof (cases q)
    case (Inl e0)
    then have "os p' = fs_cleanup None pidfile None w1"
      using assms Pair by (auto simp: fs_alloc_control_def)
    with fs_cleanup_fds [of None "os p" w1] memfd_create_fds(1) Pair Inl show ?thesis by auto
  next
    case (Inr fd)
    have "fs_alloc_contents junk conf r pidfile fd (p\<lparr>os := w1\<rparr>) = Ret (Inl e, p')"
      using assms Pair Inr by (simp add: fs_alloc_control_def)
    from fs_alloc_contents_fds [OF this, of "os p"] memfd_create_fds(2) Pair Inr show ?thesis by auto
  qed
qed

text \<open>
  C29. No descriptor leaks when \<open>kibosh_fs_alloc\<close> fails, at whichever call and for whatever
  reason: the open descriptors are those from before.
\<close>

lemma kibosh_fs_alloc_no_leak:
  assumes "kibosh_fs_alloc junk conf p = Ret (Inl e, p')"
  shows "\<forall>fd. fd_lookup fd (os p') = fd_lookup fd (os p)"
proof -
  have st: "same_fds w w'" if "sys_status w = (q, w')" for q w w' using sys_status_fds [of w] that by simp
  have pf: "same_fds w w'" if "write_pidfile i pf w = (q, w')" for i pf w q w'
    using write_string_to_file_fds that by (auto simp: write_pidfile_def split: prod.splits if_splits) (metis snd_conv)+
  have cl: "same_fds w (fs_cleanup None a None w')" if "same_fds w w'" for w w' a
    using fs_cleanup_fds [of None w w' a] that by simp
  have ctl: "same_fds w (os p')"
    if "fs_alloc_control junk conf r a (p\<lparr>memory := m, os := w\<rparr>) = Ret (Inl e, p')" for r a m w
    using fs_alloc_control_fds [OF that] by simp
  have "same_fds (os p) (os p')"
    using assms
    by (auto simp: kibosh_fs_alloc_def same_fds_refl
        split: prod.splits sum.splits option.splits if_splits dest!: st pf ctl)
       (auto intro: same_fds_trans cl)
  then show ?thesis by (simp add: same_fds_def)
qed

lemma sample_alloc_fails:
  "kibosh_fs_alloc (\<lambda>_. NUL) sample_conf (sample_process\<lparr>memory := [False]\<rparr>) =
     Ret (Inl (- ENOMEM), sample_process\<lparr>memory := []\<rparr>)"
  by (simp add: kibosh_fs_alloc_def sample_process_def)

theorem kibosh_fs_alloc_no_leak_witness:
  "fd_lookup 0 (os (sample_process\<lparr>memory := []\<rparr>)) = fd_lookup 0 (os (sample_process\<lparr>memory := [False]\<rparr>))"
  using kibosh_fs_alloc_no_leak [OF sample_alloc_fails] by blast

end
