(* ===== verification/File_Ops.thy ===== *)
theory File_Ops
  imports Fs
begin

text \<open>
  Model of \<open>file.c\<close>: the handlers FUSE calls on open files. Each handler is a function of the
  file system object, the open file and the process. The member \<open>fh\<close> of FUSE's file
  information, a pointer to the open file, is the file itself; the printing of debug
  messages is left out.
\<close>

datatype kibosh_file_type = KIBOSH_FILE_TYPE_NORMAL | KIBOSH_FILE_TYPE_CONTROL

record kibosh_file =
  file_type :: kibosh_file_type
  file_fd :: nat
  file_path :: string

definition KIBOSH_CONTROL_PATH :: string where
  "KIBOSH_CONTROL_PATH = ''/kibosh_control''"

definition AS_FUSE_ERR :: "int \<Rightarrow> int" where
  "AS_FUSE_ERR x = (if x > 0 then - x else x)"

definition PATH_MAX :: nat where "PATH_MAX = 4096"

text \<open>\<open>snprintf(bpath, sizeof(bpath), "%s%s", fs->root, path)\<close>.\<close>

definition backing_path :: "kibosh_fs \<Rightarrow> string \<Rightarrow> string" where
  "backing_path fs path = take (PATH_MAX - 1) (fs_root fs @ path)"

type_synonym handler = "kibosh_fs \<Rightarrow> process \<Rightarrow> (int \<times> kibosh_fs \<times> process) run"
type_synonym opener = "kibosh_fs \<Rightarrow> process \<Rightarrow> (int \<times> kibosh_file option \<times> kibosh_fs \<times> process) run"

section \<open>Opening\<close>

text \<open>
  \<open>kibosh_open_control_file_impl\<close>. When no accessor can be had, the file is freed and its
  member \<open>fd\<close> is returned: \<open>stale\<close> is what that memory holds then.
\<close>

definition kibosh_open_control_file_impl :: "int \<Rightarrow> string \<Rightarrow> int32 \<Rightarrow> opener" where
  "kibosh_open_control_file_impl stale path fl fs p =
     (case alloc (memory p) of (ok, m) \<Rightarrow>
        if \<not> ok then Ret (- ENOMEM, None, fs, p\<lparr>memory := m\<rparr>)
        else (case kibosh_fs_accessor_fd_alloc fs (and fl O_TRUNC = 0) (p\<lparr>memory := m\<rparr>) of
          Crash \<Rightarrow> Crash
        | Stuck \<Rightarrow> Stuck
        | Ret (Inl _, fs', p') \<Rightarrow> Ret (stale, None, fs', p')
        | Ret (Inr fd, fs', p') \<Rightarrow>
            Ret (0, Some \<lparr>file_type = KIBOSH_FILE_TYPE_CONTROL, file_fd = fd, file_path = path\<rparr>, fs', p')))"

definition kibosh_open_normal_file_impl :: "string \<Rightarrow> int32 \<Rightarrow> opener" where
  "kibosh_open_normal_file_impl path fl fs p =
     (case alloc (memory p) of (ok, m) \<Rightarrow>
        if \<not> ok then Ret (- ENOMEM, None, fs, p\<lparr>memory := m\<rparr>)
        else (case sys_open (backing_path fs path) fl (os p) of
          (Inl e, w) \<Rightarrow> Ret (- e, None, fs, p\<lparr>memory := m, os := w\<rparr>)
        | (Inr fd, w) \<Rightarrow>
            let file = \<lparr>file_type = KIBOSH_FILE_TYPE_NORMAL, file_fd = fd, file_path = path\<rparr> in
            if and fl O_CREAT = O_CREAT then
              (case sys_status w of
                 (Inl e, w1) \<Rightarrow> Ret (- e, None, fs, p\<lparr>memory := m, os := close_fd fd w1\<rparr>)
               | (Inr _, w1) \<Rightarrow> Ret (0, Some file, fs, p\<lparr>memory := m, os := w1\<rparr>))
            else Ret (0, Some file, fs, p\<lparr>memory := m, os := w\<rparr>)))"

definition kibosh_open_impl :: "int \<Rightarrow> string \<Rightarrow> int32 \<Rightarrow> opener" where
  "kibosh_open_impl stale path fl0 fs p =
     (let fl = (if and fl0 O_ACCMODE = 0 then or fl0 O_RDONLY else fl0) in
      case (if strcmp_eq KIBOSH_CONTROL_PATH path
            then kibosh_open_control_file_impl stale path fl fs p
            else kibosh_open_normal_file_impl path fl fs p) of
        Ret (ret, file, fs', p') \<Rightarrow> Ret (AS_FUSE_ERR ret, file, fs', p')
      | Crash \<Rightarrow> Crash
      | Stuck \<Rightarrow> Stuck)"

definition kibosh_open :: "int \<Rightarrow> string \<Rightarrow> int32 \<Rightarrow> opener" where
  "kibosh_open stale path fl = kibosh_open_impl stale path fl"

definition kibosh_create :: "int \<Rightarrow> string \<Rightarrow> int32 \<Rightarrow> opener" where
  "kibosh_create stale path fl = kibosh_open_impl stale path fl"

section \<open>Reading\<close>

text \<open>The loop of \<open>kibosh_read\<close>; \<open>ret\<close> is the result of the last \<open>pread\<close>.\<close>

lemma sys_pread_length: "sys_pread fd n off w = (Inr data, w') \<Longrightarrow> length data \<le> n"
  using amount_le by (fastforce simp: sys_pread_def split: option.splits prod.splits outcome.splits)

function read_loop :: "nat \<Rightarrow> nat \<Rightarrow> nat \<Rightarrow> nat \<Rightarrow> int \<Rightarrow> string \<Rightarrow> posix \<Rightarrow> int \<times> string \<times> posix" where
  "read_loop fd n offset off ret buf w =
     (if off < n then
        (case sys_pread fd (n - off) (offset + off) w of
           (Inl e, w') \<Rightarrow> (- e, buf, w')
         | (Inr data, w') \<Rightarrow>
             if data = [] then (int off, buf, w')
             else read_loop fd n offset (off + length data) (int (length data)) (splice buf off data) w')
      else (ret, buf, w))"
  by pat_completeness auto
termination
  by (relation "measure (\<lambda>(fd, n, offset, off, ret, buf, w). n - off)")
     (auto simp flip: length_greater_0_conv)

declare read_loop.simps [simp del]

definition sleep_if :: "uint32 \<Rightarrow> process \<Rightarrow> process run" where
  "sleep_if delay p =
     (if delay > 0 then
        (case milli_sleep delay (clk p) of
           Ret c \<Rightarrow> Ret (p\<lparr>clk := c\<rparr>) | Crash \<Rightarrow> Crash | Stuck \<Rightarrow> Stuck)
      else Ret p)"

text \<open>
  \<open>kibosh_read\<close>: the result and the buffer of \<open>n\<close> bytes. The fault that applies may count
  down, so the list of faults is updated.
\<close>

definition kibosh_read ::
    "kibosh_file \<Rightarrow> string \<Rightarrow> nat \<Rightarrow> nat \<Rightarrow> kibosh_fs \<Rightarrow> process \<Rightarrow>
     (int \<times> string \<times> kibosh_fs \<times> process) run" where
  "kibosh_read file buf n offset fs p =
     (case read_loop (file_fd file) n offset 0 0 buf (os p) of (ret, buf1, w) \<Rightarrow>
        let p1 = p\<lparr>os := w\<rparr> in
        if ret \<le> 0 then Ret (ret, buf1, fs, p1)
        else pthread_mutex_lock fs (\<lambda>fs.
          case find_first_fault (faults fs) (file_path file) ''read'' (rnd p1) of
            (None, r1) \<Rightarrow> Ret (ret, buf1, pthread_mutex_unlock fs, p1\<lparr>rnd := r1\<rparr>)
          | (Some i, r1) \<Rightarrow>
              (case apply_read_fault (faults fs ! i) buf1 (nat ret) r1 of
                 (ret2, buf2, delay, fault, r2) \<Rightarrow>
                   (case sleep_if delay (p1\<lparr>rnd := r2\<rparr>) of
                      Ret p2 \<Rightarrow> Ret (ret2, buf2, pthread_mutex_unlock (fs\<lparr>faults := (faults fs)[i := fault]\<rparr>), p2)
                    | Crash \<Rightarrow> Crash
                    | Stuck \<Rightarrow> Stuck))))"

section \<open>Writing\<close>

lemma sys_pwrite_length:
  "sys_pwrite fd data off w = (Inr n, w') \<Longrightarrow> data \<noteq> [] \<Longrightarrow> 0 < n \<and> n \<le> length data"
  by (auto simp: sys_pwrite_def Let_def amount_pos split: option.splits prod.splits outcome.splits)

text \<open>The loop of \<open>kibosh_write\<close>: the number of bytes written when it ends.\<close>

function write_loop :: "nat \<Rightarrow> string \<Rightarrow> nat \<Rightarrow> nat \<Rightarrow> posix \<Rightarrow> nat \<times> posix" where
  "write_loop fd buf offset off w =
     (if off < length buf then
        (case sys_pwrite fd (drop off buf) (offset + off) w of
           (Inl e, w') \<Rightarrow> (off, w')
         | (Inr k, w') \<Rightarrow> write_loop fd buf offset (off + k) w')
      else (off, w))"
  by pat_completeness auto
termination
  by (relation "measure (\<lambda>(fd, buf, offset, off, w). length buf - off)")
     (auto dest!: sys_pwrite_length [OF sym])

declare write_loop.simps [simp del]

text \<open>\<open>kibosh_write\<close> of the \<open>n\<close> bytes at \<open>buf\<close>.\<close>

definition kibosh_write :: "kibosh_file \<Rightarrow> string \<Rightarrow> nat \<Rightarrow> nat \<Rightarrow> handler" where
  "kibosh_write file buf n offset fs p =
     pthread_mutex_lock fs (\<lambda>fs.
       let (ret, data, delay, fs1, p1) =
         (case find_first_fault (faults fs) (file_path file) ''write'' (rnd p) of
            (None, r1) \<Rightarrow> (0, buf, 0, fs, p\<lparr>rnd := r1\<rparr>)
          | (Some i, r1) \<Rightarrow>
              (case apply_write_fault (faults fs ! i) buf n r1 (memory p) of
                 (ret, data, dyn, delay, fault, r2, m) \<Rightarrow>
                   (ret, data, delay, fs\<lparr>faults := (faults fs)[i := fault]\<rparr>, p\<lparr>rnd := r2, memory := m\<rparr>)));
           fs2 = pthread_mutex_unlock fs1
       in if ret < 0 then Ret (ret, fs2, p1)
          else (case sleep_if delay p1 of
                  Crash \<Rightarrow> Crash
                | Stuck \<Rightarrow> Stuck
                | Ret p2 \<Rightarrow>
                    (case write_loop (file_fd file) (take n data) offset 0 (os p2) of (off, w) \<Rightarrow>
                       Ret (int off, fs2, p2\<lparr>os := w\<rparr>))))"

section \<open>The other handlers\<close>

definition on_fd :: "(posix \<Rightarrow> (int + unit) \<times> posix) \<Rightarrow> handler" where
  "on_fd call fs p =
     (case call (os p) of
        (Inl e, w) \<Rightarrow> Ret (AS_FUSE_ERR (- e), fs, p\<lparr>os := w\<rparr>)
      | (Inr _, w) \<Rightarrow> Ret (AS_FUSE_ERR 0, fs, p\<lparr>os := w\<rparr>))"

text \<open>What \<open>fallocate\<close> does to a file depends on its mode; the call is an argument.\<close>

definition kibosh_fallocate ::
    "(nat \<Rightarrow> int32 \<Rightarrow> int \<Rightarrow> int \<Rightarrow> unit sys) \<Rightarrow> int32 \<Rightarrow> int \<Rightarrow> int \<Rightarrow> kibosh_file \<Rightarrow> handler" where
  "kibosh_fallocate fallocate md offset len file = on_fd (fallocate (file_fd file) md offset len)"

definition kibosh_fgetattr :: "kibosh_file \<Rightarrow> kibosh_fs \<Rightarrow> process \<Rightarrow> (int \<times> nat option \<times> kibosh_fs \<times> process) run" where
  "kibosh_fgetattr file fs p =
     (case sys_fstat (file_fd file) (os p) of
        (Inl e, w) \<Rightarrow> Ret (AS_FUSE_ERR (- e), None, fs, p\<lparr>os := w\<rparr>)
      | (Inr st, w) \<Rightarrow> Ret (AS_FUSE_ERR 0, Some st, fs, p\<lparr>os := w\<rparr>))"

definition kibosh_flush :: "kibosh_file \<Rightarrow> handler" where
  "kibosh_flush file fs p = Ret (AS_FUSE_ERR 0, fs, p)"

definition kibosh_fsync :: "bool \<Rightarrow> kibosh_file \<Rightarrow> handler" where
  "kibosh_fsync datasync file =
     (if datasync then on_fd (sys_fsync (file_fd file)) else on_fd (sys_fsync (file_fd file)))"

definition kibosh_ftruncate :: "nat \<Rightarrow> kibosh_file \<Rightarrow> handler" where
  "kibosh_ftruncate len file = on_fd (sys_ftruncate (file_fd file) len)"

definition kibosh_release :: "kibosh_file \<Rightarrow> handler" where
  "kibosh_release file fs p =
     (case file_type file of
        KIBOSH_FILE_TYPE_NORMAL \<Rightarrow> on_fd (sys_close (file_fd file)) fs p
      | KIBOSH_FILE_TYPE_CONTROL \<Rightarrow>
          (case kibosh_fs_accessor_fd_release fs (file_fd file) p of
             Ret (ret, fs', p') \<Rightarrow> Ret (AS_FUSE_ERR ret, fs', p')
           | Crash \<Rightarrow> Crash
           | Stuck \<Rightarrow> Stuck))"

definition kibosh_file_type_str :: "kibosh_file_type \<Rightarrow> string" where
  "kibosh_file_type_str ty =
     (case ty of KIBOSH_FILE_TYPE_NORMAL \<Rightarrow> ''normal'' | KIBOSH_FILE_TYPE_CONTROL \<Rightarrow> ''control'')"

end
