(* ===== verification/Meta.thy ===== *)
theory Meta
  imports File_Ops
begin

text \<open>
  Model of \<open>meta.c\<close>: the handlers FUSE calls on paths and on open directories. The calls they
  make change the directory tree of the kernel, of which the sources see nothing but results:
  the kernel is an argument of the handlers, a record with one function per group of calls,
  over a state \<open>'w\<close> of its own. Which state that is, and what a call does to it, is said
  where it matters: \<open>Dir_Tree\<close> has a kernel with a directory tree.

  The printing of debug messages is left out, except that two handlers allocate a copy of an
  attribute for them.
\<close>

section \<open>The kernel\<close>

text \<open>\<open>struct stat\<close> and \<open>struct statvfs\<close>, of which the handlers read nothing.\<close>

record stat_buf =
  st_size :: nat
  st_mode :: uint32
  st_uid :: uint32
  st_gid :: uint32

type_synonym statvfs_buf = "nat \<times> nat"
type_synonym time_pair = "int64 \<times> int64"

text \<open>The calls that only report success.\<close>

datatype request =
    Chmod string uint32 | Chown string uint32 uint32 | Link string string | Mkdir string uint32
  | Mknod string uint32 int64 | Removexattr string string | Rename string string | Rmdir string
  | Setxattr string string string int32 | Symlink string string | Truncate string int64
  | Unlink string | Utime string "(int64 \<times> int64) option" | Utimensat string time_pair time_pair
  | Fsync int | Fdatasync int | Closedir nat | Seekdir nat int64

text \<open>The calls that fill a buffer of a given size.\<close>

datatype query = Getxattr string string | Listxattr string | Readlink string

text \<open>
  A call returns \<open>Inl e\<close> when it returns \<open>-1\<close> with \<open>errno = e\<close>; \<open>readdir\<close> returns \<open>Inr None\<close> at
  the end. A query returns its result and the bytes it stores at the start of the buffer.
\<close>

record 'w kernel =
  perform :: "request \<Rightarrow> 'w \<Rightarrow> (int + unit) \<times> 'w"
  fetch :: "query \<Rightarrow> nat \<Rightarrow> 'w \<Rightarrow> (int + nat \<times> string) \<times> 'w"
  stat_path :: "string \<Rightarrow> 'w \<Rightarrow> (int + stat_buf) \<times> 'w"
  statvfs_path :: "string \<Rightarrow> 'w \<Rightarrow> (int + statvfs_buf) \<times> 'w"
  open_dir :: "string \<Rightarrow> 'w \<Rightarrow> (int + nat) \<times> 'w"
  read_dir :: "nat \<Rightarrow> 'w \<Rightarrow> (int + string option) \<times> 'w"
  tell_dir :: "nat \<Rightarrow> 'w \<Rightarrow> int64"
  dir_fd :: "nat \<Rightarrow> 'w \<Rightarrow> int"

section \<open>Directories and attributes\<close>

text \<open>\<open>struct kibosh_dir\<close>; the stream \<open>dp\<close> is a number.\<close>

record kibosh_dir =
  dp :: nat
  dir_path :: string

definition kibosh_dir_alloc :: "string \<Rightarrow> nat \<Rightarrow> mem \<Rightarrow> kibosh_dir option \<times> mem" where
  "kibosh_dir_alloc path d m =
     (case alloc m of (ok, m') \<Rightarrow> (if ok then Some \<lparr>dp = d, dir_path = path\<rparr> else None, m'))"

text \<open>\<open>alloc_zterm_xattr\<close>: a copy of the value, ended by a NUL; \<open>None\<close> is a null pointer.\<close>

definition alloc_zterm_xattr :: "string option \<Rightarrow> nat \<Rightarrow> mem \<Rightarrow> string option \<times> mem" where
  "alloc_zterm_xattr str len m =
     (case alloc m of (ok, m') \<Rightarrow>
        (if \<not> ok then None
         else case str of
           None \<Rightarrow> Some (''(NULL)'')
         | Some s \<Rightarrow> if len = 0 then Some ''(empty)'' else Some (cstr (take len s)), m'))"

text \<open>The pattern \<open>if (call < 0) ret = -errno; return AS_FUSE_ERR(ret)\<close>.\<close>

definition status :: "(int + 'a) \<times> 'w \<Rightarrow> int \<times> 'w" where
  "status r = (case r of (Inl e, w) \<Rightarrow> (AS_FUSE_ERR (- e), w) | (Inr _, w) \<Rightarrow> (AS_FUSE_ERR 0, w))"

section \<open>Handlers on paths\<close>

type_synonym 'w path_handler = "'w kernel \<Rightarrow> kibosh_fs \<Rightarrow> 'w \<Rightarrow> int \<times> 'w"

definition kibosh_chmod :: "string \<Rightarrow> uint32 \<Rightarrow> 'w path_handler" where
  "kibosh_chmod path md K fs w = status (perform K (Chmod (backing_path fs path) md) w)"

definition kibosh_chown :: "string \<Rightarrow> uint32 \<Rightarrow> uint32 \<Rightarrow> 'w path_handler" where
  "kibosh_chown path uid gid K fs w = status (perform K (Chown (backing_path fs path) uid gid) w)"

text \<open>
  \<open>fdatasync(dirfd(dir->dp) < 0)\<close> passes the truth value of the comparison. A null pointer in
  \<open>info->fh\<close> is dereferenced.
\<close>

definition kibosh_fsyncdir :: "bool \<Rightarrow> kibosh_dir option \<Rightarrow> 'w kernel \<Rightarrow> 'w \<Rightarrow> (int \<times> 'w) run" where
  "kibosh_fsyncdir datasync dir K w =
     (case dir of
        None \<Rightarrow> Crash
      | Some d \<Rightarrow>
          if datasync
          then Ret (status (perform K (Fdatasync (if dir_fd K (dp d) w < 0 then 1 else 0)) w))
          else Ret (status (perform K (Fsync (dir_fd K (dp d) w)) w)))"

text \<open>\<open>kibosh_getattr\<close>: of the control file only the size is kept.\<close>

datatype attributes = Control_attributes nat | Path_attributes stat_buf

definition kibosh_getattr ::
    "string \<Rightarrow> 'w kernel \<Rightarrow> kibosh_fs \<Rightarrow> process \<Rightarrow> 'w \<Rightarrow> (int \<times> attributes option \<times> kibosh_fs \<times> process \<times> 'w) run" where
  "kibosh_getattr path K fs p w =
     (if strcmp_eq KIBOSH_CONTROL_PATH path then
        (case kibosh_fs_control_stat fs p of
           Ret (Inl ret, fs', p') \<Rightarrow> Ret (AS_FUSE_ERR ret, None, fs', p', w)
         | Ret (Inr n, fs', p') \<Rightarrow> Ret (AS_FUSE_ERR 0, Some (Control_attributes n), fs', p', w)
         | Crash \<Rightarrow> Crash
         | Stuck \<Rightarrow> Stuck)
      else
        (case stat_path K (backing_path fs path) w of
           (Inl e, w') \<Rightarrow> Ret (AS_FUSE_ERR (- e), None, fs, p, w')
         | (Inr st, w') \<Rightarrow> Ret (AS_FUSE_ERR 0, Some (Path_attributes st), fs, p, w')))"

text \<open>A buffer after a call has stored bytes at its start.\<close>

definition stored :: "string \<Rightarrow> string \<Rightarrow> string" where
  "stored data buf = data @ drop (length data) buf"

text \<open>
  \<open>kibosh_getxattr\<close>, with the buffer of \<open>size\<close> bytes. When debug messages are on, the value is
  copied for the message, and the failure of the copy is the result.
\<close>

definition kibosh_getxattr ::
    "bool \<Rightarrow> string \<Rightarrow> string \<Rightarrow> string \<Rightarrow> nat \<Rightarrow> 'w kernel \<Rightarrow> kibosh_fs \<Rightarrow> mem \<Rightarrow> 'w \<Rightarrow> int \<times> string \<times> mem \<times> 'w" where
  "kibosh_getxattr debug path name buf n K fs m w =
     (case fetch K (Getxattr (backing_path fs path) name) n w of
        (Inl e, w') \<Rightarrow> (AS_FUSE_ERR (- e), buf, m, w')
      | (Inr (k, data), w') \<Rightarrow>
          let buf' = stored data buf in
          if debug then
            (case alloc_zterm_xattr (Some buf') n m of
               (None, m') \<Rightarrow> (AS_FUSE_ERR (- ENOMEM), buf', m', w')
             | (Some _, m') \<Rightarrow> (AS_FUSE_ERR 0, buf', m', w'))
          else (AS_FUSE_ERR 0, buf', m, w'))"

definition kibosh_link :: "string \<Rightarrow> string \<Rightarrow> 'w path_handler" where
  "kibosh_link oldpath newpath K fs w =
     status (perform K (Link (backing_path fs oldpath) (backing_path fs newpath)) w)"

definition kibosh_listxattr :: "string \<Rightarrow> string \<Rightarrow> nat \<Rightarrow> 'w kernel \<Rightarrow> kibosh_fs \<Rightarrow> 'w \<Rightarrow> int \<times> string \<times> 'w" where
  "kibosh_listxattr path buf n K fs w =
     (case fetch K (Listxattr (backing_path fs path)) n w of
        (Inl e, w') \<Rightarrow> (AS_FUSE_ERR (- e), buf, w')
      | (Inr (k, data), w') \<Rightarrow> (AS_FUSE_ERR 0, stored data buf, w'))"

text \<open>
  \<open>kibosh_mkdir\<close>, on behalf of the user \<open>uid\<close>, \<open>gid\<close> of FUSE's context: the owner is changed
  whether or not the directory could be made, and the error of that call hides the first.
\<close>

definition kibosh_mkdir :: "uint32 \<Rightarrow> uint32 \<Rightarrow> string \<Rightarrow> uint32 \<Rightarrow> 'w path_handler" where
  "kibosh_mkdir uid gid path md K fs w =
     (case perform K (Mkdir (backing_path fs path) md) w of (r, w1) \<Rightarrow>
        let ret = (case r of Inl e \<Rightarrow> - e | Inr _ \<Rightarrow> 0) in
        (case perform K (Chown (backing_path fs path) uid gid) w1 of
           (Inl e, w2) \<Rightarrow> (AS_FUSE_ERR (- e), w2)
         | (Inr _, w2) \<Rightarrow> (AS_FUSE_ERR ret, w2)))"

definition kibosh_mknod :: "string \<Rightarrow> uint32 \<Rightarrow> int64 \<Rightarrow> 'w path_handler" where
  "kibosh_mknod path md dev K fs w = status (perform K (Mknod (backing_path fs path) md dev) w)"

text \<open>
  \<open>kibosh_opendir\<close>: the result and \<open>info->fh\<close>. When the directory cannot be allocated the
  handler reports success and leaves a null pointer in \<open>info->fh\<close>; the stream stays open.
\<close>

definition kibosh_opendir ::
    "string \<Rightarrow> 'w kernel \<Rightarrow> kibosh_fs \<Rightarrow> mem \<Rightarrow> 'w \<Rightarrow> int \<times> kibosh_dir option \<times> mem \<times> 'w" where
  "kibosh_opendir path K fs m w =
     (case open_dir K (backing_path fs path) w of
        (Inl e, w') \<Rightarrow> (AS_FUSE_ERR (- e), None, m, w')
      | (Inr d, w') \<Rightarrow> (case kibosh_dir_alloc path d m of (dir, m') \<Rightarrow> (AS_FUSE_ERR 0, dir, m', w')))"

definition is_dot :: "string \<Rightarrow> bool" where
  "is_dot name \<longleftrightarrow> name = ''.'' \<or> name = ''..''"

text \<open>
  The loop of \<open>kibosh_readdir\<close>. The function \<open>filler\<close> of FUSE takes an entry and the position
  after it, and reports whether its buffer \<open>'b\<close> was full. A directory need not end, nor need
  the loop then.
\<close>

partial_function (option) readdir_loop ::
    "(string \<Rightarrow> int64 \<Rightarrow> 'b \<Rightarrow> bool \<times> 'b) \<Rightarrow> nat \<Rightarrow> 'w kernel \<Rightarrow> 'b \<Rightarrow> 'w \<Rightarrow> (int \<times> 'b \<times> 'w) option" where
  "readdir_loop filler d K buf w =
     (case read_dir K d w of
        (Inl e, w') \<Rightarrow> Some (- e, buf, w')
      | (Inr None, w') \<Rightarrow> Some (0, buf, w')
      | (Inr (Some name), w') \<Rightarrow>
          if is_dot name then readdir_loop filler d K buf w'
          else (case filler name (tell_dir K d w') buf of (full, buf') \<Rightarrow>
            if full then Some (1, buf', w') else readdir_loop filler d K buf' w'))"

text \<open>\<open>kibosh_readdir\<close>; \<open>Stuck\<close> when the loop does not end. An error is returned with its sign changed.\<close>

definition kibosh_readdir ::
    "(string \<Rightarrow> int64 \<Rightarrow> 'b \<Rightarrow> bool \<times> 'b) \<Rightarrow> int64 \<Rightarrow> kibosh_dir option \<Rightarrow> 'w kernel \<Rightarrow> 'b \<Rightarrow> 'w \<Rightarrow> (int \<times> 'b \<times> 'w) run" where
  "kibosh_readdir filler offset dir K buf w =
     (case dir of
        None \<Rightarrow> Crash
      | Some d \<Rightarrow>
          let w0 = (if offset \<noteq> 0 then snd (perform K (Seekdir (dp d) offset) w) else w) in
          (case readdir_loop filler (dp d) K buf w0 of
             None \<Rightarrow> Stuck
           | Some (ret, buf', w') \<Rightarrow> Ret (if ret < 0 then - ret else 0, buf', w')))"

text \<open>
  \<open>kibosh_readlink\<close>: the result and the buffer of \<open>n\<close> bytes, \<open>None\<close> when the terminating NUL
  falls outside of it.
\<close>

definition kibosh_readlink ::
    "string \<Rightarrow> string \<Rightarrow> nat \<Rightarrow> 'w kernel \<Rightarrow> kibosh_fs \<Rightarrow> 'w \<Rightarrow> int \<times> string option \<times> 'w" where
  "kibosh_readlink path buf n K fs w =
     (if n = 0 then (AS_FUSE_ERR 0, Some buf, w)
      else (case fetch K (Readlink (backing_path fs path)) n w of
        (Inl e, w') \<Rightarrow> (AS_FUSE_ERR (- e), Some buf, w')
      | (Inr (res, data), w') \<Rightarrow>
          (AS_FUSE_ERR 0, if res < n then Some ((stored data buf)[res := NUL]) else None, w')))"

definition kibosh_releasedir :: "kibosh_dir option \<Rightarrow> 'w kernel \<Rightarrow> 'w \<Rightarrow> (int \<times> 'w) run" where
  "kibosh_releasedir dir K w =
     (case dir of None \<Rightarrow> Crash | Some d \<Rightarrow> Ret (status (perform K (Closedir (dp d)) w)))"

definition kibosh_removexattr :: "string \<Rightarrow> string \<Rightarrow> 'w path_handler" where
  "kibosh_removexattr path name K fs w = status (perform K (Removexattr (backing_path fs path) name) w)"

definition kibosh_rename :: "string \<Rightarrow> string \<Rightarrow> 'w path_handler" where
  "kibosh_rename oldpath newpath K fs w =
     status (perform K (Rename (backing_path fs oldpath) (backing_path fs newpath)) w)"

definition kibosh_rmdir :: "string \<Rightarrow> 'w path_handler" where
  "kibosh_rmdir path K fs w = status (perform K (Rmdir (backing_path fs path)) w)"

definition kibosh_setxattr ::
    "bool \<Rightarrow> string \<Rightarrow> string \<Rightarrow> string \<Rightarrow> int32 \<Rightarrow> 'w kernel \<Rightarrow> kibosh_fs \<Rightarrow> mem \<Rightarrow> 'w \<Rightarrow> int \<times> mem \<times> 'w" where
  "kibosh_setxattr debug path name val fl K fs m w =
     (case status (perform K (Setxattr (backing_path fs path) name val fl) w) of (ret, w') \<Rightarrow>
        if debug then
          (case alloc_zterm_xattr (Some val) (length val) m of
             (None, m') \<Rightarrow> (AS_FUSE_ERR (- ENOMEM), m', w')
           | (Some _, m') \<Rightarrow> (ret, m', w'))
        else (ret, m, w'))"

definition kibosh_statfs :: "string \<Rightarrow> 'w kernel \<Rightarrow> kibosh_fs \<Rightarrow> 'w \<Rightarrow> int \<times> statvfs_buf option \<times> 'w" where
  "kibosh_statfs path K fs w =
     (case statvfs_path K (backing_path fs path) w of
        (Inl e, w') \<Rightarrow> (AS_FUSE_ERR (- e), None, w')
      | (Inr v, w') \<Rightarrow> (AS_FUSE_ERR 0, Some v, w'))"

text \<open>The target of the link is prefixed with the root like a path.\<close>

definition kibosh_symlink :: "string \<Rightarrow> string \<Rightarrow> 'w path_handler" where
  "kibosh_symlink oldpath newpath K fs w =
     status (perform K (Symlink (backing_path fs oldpath) (backing_path fs newpath)) w)"

definition kibosh_truncate :: "string \<Rightarrow> int64 \<Rightarrow> 'w path_handler" where
  "kibosh_truncate path off K fs w = status (perform K (Truncate (backing_path fs path) off) w)"

definition kibosh_unlink :: "string \<Rightarrow> 'w path_handler" where
  "kibosh_unlink path K fs w = status (perform K (Unlink (backing_path fs path)) w)"

definition kibosh_utime :: "string \<Rightarrow> (int64 \<times> int64) option \<Rightarrow> 'w path_handler" where
  "kibosh_utime path tb K fs w = status (perform K (Utime (backing_path fs path) tb) w)"

definition kibosh_utimens :: "string \<Rightarrow> time_pair \<Rightarrow> time_pair \<Rightarrow> 'w path_handler" where
  "kibosh_utimens path atime mtime K fs w =
     status (perform K (Utimensat (backing_path fs path) atime mtime) w)"

end
