(* ===== verification/Dir_Tree.thy ===== *)
theory Dir_Tree
  imports Meta
begin

text \<open>
  A kernel for the path handlers: names with their inodes, directory streams, and a schedule of
  failures as in \<open>Posix\<close>. Names are kept without trailing slashes, so that the root of a tree is
  the empty name. Permissions, parents and symbolic links on the way are not looked at: what
  they make a call fail with is an outcome of the schedule.
\<close>

definition EPERM :: int where "EPERM = 1"
definition ENOTDIR :: int where "ENOTDIR = 20"
definition EISDIR :: int where "EISDIR = 21"
definition ERANGE :: int where "ERANGE = 34"
definition ENOTEMPTY :: int where "ENOTEMPTY = 39"
definition ENODATA :: int where "ENODATA = 61"

datatype node_kind = Regular string | Directory | Symbolic string | Special uint32 int64

record inode =
  i_kind :: node_kind
  i_mode :: uint32
  i_uid :: uint32
  i_gid :: uint32
  i_atime :: time_pair
  i_mtime :: time_pair
  i_xattrs :: "(string \<times> string) list"

record tree =
  entries :: "(string \<times> nat) list"
  inode_table :: "inode list"
  streams :: "(string list \<times> nat) option list"
  tree_now :: time_pair
  failures :: "outcome list"

type_synonym 'a tree_call = "tree \<Rightarrow> (int + 'a) \<times> tree"

section \<open>Names\<close>

fun canon :: "string \<Rightarrow> string" where
  "canon [] = []"
| "canon (c # cs) = (let r = canon cs in if r = [] \<and> c = CHR ''/'' then [] else c # r)"

definition find_name :: "string \<Rightarrow> tree \<Rightarrow> nat option" where
  "find_name path w = map_of (entries w) (canon path)"

definition the_inode :: "nat \<Rightarrow> tree \<Rightarrow> inode" where
  "the_inode i w =
     (if i < length (inode_table w) then inode_table w ! i
      else \<lparr>i_kind = Regular [], i_mode = 0, i_uid = 0, i_gid = 0, i_atime = (0, 0), i_mtime = (0, 0), i_xattrs = []\<rparr>)"

definition upd_inode :: "nat \<Rightarrow> (inode \<Rightarrow> inode) \<Rightarrow> tree \<Rightarrow> tree" where
  "upd_inode i f w = w\<lparr>inode_table := (inode_table w)[i := f (the_inode i w)]\<rparr>"

text \<open>What lies below a name.\<close>

definition under :: "string \<Rightarrow> string \<Rightarrow> bool" where
  "under d q \<longleftrightarrow> prefix (d @ ''/'') q"

definition listing :: "string \<Rightarrow> tree \<Rightarrow> string list" where
  "listing d w =
     [''.'', ''..''] @
     map (\<lambda>(q, i). drop (length d + 1) q)
       (filter (\<lambda>(q, i). under d q \<and> CHR ''/'' \<notin> set (drop (length d + 1) q)) (entries w))"

section \<open>Calls\<close>

definition attempt :: "'a tree_call \<Rightarrow> 'a tree_call" where
  "attempt f w =
     (case failures w of
        [] \<Rightarrow> f w
      | Error e # xs \<Rightarrow> (Inl e, w\<lparr>failures := xs\<rparr>)
      | _ # xs \<Rightarrow> f (w\<lparr>failures := xs\<rparr>))"

definition on_name :: "string \<Rightarrow> (nat \<Rightarrow> 'a tree_call) \<Rightarrow> 'a tree_call" where
  "on_name path f w = (case find_name path w of None \<Rightarrow> (Inl ENOENT, w) | Some i \<Rightarrow> f i w)"

definition change :: "(inode \<Rightarrow> inode) \<Rightarrow> nat \<Rightarrow> unit tree_call" where
  "change f i w = (Inr (), upd_inode i f w)"

text \<open>A new inode under a name that must be free.\<close>

definition create :: "string \<Rightarrow> node_kind \<Rightarrow> uint32 \<Rightarrow> unit tree_call" where
  "create path k md w =
     (case find_name path w of
        Some _ \<Rightarrow> (Inl EEXIST, w)
      | None \<Rightarrow>
          (Inr (), w\<lparr>entries := entries w @ [(canon path, length (inode_table w))],
                     inode_table := inode_table w @
                       [\<lparr>i_kind = k, i_mode = md, i_uid = 0, i_gid = 0, i_atime = tree_now w, i_mtime = tree_now w, i_xattrs = []\<rparr>]\<rparr>))"

definition drop_name :: "string \<Rightarrow> tree \<Rightarrow> tree" where
  "drop_name path w = w\<lparr>entries := filter (\<lambda>(q, i). q \<noteq> canon path) (entries w)\<rparr>"

definition is_dir :: "nat \<Rightarrow> tree \<Rightarrow> bool" where
  "is_dir i w \<longleftrightarrow> i_kind (the_inode i w) = Directory"

definition empty_below :: "string \<Rightarrow> tree \<Rightarrow> bool" where
  "empty_below path w \<longleftrightarrow> (\<forall>(q, i) \<in> set (entries w). \<not> under (canon path) q)"

definition link_name :: "string \<Rightarrow> string \<Rightarrow> unit tree_call" where
  "link_name old new =
     on_name old (\<lambda>i w.
       if is_dir i w then (Inl EPERM, w)
       else if find_name new w \<noteq> None then (Inl EEXIST, w)
       else (Inr (), w\<lparr>entries := entries w @ [(canon new, i)]\<rparr>))"

definition unlink_name :: "string \<Rightarrow> unit tree_call" where
  "unlink_name path = on_name path (\<lambda>i w. if is_dir i w then (Inl EISDIR, w) else (Inr (), drop_name path w))"

definition remove_dir :: "string \<Rightarrow> unit tree_call" where
  "remove_dir path =
     on_name path (\<lambda>i w.
       if \<not> is_dir i w then (Inl ENOTDIR, w)
       else if \<not> empty_below path w then (Inl ENOTEMPTY, w)
       else (Inr (), drop_name path w))"

text \<open>A name and all below it get a new prefix; a name that is in the way is replaced.\<close>

definition moved :: "string \<Rightarrow> string \<Rightarrow> string \<Rightarrow> string" where
  "moved old new q = (if q = old \<or> under old q then new @ drop (length old) q else q)"

definition rename_name :: "string \<Rightarrow> string \<Rightarrow> unit tree_call" where
  "rename_name old new =
     on_name old (\<lambda>i w.
       if find_name new w = Some i then (Inr (), w)
       else if under (canon old) (canon new) then (Inl EINVAL, w)
       else if \<not> empty_below new w then (Inl ENOTEMPTY, w)
       else (case find_name new w of
         Some j \<Rightarrow>
           if is_dir i w \<and> \<not> is_dir j w then (Inl ENOTDIR, w)
           else if \<not> is_dir i w \<and> is_dir j w then (Inl EISDIR, w)
           else (Inr (), (drop_name new w)\<lparr>entries := map (apfst (moved (canon old) (canon new))) (entries (drop_name new w))\<rparr>)
       | None \<Rightarrow> (Inr (), w\<lparr>entries := map (apfst (moved (canon old) (canon new))) (entries w)\<rparr>)))"

definition resize :: "nat \<Rightarrow> string \<Rightarrow> string" where
  "resize n s = take n s @ replicate (n - length s) NUL"

definition truncate_name :: "string \<Rightarrow> int64 \<Rightarrow> unit tree_call" where
  "truncate_name path off =
     on_name path (\<lambda>i w.
       if sint off < 0 then (Inl EINVAL, w)
       else (case i_kind (the_inode i w) of
         Regular s \<Rightarrow> (Inr (), upd_inode i (\<lambda>n. n\<lparr>i_kind := Regular (resize (nat (sint off)) s)\<rparr>) w)
       | Directory \<Rightarrow> (Inl EISDIR, w)
       | _ \<Rightarrow> (Inl EINVAL, w)))"

definition XATTR_CREATE :: int32 where "XATTR_CREATE = 1"
definition XATTR_REPLACE :: int32 where "XATTR_REPLACE = 2"

definition set_attr :: "string \<Rightarrow> string \<Rightarrow> string \<Rightarrow> int32 \<Rightarrow> unit tree_call" where
  "set_attr path name val fl =
     on_name path (\<lambda>i w.
       let there = map_of (i_xattrs (the_inode i w)) name \<noteq> None in
       if fl = XATTR_CREATE \<and> there then (Inl EEXIST, w)
       else if fl = XATTR_REPLACE \<and> \<not> there then (Inl ENODATA, w)
       else change (\<lambda>n. n\<lparr>i_xattrs := (name, val) # filter (\<lambda>(a, v). a \<noteq> name) (i_xattrs n)\<rparr>) i w)"

definition remove_attr :: "string \<Rightarrow> string \<Rightarrow> unit tree_call" where
  "remove_attr path name =
     on_name path (\<lambda>i w.
       if map_of (i_xattrs (the_inode i w)) name = None then (Inl ENODATA, w)
       else change (\<lambda>n. n\<lparr>i_xattrs := filter (\<lambda>(a, v). a \<noteq> name) (i_xattrs n)\<rparr>) i w)"

definition UTIME_NOW :: int64 where "UTIME_NOW = 0x3FFFFFFF"
definition UTIME_OMIT :: int64 where "UTIME_OMIT = 0x3FFFFFFE"

definition time_after :: "time_pair \<Rightarrow> time_pair \<Rightarrow> time_pair \<Rightarrow> time_pair" where
  "time_after t old clock = (if snd t = UTIME_NOW then clock else if snd t = UTIME_OMIT then old else t)"

definition set_times :: "string \<Rightarrow> time_pair \<Rightarrow> time_pair \<Rightarrow> unit tree_call" where
  "set_times path a m =
     on_name path (\<lambda>i w. change (\<lambda>n. n\<lparr>i_atime := time_after a (i_atime n) (tree_now w), i_mtime := time_after m (i_mtime n) (tree_now w)\<rparr>) i w)"

text \<open>Directory streams: a listing, taken when the stream is opened, and a position.\<close>

definition stream_at :: "nat \<Rightarrow> tree \<Rightarrow> (string list \<times> nat) option" where
  "stream_at d w = (if d < length (streams w) then streams w ! d else None)"

definition set_stream :: "nat \<Rightarrow> (string list \<times> nat) option \<Rightarrow> tree \<Rightarrow> tree" where
  "set_stream d s w = w\<lparr>streams := (streams w)[d := s]\<rparr>"

definition close_stream :: "nat \<Rightarrow> unit tree_call" where
  "close_stream d w = (case stream_at d w of None \<Rightarrow> (Inl EBADF, w) | Some _ \<Rightarrow> (Inr (), set_stream d None w))"

definition seek_stream :: "nat \<Rightarrow> int64 \<Rightarrow> unit tree_call" where
  "seek_stream d off w =
     (case stream_at d w of None \<Rightarrow> (Inr (), w) | Some (xs, k) \<Rightarrow> (Inr (), set_stream d (Some (xs, unat off)) w))"

fun tree_perform :: "request \<Rightarrow> unit tree_call" where
  "tree_perform (Chmod path md) = attempt (on_name path (change (\<lambda>n. n\<lparr>i_mode := md\<rparr>)))"
| "tree_perform (Chown path u g) = attempt (on_name path (change (\<lambda>n. n\<lparr>i_uid := u, i_gid := g\<rparr>)))"
| "tree_perform (Link old new) = attempt (link_name old new)"
| "tree_perform (Mkdir path md) = attempt (create path Directory md)"
| "tree_perform (Mknod path md dev) = attempt (create path (if and md 0xF000 \<in> {0, 0x8000} then Regular [] else Special md dev) md)"
| "tree_perform (Removexattr path name) = attempt (remove_attr path name)"
| "tree_perform (Rename old new) = attempt (rename_name old new)"
| "tree_perform (Rmdir path) = attempt (remove_dir path)"
| "tree_perform (Setxattr path name val fl) = attempt (set_attr path name val fl)"
| "tree_perform (Symlink target path) = attempt (create path (Symbolic target) 0x1FF)"
| "tree_perform (Truncate path off) = attempt (truncate_name path off)"
| "tree_perform (Unlink path) = attempt (unlink_name path)"
| "tree_perform (Utime path None) = attempt (set_times path (0, UTIME_NOW) (0, UTIME_NOW))"
| "tree_perform (Utime path (Some (a, m))) = attempt (set_times path (a, 0) (m, 0))"
| "tree_perform (Utimensat path a m) = attempt (set_times path a m)"
| "tree_perform (Fsync fd) = attempt (\<lambda>w. (Inr (), w))"
| "tree_perform (Fdatasync fd) = attempt (\<lambda>w. (Inr (), w))"
| "tree_perform (Closedir d) = close_stream d"
| "tree_perform (Seekdir d off) = seek_stream d off"

text \<open>
  \<open>getxattr\<close> and \<open>listxattr\<close> with a buffer of size 0 report the size; a buffer that is too small
  is an error. \<open>readlink\<close> stores what fits.
\<close>

definition into_buffer :: "string \<Rightarrow> nat \<Rightarrow> (nat \<times> string) tree_call" where
  "into_buffer data n w =
     (if n = 0 then (Inr (length data, []), w)
      else if n < length data then (Inl ERANGE, w) else (Inr (length data, data), w))"

fun tree_fetch :: "query \<Rightarrow> nat \<Rightarrow> (nat \<times> string) tree_call" where
  "tree_fetch (Getxattr path name) n =
     attempt (on_name path (\<lambda>i w.
       case map_of (i_xattrs (the_inode i w)) name of None \<Rightarrow> (Inl ENODATA, w) | Some v \<Rightarrow> into_buffer v n w))"
| "tree_fetch (Listxattr path) n =
     attempt (on_name path (\<lambda>i w. into_buffer (concat (map (\<lambda>(a, v). a @ [NUL]) (i_xattrs (the_inode i w)))) n w))"
| "tree_fetch (Readlink path) n =
     attempt (on_name path (\<lambda>i w.
       case i_kind (the_inode i w) of
         Symbolic t \<Rightarrow> (Inr (min n (length t), take n t), w)
       | _ \<Rightarrow> (Inl EINVAL, w)))"

definition stat_of :: "inode \<Rightarrow> stat_buf" where
  "stat_of n =
     \<lparr>st_size = (case i_kind n of Regular s \<Rightarrow> length s | Symbolic t \<Rightarrow> length t | _ \<Rightarrow> 0),
      st_mode = i_mode n, st_uid = i_uid n, st_gid = i_gid n\<rparr>"

definition open_stream :: "string \<Rightarrow> nat tree_call" where
  "open_stream path =
     on_name path (\<lambda>i w.
       if \<not> is_dir i w then (Inl ENOTDIR, w)
       else (Inr (length (streams w)), w\<lparr>streams := streams w @ [Some (listing (canon path) w, 0)]\<rparr>))"

definition next_entry :: "nat \<Rightarrow> string option tree_call" where
  "next_entry d w =
     (case stream_at d w of
        None \<Rightarrow> (Inl EBADF, w)
      | Some (xs, k) \<Rightarrow> if k < length xs then (Inr (Some (xs ! k)), set_stream d (Some (xs, k + 1)) w) else (Inr None, w))"

definition stream_pos :: "nat \<Rightarrow> tree \<Rightarrow> int64" where
  "stream_pos d w = (case stream_at d w of None \<Rightarrow> - 1 | Some (xs, k) \<Rightarrow> of_nat k)"

definition tree_kernel :: "tree kernel" where
  "tree_kernel =
     \<lparr>perform = tree_perform, fetch = tree_fetch,
      stat_path = (\<lambda>path. attempt (on_name path (\<lambda>i w. (Inr (stat_of (the_inode i w)), w)))),
      statvfs_path = (\<lambda>path. attempt (on_name path (\<lambda>i w. (Inr (length (inode_table w), length (entries w)), w)))),
      open_dir = (\<lambda>path. attempt (open_stream path)),
      read_dir = (\<lambda>d. attempt (next_entry d)), tell_dir = stream_pos,
      dir_fd = (\<lambda>d w. if stream_at d w = None then - 1 else int d + 3)\<rparr>"

end
