(* ===== verification/Meta_Facts.thy ===== *)
theory Meta_Facts
  imports Dir_Tree
begin

text \<open>
  What the path handlers guarantee. The handlers only put the root in front of the paths and
  pass the calls on: on any kernel that does not care where a tree hangs, the mounted directory
  behaves like the target directory would if it were a root of its own. The exceptions are
  stated one by one.
\<close>

section \<open>The handlers of one call\<close>

text \<open>
  The handler for a request of a user of the mount, as FUSE's table of operations selects it;
  requests on streams and descriptors have no handler of this form.
\<close>

fun handle :: "uint32 \<Rightarrow> uint32 \<Rightarrow> request \<Rightarrow> 'w kernel \<Rightarrow> kibosh_fs \<Rightarrow> 'w \<Rightarrow> int \<times> 'w" where
  "handle u g (Chmod path md) = kibosh_chmod path md"
| "handle u g (Chown path uid gid) = kibosh_chown path uid gid"
| "handle u g (Link old new) = kibosh_link old new"
| "handle u g (Mkdir path md) = kibosh_mkdir u g path md"
| "handle u g (Mknod path md dev) = kibosh_mknod path md dev"
| "handle u g (Removexattr path name) = kibosh_removexattr path name"
| "handle u g (Rename old new) = kibosh_rename old new"
| "handle u g (Rmdir path) = kibosh_rmdir path"
| "handle u g (Setxattr path name val fl) = (\<lambda>K fs w. case kibosh_setxattr False path name val fl K fs [] w of (ret, m, w') \<Rightarrow> (ret, w'))"
| "handle u g (Symlink target path) = kibosh_symlink target path"
| "handle u g (Truncate path off) = kibosh_truncate path off"
| "handle u g (Unlink path) = kibosh_unlink path"
| "handle u g (Utime path tb) = kibosh_utime path tb"
| "handle u g (Utimensat path a m) = kibosh_utimens path a m"
| "handle u g _ = (\<lambda>K fs w. (0, w))"

text \<open>The paths a request names, and the request for a tree that hangs at \<open>r\<close>.\<close>

fun request_paths :: "request \<Rightarrow> string list" where
  "request_paths (Chmod path md) = [path]"
| "request_paths (Chown path uid gid) = [path]"
| "request_paths (Link old new) = [old, new]"
| "request_paths (Mkdir path md) = [path]"
| "request_paths (Mknod path md dev) = [path]"
| "request_paths (Removexattr path name) = [path]"
| "request_paths (Rename old new) = [old, new]"
| "request_paths (Rmdir path) = [path]"
| "request_paths (Setxattr path name val fl) = [path]"
| "request_paths (Symlink target path) = [path]"
| "request_paths (Truncate path off) = [path]"
| "request_paths (Unlink path) = [path]"
| "request_paths (Utime path tb) = [path]"
| "request_paths (Utimensat path a m) = [path]"
| "request_paths _ = []"

fun relocate :: "string \<Rightarrow> request \<Rightarrow> request" where
  "relocate r (Chmod path md) = Chmod (r @ path) md"
| "relocate r (Chown path uid gid) = Chown (r @ path) uid gid"
| "relocate r (Link old new) = Link (r @ old) (r @ new)"
| "relocate r (Mkdir path md) = Mkdir (r @ path) md"
| "relocate r (Mknod path md dev) = Mknod (r @ path) md dev"
| "relocate r (Removexattr path name) = Removexattr (r @ path) name"
| "relocate r (Rename old new) = Rename (r @ old) (r @ new)"
| "relocate r (Rmdir path) = Rmdir (r @ path)"
| "relocate r (Setxattr path name val fl) = Setxattr (r @ path) name val fl"
| "relocate r (Symlink target path) = Symlink target (r @ path)"
| "relocate r (Truncate path off) = Truncate (r @ path) off"
| "relocate r (Unlink path) = Unlink (r @ path)"
| "relocate r (Utime path tb) = Utime (r @ path) tb"
| "relocate r (Utimensat path a m) = Utimensat (r @ path) a m"
| "relocate r q = q"

text \<open>Paths of FUSE start with a slash; those that fit into the buffer of the handlers.\<close>

definition fuse_path :: "string \<Rightarrow> bool" where
  "fuse_path p \<longleftrightarrow> (\<exists>q. p = CHR ''/'' # q)"

definition fitting :: "kibosh_fs \<Rightarrow> string \<Rightarrow> bool" where
  "fitting fs p \<longleftrightarrow> fuse_path p \<and> length (fs_root fs) + length p < PATH_MAX"

lemma fitting_backing:
  assumes "fitting fs p"
  shows "backing_path fs p = fs_root fs @ p"
proof -
  have "length (fs_root fs @ p) \<le> PATH_MAX - 1" using assms by (auto simp: fitting_def)
  then show ?thesis unfolding backing_path_def by (rule take_all)
qed

text \<open>
  What a mount should do with a request: the call itself, except that a new directory belongs
  to the user who made it.
\<close>

fun ideal :: "uint32 \<Rightarrow> uint32 \<Rightarrow> request \<Rightarrow> 'w kernel \<Rightarrow> 'w \<Rightarrow> int \<times> 'w" where
  "ideal u g (Mkdir path md) K w =
     (case perform K (Mkdir path md) w of
        (Inl e, w') \<Rightarrow> (AS_FUSE_ERR (- e), w')
      | (Inr _, w') \<Rightarrow> status (perform K (Chown path u g) w'))"
| "ideal u g q K w = status (perform K q w)"

lemma status_apsnd: "apsnd f (status x) = status (apsnd f x)"
  by (auto simp: status_def split: prod.split sum.split)

lemma handle_status:
  assumes "\<forall>p \<in> set (request_paths q). fitting fs p" "request_paths q \<noteq> []" "\<And>t p. q \<noteq> Symlink t p" "\<And>p md. q \<noteq> Mkdir p md"
  shows "handle u g q K fs w = status (perform K (relocate (fs_root fs) q) w)"
  using assms
  by (cases q)
     (auto simp: fitting_backing kibosh_chmod_def kibosh_chown_def kibosh_link_def kibosh_mknod_def kibosh_removexattr_def
       kibosh_rename_def kibosh_rmdir_def kibosh_setxattr_def kibosh_truncate_def kibosh_unlink_def kibosh_utime_def
       kibosh_utimens_def split: prod.split)

lemma ideal_status: "(\<And>p md. q \<noteq> Mkdir p md) \<Longrightarrow> ideal u g q K w = status (perform K q w)"
  by (cases q) auto

section \<open>Kernels that do not care where a tree hangs\<close>

text \<open>\<open>below r w\<close> is the tree at \<open>r\<close>, seen as a tree of its own.\<close>

locale relocatable =
  fixes K :: "'w kernel" and below :: "string \<Rightarrow> 'w \<Rightarrow> 'w"
  assumes perform_below: "canon r = r \<Longrightarrow> \<forall>p \<in> set (request_paths q). fuse_path p \<Longrightarrow> request_paths q \<noteq> [] \<Longrightarrow>
      apsnd (below r) (perform K (relocate r q) w) = perform K q (below r w)"
    and stat_below: "canon r = r \<Longrightarrow> fuse_path p \<Longrightarrow>
      apsnd (below r) (stat_path K (r @ p) w) = stat_path K p (below r w)"
begin

lemma handle_below:
  assumes "canon (fs_root fs) = fs_root fs" "\<forall>p \<in> set (request_paths q). fitting fs p" "request_paths q \<noteq> []"
    and "\<And>t p. q \<noteq> Symlink t p"
    and "\<And>p md. q = Mkdir p md \<Longrightarrow> \<exists>w'. perform K (Mkdir (fs_root fs @ p) md) w = (Inr (), w')"
  shows "apsnd (below (fs_root fs)) (handle u g q K fs w) = ideal u g q K (below (fs_root fs) w)"
proof (cases "\<exists>p md. q = Mkdir p md")
  case True
  then obtain p md where q: "q = Mkdir p md" by blast
  let ?r = "fs_root fs"
  from assms(5) [OF q] obtain w' where w': "perform K (Mkdir (?r @ p) md) w = (Inr (), w')" by blast
  have p: "fitting fs p" "fuse_path p" using assms(2) q by (simp_all add: fitting_def)
  have "perform K (Mkdir p md) (below ?r w) = (Inr (), below ?r w')"
    using perform_below [OF assms(1), of "Mkdir p md" w] w' p by simp
  moreover have "perform K (Chown p u g) (below ?r w') = apsnd (below ?r) (perform K (Chown (?r @ p) u g) w')"
    using perform_below [OF assms(1), of "Chown p u g" w'] p by simp
  ultimately show ?thesis
    using w' p by (simp add: q kibosh_mkdir_def fitting_backing status_def split: prod.split sum.split)
next
  case False
  have f: "\<forall>p \<in> set (request_paths q). fuse_path p" using assms(2) by (simp add: fitting_def)
  have "handle u g q K fs w = status (perform K (relocate (fs_root fs) q) w)"
    by (rule handle_status) (use assms False in auto)
  moreover have "ideal u g q K (below (fs_root fs) w) = status (perform K q (below (fs_root fs) w))"
    by (rule ideal_status) (use False in auto)
  ultimately show ?thesis using perform_below [OF assms(1) f assms(3)] by (simp add: status_apsnd)
qed

lemma getattr_below:
  assumes "canon (fs_root fs) = fs_root fs" "fitting fs path" "\<not> strcmp_eq KIBOSH_CONTROL_PATH path"
    and "stat_path K path (below (fs_root fs) w) = (x, v)"
  shows "\<exists>w'. below (fs_root fs) w' = v \<and> kibosh_getattr path K fs p w =
    Ret (case x of Inl e \<Rightarrow> AS_FUSE_ERR (- e) | Inr _ \<Rightarrow> 0, case x of Inl e \<Rightarrow> None | Inr st \<Rightarrow> Some (Path_attributes st), fs, p, w')"
proof -
  obtain y w' where y: "stat_path K (fs_root fs @ path) w = (y, w')" by fastforce
  have "fuse_path path" using assms(2) by (simp add: fitting_def)
  from stat_below [OF assms(1) this, of w] y assms(4) have "y = x" "below (fs_root fs) w' = v" by simp_all
  with y assms(2,3) show ?thesis
    by (auto simp: kibosh_getattr_def fitting_backing AS_FUSE_ERR_def split: sum.split)
qed

end

section \<open>The kernel with a directory tree\<close>

definition hangs_at :: "string \<Rightarrow> string \<Rightarrow> bool" where
  "hangs_at r q \<longleftrightarrow> q = r \<or> under r q"

definition tree_below :: "string \<Rightarrow> tree \<Rightarrow> tree" where
  "tree_below r w = w\<lparr>entries := map (apfst (drop (length r))) (filter (\<lambda>(q, i). hangs_at r q) (entries w))\<rparr>"

lemma canon_append: "canon (r @ p) = (if canon p = [] then canon r else r @ canon p)"
  by (induction r) (auto simp: Let_def)

lemma canon_canon [simp]: "canon (canon p) = canon p"
  by (induction p) (auto simp: Let_def)

lemma canon_fuse: "fuse_path p \<Longrightarrow> canon p = [] \<or> (\<exists>q. canon p = CHR ''/'' # q)"
  by (auto simp: fuse_path_def Let_def split: if_splits)

lemma canon_at:
  assumes "canon r = r"
  shows "canon (r @ p) = r @ canon p"
  using assms by (simp add: canon_append)

lemma hangs_canon: "fuse_path p \<Longrightarrow> hangs_at r (r @ canon p)"
  using canon_fuse [of p] by (auto simp: hangs_at_def under_def)

lemma hangs_drop: "hangs_at r q \<Longrightarrow> q = r @ drop (length r) q"
  by (auto simp: hangs_at_def under_def prefix_def)

lemma hangs_append: "hangs_at r (r @ s) \<longleftrightarrow> s = [] \<or> (\<exists>q. s = CHR ''/'' # q)"
  by (auto simp: hangs_at_def under_def prefix_def)

text \<open>Looking a name up in the subtree.\<close>

lemma map_of_below:
  assumes "hangs_at r (r @ s)"
  shows "map_of (map (apfst (drop (length r))) (filter (\<lambda>(q, i). hangs_at r q) es)) s = map_of es (r @ s)"
proof (induction es)
  case (Cons e es)
  obtain q i where e: "e = (q, i)" by fastforce
  show ?case
  proof (cases "hangs_at r q")
    case True
    then have "drop (length r) q = s \<longleftrightarrow> q = r @ s" using hangs_drop [OF True] by auto
    then show ?thesis using True Cons by (auto simp: e)
  next
    case False
    then have "q \<noteq> r @ s" using assms by auto
    then show ?thesis using False Cons by (simp add: e)
  qed
qed simp

lemma find_below:
  assumes "canon r = r" "fuse_path p"
  shows "find_name p (tree_below r w) = find_name (r @ p) w"
  using map_of_below [OF hangs_canon [OF assms(2)], of r "entries w"] canon_at [OF assms(1), of p]
  by (simp add: find_name_def tree_below_def)

text \<open>A call on the whole tree and the same call on the subtree.\<close>

definition same_below :: "string \<Rightarrow> 'a tree_call \<Rightarrow> 'a tree_call \<Rightarrow> bool" where
  "same_below r f g \<longleftrightarrow> (\<forall>w. apsnd (tree_below r) (f w) = g (tree_below r w))"

lemma below_simps [simp]:
  "failures (tree_below r w) = failures w" "inode_table (tree_below r w) = inode_table w"
  "streams (tree_below r w) = streams w" "tree_now (tree_below r w) = tree_now w"
  "the_inode i (tree_below r w) = the_inode i w" "is_dir i (tree_below r w) = is_dir i w"
  "tree_below r (upd_inode i f w) = upd_inode i f (tree_below r w)"
  "tree_below r (w\<lparr>failures := xs\<rparr>) = (tree_below r w)\<lparr>failures := xs\<rparr>"
  by (simp_all add: tree_below_def the_inode_def is_dir_def upd_inode_def)

lemma attempt_below: "same_below r f g \<Longrightarrow> same_below r (attempt f) (attempt g)"
  by (auto simp: same_below_def attempt_def split: list.split outcome.split)

lemma on_name_below:
  assumes "canon r = r" "fuse_path p" "\<And>i. same_below r (f i) (g i)"
  shows "same_below r (on_name (r @ p) f) (on_name p g)"
  using assms(3) by (auto simp: same_below_def on_name_def find_below [OF assms(1,2)] split: option.split)

lemma change_below: "same_below r (change f i) (change f i)"
  by (simp add: same_below_def change_def)

lemma create_below:
  assumes "canon r = r" "fuse_path p"
  shows "same_below r (create (r @ p) k md) (create p k md)"
  using hangs_canon [OF assms(2), of r]
  by (auto simp: same_below_def create_def find_below [OF assms, unfolded tree_below_def] tree_below_def canon_at [OF assms(1)]
        split: option.split)

lemma drop_below:
  assumes "canon r = r" "fuse_path p"
  shows "tree_below r (drop_name (r @ p) w) = drop_name p (tree_below r w)"
proof -
  have "map (apfst (drop (length r))) (filter (\<lambda>(q, i). hangs_at r q) (filter (\<lambda>(q, i). q \<noteq> r @ canon p) es)) =
      filter (\<lambda>(q, i). q \<noteq> canon p) (map (apfst (drop (length r))) (filter (\<lambda>(q, i). hangs_at r q) es))" for es :: "(string \<times> nat) list"
  proof (induction es)
    case (Cons e es)
    obtain q i where e: "e = (q, i)" by fastforce
    have "hangs_at r q \<Longrightarrow> drop (length r) q = canon p \<longleftrightarrow> q = r @ canon p" using hangs_drop [of r q] by auto
    then show ?case using Cons by (auto simp: e)
  qed simp
  then show ?thesis by (simp add: drop_name_def tree_below_def canon_at [OF assms(1)])
qed

lemma under_append: "under (r @ d) (r @ q) = under d q"
  by (simp add: under_def)

lemma under_hangs: "under (r @ d) q \<Longrightarrow> d = [] \<or> (\<exists>e. d = CHR ''/'' # e) \<Longrightarrow> hangs_at r q"
  by (auto simp: under_def hangs_at_def prefix_def)

lemma empty_below_below:
  assumes "canon r = r" "fuse_path p"
  shows "empty_below p (tree_below r w) = empty_below (r @ p) w"
proof -
  have "under (canon p) (drop (length r) q) = under (r @ canon p) q" if "hangs_at r q" for q
    using hangs_drop [OF that] under_append [of r "canon p" "drop (length r) q"] by simp
  moreover have "hangs_at r q" if "under (r @ canon p) q" for q
    using under_hangs [OF that canon_fuse [OF assms(2)]] .
  ultimately show ?thesis
    by (fastforce simp: empty_below_def tree_below_def canon_at [OF assms(1)])
qed

lemma link_below:
  assumes "canon r = r" "fuse_path p" "fuse_path q"
  shows "same_below r (link_name (r @ p) (r @ q)) (link_name p q)"
  unfolding link_name_def
  by (rule on_name_below [OF assms(1,2)])
     (use hangs_canon [OF assms(3), of r] in
       \<open>auto simp: same_below_def find_below [OF assms(1,3)] find_below [OF assms(1,3), unfolded tree_below_def]
          tree_below_def canon_at [OF assms(1)] is_dir_def the_inode_def\<close>)

lemma unlink_below:
  assumes "canon r = r" "fuse_path p"
  shows "same_below r (unlink_name (r @ p)) (unlink_name p)"
  unfolding unlink_name_def
  by (rule on_name_below [OF assms]) (simp add: same_below_def drop_below [OF assms])

lemma remove_dir_below:
  assumes "canon r = r" "fuse_path p"
  shows "same_below r (remove_dir (r @ p)) (remove_dir p)"
  unfolding remove_dir_def
  by (rule on_name_below [OF assms]) (simp add: same_below_def drop_below [OF assms] empty_below_below [OF assms])

lemma moved_below:
  assumes "hangs_at r (r @ old)" "hangs_at r (r @ new)"
  shows "hangs_at r (moved (r @ old) (r @ new) q) = hangs_at r q"
    "hangs_at r q \<Longrightarrow> drop (length r) (moved (r @ old) (r @ new) q) = moved old new (drop (length r) q)"
proof -
  let ?hit = "q = r @ old \<or> under (r @ old) q"
  have hit: "\<exists>s. q = r @ old @ s \<and> (s = [] \<or> (\<exists>t. s = CHR ''/'' # t))" if ?hit
    using that by (auto simp: under_def prefix_def)
  have o: "old = [] \<or> (\<exists>q. old = CHR ''/'' # q)" "new = [] \<or> (\<exists>q. new = CHR ''/'' # q)"
    using assms by (simp_all add: hangs_append)
  show "hangs_at r (moved (r @ old) (r @ new) q) = hangs_at r q"
  proof (cases ?hit)
    case True
    from hit [OF True] obtain s where s: "q = r @ old @ s" "s = [] \<or> (\<exists>t. s = CHR ''/'' # t)" by blast
    then have "moved (r @ old) (r @ new) q = r @ new @ s" using True by (simp add: moved_def)
    then show ?thesis using s o by (auto simp: hangs_append)
  qed (simp add: moved_def)
  assume h: "hangs_at r q"
  define t where "t = drop (length r) q"
  have q: "q = r @ t" using hangs_drop [OF h] by (simp add: t_def)
  then have "?hit \<longleftrightarrow> t = old \<or> under old t" by (simp add: under_append)
  then show "drop (length r) (moved (r @ old) (r @ new) q) = moved old new (drop (length r) q)"
    using q by (auto simp: moved_def)
qed

lemma rename_entries_below:
  assumes "hangs_at r (r @ old)" "hangs_at r (r @ new)"
  shows "map (apfst (drop (length r))) (filter (\<lambda>(q, i). hangs_at r q) (map (apfst (moved (r @ old) (r @ new))) es)) =
    map (apfst (moved old new)) (map (apfst (drop (length r))) (filter (\<lambda>(q, i). hangs_at r q) es))"
  using moved_below [OF assms] by (induction es) auto

lemma rename_below:
  assumes "canon r = r" "fuse_path p" "fuse_path q"
  shows "same_below r (rename_name (r @ p) (r @ q)) (rename_name p q)"
  unfolding rename_name_def
proof (rule on_name_below [OF assms(1,2)])
  fix i
  let ?mv = "\<lambda>w. w\<lparr>entries := map (apfst (moved (canon (r @ p)) (canon (r @ q)))) (entries w)\<rparr>"
  let ?mv' = "\<lambda>w. w\<lparr>entries := map (apfst (moved (canon p) (canon q))) (entries w)\<rparr>"
  have mv: "tree_below r (?mv w) = ?mv' (tree_below r w)" for w
    using rename_entries_below [OF hangs_canon [OF assms(2)] hangs_canon [OF assms(3)], of r "entries w"]
    by (simp add: tree_below_def canon_at [OF assms(1)])
  have un: "under (canon (r @ p)) (canon (r @ q)) = under (canon p) (canon q)"
    by (simp add: canon_at [OF assms(1)] under_append)
  show "same_below r (\<lambda>w.
       if find_name (r @ q) w = Some i then (Inr (), w)
       else if under (canon (r @ p)) (canon (r @ q)) then (Inl EINVAL, w)
       else if \<not> empty_below (r @ q) w then (Inl ENOTEMPTY, w)
       else (case find_name (r @ q) w of
         Some j \<Rightarrow>
           if is_dir i w \<and> \<not> is_dir j w then (Inl ENOTDIR, w)
           else if \<not> is_dir i w \<and> is_dir j w then (Inl EISDIR, w)
           else (Inr (), ?mv (drop_name (r @ q) w))
       | None \<Rightarrow> (Inr (), ?mv w)))
     (\<lambda>w.
       if find_name q w = Some i then (Inr (), w)
       else if under (canon p) (canon q) then (Inl EINVAL, w)
       else if \<not> empty_below q w then (Inl ENOTEMPTY, w)
       else (case find_name q w of
         Some j \<Rightarrow>
           if is_dir i w \<and> \<not> is_dir j w then (Inl ENOTDIR, w)
           else if \<not> is_dir i w \<and> is_dir j w then (Inl EISDIR, w)
           else (Inr (), ?mv' (drop_name q w))
       | None \<Rightarrow> (Inr (), ?mv' w)))"
    unfolding same_below_def un find_below [OF assms(1,3)] empty_below_below [OF assms(1,3)]
    by (auto simp: mv drop_below [OF assms(1,3)] split: option.split)
qed

lemma times_below:
  assumes "canon r = r" "fuse_path p"
  shows "same_below r (set_times (r @ p) a m) (set_times p a m)"
  unfolding set_times_def by (rule on_name_below [OF assms]) (simp add: same_below_def change_def)

lemma truncate_below:
  assumes "canon r = r" "fuse_path p"
  shows "same_below r (truncate_name (r @ p) off) (truncate_name p off)"
  unfolding truncate_name_def
  by (rule on_name_below [OF assms]) (auto simp: same_below_def split: node_kind.split)

lemma attr_below:
  assumes "canon r = r" "fuse_path p"
  shows "same_below r (set_attr (r @ p) name val fl) (set_attr p name val fl)"
    "same_below r (remove_attr (r @ p) name) (remove_attr p name)"
  unfolding set_attr_def remove_attr_def
  by (rule on_name_below [OF assms]; auto simp: same_below_def change_def Let_def)+

lemmas name_below = attempt_below create_below link_below unlink_below remove_dir_below rename_below change_below
  times_below truncate_below attr_below on_name_below

lemma perform_tree_below:
  assumes "canon r = r" "\<forall>p \<in> set (request_paths q). fuse_path p" "request_paths q \<noteq> []"
  shows "same_below r (tree_perform (relocate r q)) (tree_perform q)"
proof (cases q)
  case (Utime p tb)
  then show ?thesis using assms by (cases tb) (auto intro!: name_below)
qed (use assms in \<open>auto intro!: name_below\<close>)

interpretation tree: relocatable tree_kernel tree_below
proof unfold_locales
  fix r q w assume "canon r = r" "\<forall>p \<in> set (request_paths q). fuse_path p" "request_paths q \<noteq> []"
  from perform_tree_below [OF this]
  show "apsnd (tree_below r) (perform tree_kernel (relocate r q) w) = perform tree_kernel q (tree_below r w)"
    by (simp add: same_below_def tree_kernel_def)
next
  fix r p w assume "canon r = r" "fuse_path p"
  then have "same_below r (attempt (on_name (r @ p) (\<lambda>i w. (Inr (stat_of (the_inode i w)), w))))
      (attempt (on_name p (\<lambda>i w. (Inr (stat_of (the_inode i w)), w))))"
    by (intro attempt_below on_name_below) (simp_all add: same_below_def)
  then show "apsnd (tree_below r) (stat_path tree_kernel (r @ p) w) = stat_path tree_kernel p (tree_below r w)"
    by (simp add: same_below_def tree_kernel_def)
qed



definition fs_at :: "string \<Rightarrow> kibosh_fs" where
  "fs_at r =
     \<lparr>drop_thread = None, fs_root = r, fs_pidfile_path = None, control_fd = 0, fs_control_mode = 0,
      faults = [], cur_control_json = [], control_buf = [], locked = False\<rparr>"

definition dir_inode :: inode where
  "dir_inode = \<lparr>i_kind = Directory, i_mode = 0x1ED, i_uid = 0, i_gid = 0, i_atime = (0, 0), i_mtime = (0, 0), i_xattrs = []\<rparr>"

definition file_inode :: "string \<Rightarrow> inode" where
  "file_inode s = dir_inode\<lparr>i_kind := Regular s\<rparr>"

text \<open>A tree with a directory \<open>/t\<close> that holds a file and a directory.\<close>

definition sample_tree :: tree where
  "sample_tree =
     \<lparr>entries = [([], 0), (''/t'', 1), (''/t/f'', 2), (''/t/d'', 3), (''/o'', 4)],
      inode_table = [dir_inode, dir_inode, file_inode ''abc'', dir_inode, file_inode ''x''],
      streams = [], tree_now = (7, 0), failures = []\<rparr>"


section \<open>Where the mount differs from the target\<close>

lemma on_name_found: "find_name path w = Some i \<Longrightarrow> on_name path f w = f i w"
  by (simp add: on_name_def)

text \<open>
  \<open>mkdir\<close> of a path that exists already reports \<open>EEXIST\<close> and nevertheless makes the caller
  the owner of what is there, be it a directory or a file.
\<close>

theorem mkdir_takes_ownership:
  assumes "failures w = []" "find_name (backing_path fs path) w = Some i"
  shows "kibosh_mkdir u g path md tree_kernel fs w = (- EEXIST, upd_inode i (\<lambda>n. n\<lparr>i_uid := u, i_gid := g\<rparr>) w)"
  using assms
  by (simp add: kibosh_mkdir_def tree_kernel_def attempt_def create_def on_name_found change_def AS_FUSE_ERR_def EEXIST_def)

theorem mkdir_takes_ownership_witness:
  "i_uid (the_inode 2 (snd (kibosh_mkdir 5 6 ''/f'' 0x1ED tree_kernel (fs_at ''/t'') sample_tree))) = 5"
proof -
  have "find_name (backing_path (fs_at ''/t'') ''/f'') sample_tree = Some 2" by code_simp
  from mkdir_takes_ownership [OF _ this, of 5 6 "0x1ED"] show ?thesis
    by (simp add: sample_tree_def upd_inode_def the_inode_def)
qed

text \<open>
  A failure of \<open>mkdir\<close> is hidden by that of \<open>chown\<close>: the user is told that the path does not exist.
\<close>

lemma mkdir_hides_error:
  assumes "failures w = [Error e]" "find_name (backing_path fs path) w = None"
  shows "fst (kibosh_mkdir u g path md tree_kernel fs w) = - ENOENT"
  using assms
  by (simp add: kibosh_mkdir_def tree_kernel_def attempt_def on_name_def find_name_def AS_FUSE_ERR_def ENOENT_def)

text \<open>
  A symbolic link read back is not the link that was made: its target has the root of the
  target directory in front. The result of \<open>readlink\<close> is ended by a NUL, and the NUL is written
  outside the buffer when the link is as long as the buffer.
\<close>

theorem symlink_readlink:
  assumes "failures w = []" "find_name (backing_path fs path) w = None" "0 < n" "length buf = n"
  shows "\<exists>w'. kibosh_symlink target path tree_kernel fs w = (0, w') \<and>
    kibosh_readlink path buf n tree_kernel fs w' =
      (0, if length (backing_path fs target) < n
          then Some (backing_path fs target @ NUL # drop (length (backing_path fs target) + 1) buf) else None, w')"
proof -
  let ?b = "backing_path fs path" and ?t = "backing_path fs target"
  let ?n = "\<lparr>i_kind = Symbolic ?t, i_mode = 0x1FF, i_uid = 0, i_gid = 0, i_atime = tree_now w, i_mtime = tree_now w, i_xattrs = []\<rparr>"
  let ?w = "w\<lparr>entries := entries w @ [(canon ?b, length (inode_table w))], inode_table := inode_table w @ [?n]\<rparr>"
  have sym: "kibosh_symlink target path tree_kernel fs w = (0, ?w)"
    using assms(1,2) by (simp add: kibosh_symlink_def status_def tree_kernel_def attempt_def create_def AS_FUSE_ERR_def)
  have "find_name ?b ?w = Some (length (inode_table w))" using assms(2) by (simp add: find_name_def map_add_def)
  moreover have "the_inode (length (inode_table w)) ?w = ?n" by (simp add: the_inode_def)
  ultimately have "fetch tree_kernel (Readlink ?b) n ?w = (Inr (min n (length ?t), take n ?t), ?w)"
    using assms(1) by (simp add: tree_kernel_def attempt_def on_name_found)
  moreover have "(stored (take n ?t) buf)[min n (length ?t) := NUL] = ?t @ NUL # drop (length ?t + 1) buf" if "length ?t < n"
  proof -
    have "drop (length ?t) buf = buf ! length ?t # drop (length ?t + 1) buf" using that assms(4) by (simp add: Cons_nth_drop_Suc)
    then show ?thesis using that by (simp add: stored_def list_update_append)
  qed
  ultimately show ?thesis using assms(3) sym by (auto simp: kibosh_readlink_def AS_FUSE_ERR_def)
qed

theorem symlink_readlink_witness:
  "\<exists>w'. kibosh_symlink ''f'' ''/l'' tree_kernel (fs_at ''/t'') sample_tree = (0, w') \<and>
    kibosh_readlink ''/l'' ''........'' 8 tree_kernel (fs_at ''/t'') w' = (0, Some (''/tf'' @ NUL # ''....''), w')"
proof -
  have "find_name (backing_path (fs_at ''/t'') ''/l'') sample_tree = None" by code_simp
  moreover have "backing_path (fs_at ''/t'') ''f'' = ''/tf''" by (simp add: backing_path_def fs_at_def PATH_MAX_def)
  ultimately show ?thesis
    using symlink_readlink [of sample_tree "fs_at ''/t''" "''/l''" 8 "''........''" "''f''"] by (simp add: sample_tree_def)
qed

text \<open>
  A path that does not fit is cut, not refused: handlers cannot tell two paths apart that
  agree up to the size of their buffer.
\<close>

theorem long_paths_collide:
  assumes "take (PATH_MAX - 1) (fs_root fs @ p) = take (PATH_MAX - 1) (fs_root fs @ q)"
  shows "kibosh_unlink p K fs w = kibosh_unlink q K fs w \<and> kibosh_rmdir p K fs w = kibosh_rmdir q K fs w \<and>
    kibosh_truncate p off K fs w = kibosh_truncate q off K fs w"
  using assms by (simp add: kibosh_unlink_def kibosh_rmdir_def kibosh_truncate_def backing_path_def)

theorem long_paths_collide_witness:
  "kibosh_unlink (replicate 5000 (CHR ''a'')) tree_kernel (fs_at ''/t'') w =
   kibosh_unlink (replicate 5000 (CHR ''a'') @ ''b'') tree_kernel (fs_at ''/t'') w"
  by (rule conjunct1 [OF long_paths_collide [where off = 0]]) (simp add: fs_at_def PATH_MAX_def)

section \<open>Attributes\<close>

text \<open>
  C40. A value that was set is read back, in all the buffer has room for; but the handler returns 0
  where FUSE expects the size of the value, so that a caller sees an empty attribute.
\<close>

theorem xattr_roundtrip:
  assumes "failures w = []" "find_name (backing_path fs path) w = Some i" "i < length (inode_table w)"
    and "length val \<le> n" "n = length buf" "0 < n"
  shows "\<exists>w'. kibosh_setxattr False path name val 0 tree_kernel fs m w = (0, m, w') \<and>
    kibosh_getxattr False path name buf n tree_kernel fs m w' = (0, val @ drop (length val) buf, m, w')"
proof -
  let ?f = "\<lambda>n. n\<lparr>i_xattrs := (name, val) # filter (\<lambda>(a, v). a \<noteq> name) (i_xattrs n)\<rparr>"
  have set: "kibosh_setxattr False path name val 0 tree_kernel fs m w = (0, m, upd_inode i ?f w)"
    using assms(1,2)
    by (simp add: kibosh_setxattr_def status_def tree_kernel_def attempt_def set_attr_def on_name_found change_def
          XATTR_CREATE_def XATTR_REPLACE_def AS_FUSE_ERR_def Let_def)
  have "find_name (backing_path fs path) (upd_inode i ?f w) = Some i" "failures (upd_inode i ?f w) = []"
    using assms(1,2) by (simp_all add: find_name_def upd_inode_def)
  moreover have "map_of (i_xattrs (the_inode i (upd_inode i ?f w))) name = Some val"
    using assms(3) by (simp add: the_inode_def upd_inode_def)
  ultimately have "fetch tree_kernel (Getxattr (backing_path fs path) name) n (upd_inode i ?f w) =
      (Inr (length val, val), upd_inode i ?f w)"
    using assms(4,6) by (simp add: tree_kernel_def attempt_def on_name_found into_buffer_def)
  then show ?thesis using set by (simp add: kibosh_getxattr_def stored_def AS_FUSE_ERR_def)
qed

theorem xattr_roundtrip_witness:
  "\<exists>w'. kibosh_setxattr False ''/f'' ''user.a'' ''v'' 0 tree_kernel (fs_at ''/t'') [] sample_tree = (0, [], w') \<and>
    kibosh_getxattr False ''/f'' ''user.a'' ''...'' 3 tree_kernel (fs_at ''/t'') [] w' = (0, ''v..'', [], w')"
proof -
  have "find_name (backing_path (fs_at ''/t'') ''/f'') sample_tree = Some 2" by code_simp
  from xattr_roundtrip [OF _ this, of "''v''" 3 "''...''" "''user.a''" "[]"] show ?thesis by (simp add: sample_tree_def)
qed

end
