(* ===== verification/Meta_Dirs.thy ===== *)
theory Meta_Dirs
  imports Meta_Facts
begin

text \<open>
  Reading directories: \<open>opendir\<close>, \<open>readdir\<close> in portions as FUSE asks for them, \<open>releasedir\<close> and
  \<open>fsyncdir\<close>.
\<close>

section \<open>Portions of a directory\<close>

text \<open>FUSE's buffer: the entries with the position after each, and how many it can take.\<close>

type_synonym dir_buffer = "(string \<times> int64) list \<times> nat"

definition fill :: "string \<Rightarrow> int64 \<Rightarrow> dir_buffer \<Rightarrow> bool \<times> dir_buffer" where
  "fill name off b = (case b of (acc, c) \<Rightarrow> if length acc < c then (False, (acc @ [(name, off)], c)) else (True, (acc, c)))"

text \<open>The proper entries of a listing from a position on.\<close>

function rest :: "string list \<Rightarrow> nat \<Rightarrow> (string \<times> nat) list" where
  "rest xs k =
     (if k < length xs then (if is_dot (xs ! k) then rest xs (k + 1) else (xs ! k, k + 1) # rest xs (k + 1)) else [])"
  by pat_completeness auto
termination
  by (relation "measure (\<lambda>(xs, k). length xs - k)") auto

declare rest.simps [simp del]

lemma rest_names: "map fst (rest xs k) = filter (\<lambda>x. \<not> is_dot x) (drop k xs)"
proof (induction xs k rule: rest.induct)
  case (1 xs k)
  show ?case
  proof (cases "k < length xs")
    case True
    then have "drop k xs = xs ! k # drop (k + 1) xs" by (simp add: Cons_nth_drop_Suc)
    with 1 True show ?thesis by (simp add: rest.simps [of xs k])
  qed (simp add: rest.simps)
qed

text \<open>Where a portion ends, and what is left then.\<close>

lemma rest_portion:
  assumes "rest xs k \<noteq> []" "0 < c"
  shows "\<exists>j. snd (last (take c (rest xs k))) = j \<and> 0 < j \<and> j \<le> length xs \<and> rest xs j = drop c (rest xs k)"
  using assms
proof (induction xs k arbitrary: c rule: rest.induct)
  case (1 xs k)
  from 1(3) have k: "k < length xs" by (simp add: rest.simps [of xs k] split: if_splits)
  show ?case
  proof (cases "is_dot (xs ! k)")
    case True
    then have "rest xs k = rest xs (k + 1)" using k by (simp add: rest.simps [of xs k])
    with 1(1) [OF k True, of c] 1(3,4) show ?thesis by simp
  next
    case False
    then have r: "rest xs k = (xs ! k, k + 1) # rest xs (k + 1)" using k by (simp add: rest.simps [of xs k])
    obtain c' where c: "c = Suc c'" using 1(4) by (cases c) auto
    show ?thesis
    proof (cases "c' = 0 \<or> rest xs (k + 1) = []")
      case True
      then show ?thesis using r c k by auto
    next
      case more: False
      then have "take c' (rest xs (k + 1)) \<noteq> []" by simp
      with 1(2) [OF k False, of c'] more r c show ?thesis by auto
    qed
  qed
qed

text \<open>
  A client of FUSE reads a directory in portions: each call continues at the position after the
  last entry of the portion before.
\<close>

fun read_portions :: "kibosh_dir \<Rightarrow> 'w kernel \<Rightarrow> nat list \<Rightarrow> int64 \<Rightarrow> 'w \<Rightarrow> string list option" where
  "read_portions dir K [] off w = Some []"
| "read_portions dir K (c # cs) off w =
     (case kibosh_readdir fill off (Some dir) K ([], c) w of
        Ret (ret, (acc, _), w') \<Rightarrow>
          if ret \<noteq> 0 then None
          else map_option (\<lambda>names. map fst acc @ names)
                 (read_portions dir K cs (if acc = [] then off else snd (last acc)) w')
      | _ \<Rightarrow> None)"

section \<open>Streams\<close>

text \<open>
  What POSIX says of a directory stream that is not disturbed: the entries come in some order,
  \<open>telldir\<close> gives the position and \<open>seekdir\<close> sets it.
\<close>

locale dir_streams =
  fixes K :: "'w kernel" and view :: "nat \<Rightarrow> 'w \<Rightarrow> (string list \<times> nat) option"
  assumes read_entry: "view d w = Some (xs, k) \<Longrightarrow> k < length xs \<Longrightarrow>
      \<exists>w'. read_dir K d w = (Inr (Some (xs ! k)), w') \<and> view d w' = Some (xs, k + 1)"
    and read_end: "view d w = Some (xs, k) \<Longrightarrow> length xs \<le> k \<Longrightarrow>
      \<exists>w'. read_dir K d w = (Inr None, w') \<and> view d w' = Some (xs, k)"
    and tell_at: "view d w = Some (xs, k) \<Longrightarrow> tell_dir K d w = of_nat k"
    and seek_at: "view d w = Some (xs, k) \<Longrightarrow> view d (snd (perform K (Seekdir d off) w)) = Some (xs, unat off)"
begin

lemma loop_portion:
  assumes "view d w = Some (xs, k)" "length acc \<le> c"
  shows "\<exists>ret w' j. readdir_loop fill d K (acc, c) w =
      Some (ret, (acc @ map (apsnd of_nat) (take (c - length acc) (rest xs k)), c), w') \<and>
    (ret = 0 \<or> ret = 1) \<and> view d w' = Some (xs, j) \<and> (rest xs k = [] \<longrightarrow> rest xs j = [])"
  using assms
proof (induction "length xs - k" arbitrary: k w acc rule: less_induct)
  case less
  note unfold = readdir_loop.simps [of fill d K "(acc, c)" w]
  show ?case
  proof (cases "k < length xs")
    case True
    from read_entry [OF less.prems(1) True] obtain w' where
      w': "read_dir K d w = (Inr (Some (xs ! k)), w')" "view d w' = Some (xs, k + 1)" by blast
    have IH: "length acc' \<le> c \<Longrightarrow> \<exists>ret w'' j. readdir_loop fill d K (acc', c) w' =
        Some (ret, (acc' @ map (apsnd of_nat) (take (c - length acc') (rest xs (k + 1))), c), w'') \<and>
        (ret = 0 \<or> ret = 1) \<and> view d w'' = Some (xs, j) \<and> (rest xs (k + 1) = [] \<longrightarrow> rest xs j = [])" for acc'
      using less.hyps [of "k + 1" w' acc'] w'(2) True by auto
    show ?thesis
    proof (cases "is_dot (xs ! k)")
      case dot: True
      then show ?thesis using IH [OF less.prems(2)] w'(1) True unfold by (simp add: rest.simps [of xs k])
    next
      case False
      then have r: "rest xs k = (xs ! k, k + 1) # rest xs (k + 1)" using True by (simp add: rest.simps [of xs k])
      have t: "tell_dir K d w' = of_nat (k + 1)" using tell_at [OF w'(2)] .
      show ?thesis
      proof (cases "length acc < c")
        case room: True
        then obtain m where m: "c - length acc = Suc m" "c - Suc (length acc) = m"
          by (metis Suc_diff_Suc)
        have "length (acc @ [(xs ! k, of_nat (k + 1))]) \<le> c" using room by simp
        from IH [OF this] show ?thesis using w'(1) False unfold r t room m by (auto simp: fill_def)
      next
        case full: False
        then show ?thesis using w' False unfold t r less.prems(2) by (simp add: fill_def)
      qed
    qed
  next
    case False
    with read_end [OF less.prems(1)] show ?thesis
      using unfold less.prems(2) by (auto simp: rest.simps [of xs k])
  qed
qed

lemma readdir_portion:
  assumes "view (dp dir) w = Some (xs, k)"
  shows "\<exists>w' j. kibosh_readdir fill off (Some dir) K ([], c) w =
      Ret (0, (map (apsnd of_nat) (take c (rest xs (if off = 0 then k else unat off))), c), w') \<and> view (dp dir) w' = Some (xs, j) \<and>
    (rest xs (if off = 0 then k else unat off) = [] \<longrightarrow> rest xs j = [])"
proof -
  let ?w = "if off \<noteq> 0 then snd (perform K (Seekdir (dp dir) off) w) else w"
  have v: "view (dp dir) ?w = Some (xs, if off = 0 then k else unat off)" using assms seek_at [OF assms] by simp
  from loop_portion [OF v, of "[]" c] show ?thesis by (auto simp: kibosh_readdir_def Let_def)
qed

lemma portions_from:
  assumes "view (dp dir) w = Some (xs, k)" "length xs < 2 ^ 63" "\<forall>c \<in> set cs. 0 < c"
    and "ys = rest xs (if off = 0 then k else unat off)"
  shows "read_portions dir K cs off w = Some (map fst (take (sum_list cs) ys))"
  using assms(1,3,4)
proof (induction cs arbitrary: off w k ys)
  case (Cons c cs)
  let ?p = "if off = 0 then k else unat off"
  from readdir_portion [OF Cons.prems(1), of off c] obtain w' j where
    w': "kibosh_readdir fill off (Some dir) K ([], c) w = Ret (0, (map (apsnd of_nat) (take c ys), c), w')"
      "view (dp dir) w' = Some (xs, j)" "ys = [] \<Longrightarrow> rest xs j = []"
    using Cons.prems(3) by blast
  show ?case
  proof (cases "ys = []")
    case True
    have "read_portions dir K cs off w' = Some (map fst (take (sum_list cs) ys))"
      by (rule Cons.IH [OF w'(2)]) (use Cons.prems True w'(3) in auto)
    then show ?thesis using True w' by simp
  next
    case False
    then have r: "rest xs ?p \<noteq> []" "0 < c" using Cons.prems by simp_all
    from rest_portion [OF r] obtain q where q: "snd (last (take c ys)) = q" "0 < q" "q \<le> length xs" "rest xs q = drop c ys"
      using Cons.prems(3) by blast
    have ne: "take c ys \<noteq> []" using False r(2) by simp
    have off': "snd (last (map (apsnd of_nat) (take c ys))) = (of_nat q :: int64)"
      using q(1) ne by (simp add: last_map)
    have u: "unat (of_nat q :: int64) = q" "(of_nat q :: int64) \<noteq> 0"
    proof -
      show v: "unat (of_nat q :: int64) = q" using q(3) assms(2) by (simp add: unat_of_nat)
      show "(of_nat q :: int64) \<noteq> 0" using v q(2) by auto
    qed
    have "read_portions dir K cs (of_nat q) w' = Some (map fst (take (sum_list cs) (drop c ys)))"
      by (rule Cons.IH [OF w'(2)]) (use Cons.prems(2) u q(4) in simp_all)
    then show ?thesis using w'(1) off' ne by (simp add: take_add [of c])
  qed
qed simp

end

definition tree_view :: "nat \<Rightarrow> tree \<Rightarrow> (string list \<times> nat) option" where
  "tree_view d w = (if failures w = [] then stream_at d w else None)"

lemma stream_set: "stream_at d w = Some s \<Longrightarrow> stream_at d (set_stream d t w) = t"
  by (auto simp: stream_at_def set_stream_def split: if_splits)

interpretation tree_dirs: dir_streams tree_kernel tree_view
proof unfold_locales
  fix d w xs k off
  assume v: "tree_view d w = Some (xs, k)"
  then have f: "failures w = []" and s: "stream_at d w = Some (xs, k)" by (auto simp: tree_view_def split: if_splits)
  have t: "tree_view d (set_stream d (Some (xs, j)) w) = Some (xs, j)" for j
    using stream_set [OF s, of "Some (xs, j)"] f by (simp add: tree_view_def set_stream_def)
  show "\<exists>w'. read_dir tree_kernel d w = (Inr (Some (xs ! k)), w') \<and> tree_view d w' = Some (xs, k + 1)" if "k < length xs"
    using that f s t [of "k + 1"] by (simp add: tree_kernel_def attempt_def next_entry_def)
  show "\<exists>w'. read_dir tree_kernel d w = (Inr None, w') \<and> tree_view d w' = Some (xs, k)" if "length xs \<le> k"
    using that f s v by (simp add: tree_kernel_def attempt_def next_entry_def)
  show "tell_dir tree_kernel d w = of_nat k" using s by (simp add: tree_kernel_def stream_pos_def)
  show "tree_view d (snd (perform tree_kernel (Seekdir d off) w)) = Some (xs, unat off)"
    using s t [of "unat off"] by (simp add: tree_kernel_def seek_stream_def)
qed

text \<open>
  C18. Reading a directory in portions of any positive sizes delivers the entries of the directory
  in order, each exactly once and without the entries for the directory and its parent: after
  calls with capacities that add up to \<open>n\<close>, the first \<open>n\<close> of them.
\<close>

theorem readdir_portions:
  assumes "failures w = []" "stream_at (dp dir) w = Some (xs, 0)" "length xs < 2 ^ 63" "\<forall>c \<in> set cs. 0 < c"
  shows "read_portions dir tree_kernel cs 0 w = Some (take (sum_list cs) (filter (\<lambda>x. \<not> is_dot x) xs))"
proof -
  have "tree_view (dp dir) w = Some (xs, 0)" using assms(1,2) by (simp add: tree_view_def)
  from tree_dirs.portions_from [OF this assms(3,4), of "rest xs 0" 0] rest_names [of xs 0]
  show ?thesis by (simp add: take_map [symmetric])
qed

theorem readdir_portions_witness:
  "read_portions \<lparr>dp = 0, dir_path = ''/''\<rparr> tree_kernel [1, 2] 0
     (sample_tree\<lparr>streams := [Some ([''.'', ''a'', ''..'', ''b'', ''c'', ''d''], 0)]\<rparr>) = Some [''a'', ''b'', ''c'']"
  using readdir_portions [of "sample_tree\<lparr>streams := [Some ([''.'', ''a'', ''..'', ''b'', ''c'', ''d''], 0)]\<rparr>"
      "\<lparr>dp = 0, dir_path = ''/''\<rparr>" "[''.'', ''a'', ''..'', ''b'', ''c'', ''d'']" "[1, 2]"]
  by (simp add: sample_tree_def stream_at_def is_dot_def)

text \<open>
  The position is only set when the offset is not 0: reading a directory from its start again
  delivers nothing when it was read to its end before.
\<close>

lemma readdir_no_rewind:
  assumes "failures w = []" "stream_at (dp dir) w = Some (xs, length xs)"
  shows "\<exists>w'. kibosh_readdir fill 0 (Some dir) tree_kernel ([], c) w = Ret (0, ([], c), w')"
  using tree_dirs.readdir_portion [of dir w xs "length xs" 0 c] assms
  by (auto simp: tree_view_def rest.simps [of xs "length xs"])

text \<open>An error of \<open>readdir\<close> is returned to FUSE as a positive number, which is not an error code.\<close>

lemma readdir_error_sign:
  assumes "read_dir K (dp dir) w = (Inl e, w')" "0 < e"
  shows "kibosh_readdir fill 0 (Some dir) K buf w = Ret (e, buf, w')"
  using assms readdir_loop.simps [of fill "dp dir" K buf w] by (simp add: kibosh_readdir_def)

text \<open>
  When the directory object cannot be allocated, \<open>opendir\<close> reports success with a null pointer
  for the directory, the stream stays open, and the next call on the directory ends the process.
\<close>

theorem opendir_out_of_memory:
  assumes "open_dir K (backing_path fs path) w = (Inr d, w')"
  shows "kibosh_opendir path K fs (False # m) w = (0, None, m, w') \<and>
    kibosh_readdir filler off (fst (snd (kibosh_opendir path K fs (False # m) w))) K buf w' = Crash \<and>
    kibosh_releasedir (fst (snd (kibosh_opendir path K fs (False # m) w))) K w' = Crash"
  using assms
  by (simp add: kibosh_opendir_def kibosh_dir_alloc_def kibosh_readdir_def kibosh_releasedir_def AS_FUSE_ERR_def)

text \<open>
  \<open>fsyncdir\<close> for the data only: whatever directory is open, descriptor 0 is synchronized.
\<close>

lemma fsyncdir_data:
  assumes "0 \<le> dir_fd K (dp d) w"
  shows "kibosh_fsyncdir True (Some d) K w = Ret (status (perform K (Fdatasync 0) w))"
  using assms by (simp add: kibosh_fsyncdir_def)

end
