(* ===== verification/File_Facts.thy ===== *)
theory File_Facts
  imports File_Ops
begin

text \<open>
  What the handlers of \<open>file.c\<close> guarantee: which bytes a read delivers and a write stores
  under any behaviour of the kernel, what the faults make of them, and that the lock is
  free after each handler.
\<close>

section \<open>Transfers at an offset\<close>

definition same_files :: "posix \<Rightarrow> posix \<Rightarrow> bool" where
  "same_files w w' \<longleftrightarrow> inodes w' = inodes w \<and> names w' = names w \<and> fds w' = fds w"

lemma same_files_lookup: "same_files w w' \<Longrightarrow> fd_lookup fd w' = fd_lookup fd w"
  by (simp add: same_files_def fd_lookup_def)

lemma same_files_content: "same_files w w' \<Longrightarrow> fd_content w' fd = fd_content w fd"
  by (auto simp: same_files_def fd_lookup_def fd_content_def content_def split: option.splits)

lemma sys_pread_spec:
  assumes "sys_pread fd n off w = (q, w')" "fd_lookup fd w = Some d"
  shows "same_files w w' \<and> set (sched w') \<subseteq> set (sched w) \<and>
    ((\<exists>e. q = Inl e \<and> Error e \<in> set (sched w)) \<or>
     (\<exists>data. q = Inr data \<and> length data \<le> n \<and> data = take (length data) (drop off (fd_content w fd)) \<and>
             (data = [] \<longrightarrow> n = 0 \<or> length (fd_content w fd) \<le> off)))"
proof -
  obtain x w1 where x: "next_outcome w = (x, w1)" by (cases "next_outcome w")
  note fr = next_outcome_frame [OF x] and se = next_outcome_set [OF x]
  have w': "w' = w1" using assms x by (auto simp: sys_pread_def split: outcome.splits)
  show ?thesis
  proof (cases "\<exists>e. x = Error e")
    case True
    with assms x fr se w' show ?thesis by (auto simp: sys_pread_def same_files_def)
  next
    case False
    let ?rest = "drop off (fd_content w fd)" and ?data = "take (amount x n) (drop off (fd_content w fd))"
    have "q = Inr ?data"
      using assms x False by (auto simp: sys_pread_def fd_content_def split: outcome.splits)
    moreover have "length ?data \<le> n" using amount_le [of x n] by simp
    moreover have "?data = take (length ?data) ?rest" by (simp only: take_length_take)
    moreover have "?data = [] \<longrightarrow> n = 0 \<or> length (fd_content w fd) \<le> off"
      using amount_pos [of n x] by (cases n) auto
    ultimately show ?thesis using fr se w' by (auto simp: same_files_def)
  qed
qed

lemma sys_pwrite_spec:
  assumes "sys_pwrite fd data off w = (q, w')" "fd_lookup fd w = Some d" "d_inode d < length (inodes w)"
  shows "names w' = names w \<and> fds w' = fds w \<and> set (sched w') \<subseteq> set (sched w) \<and>
    ((\<exists>e. q = Inl e \<and> Error e \<in> set (sched w) \<and> inodes w' = inodes w) \<or>
     (\<exists>k \<le> length data. q = Inr k \<and> inodes w' = (inodes w)[d_inode d := splice (fd_content w fd) off (take k data)]))"
proof -
  obtain x w1 where x: "next_outcome w = (x, w1)" by (cases "next_outcome w")
  note fr = next_outcome_frame [OF x] and se = next_outcome_set [OF x]
  show ?thesis
  proof (cases "\<exists>e. x = Error e")
    case True
    with assms x fr se show ?thesis by (auto simp: sys_pwrite_def)
  next
    case False
    let ?out = "take (amount x (length data)) data"
    have "q = Inr (length ?out)" "w' = w1\<lparr>inodes := (inodes w)[d_inode d := splice (fd_content w fd) off ?out]\<rparr>"
      using assms x False fr by (auto simp: sys_pwrite_def fd_content_def Let_def split: outcome.splits)
    moreover have "?out = take (length ?out) data" by (simp only: take_length_take)
    moreover have "length ?out \<le> length data" by simp
    ultimately show ?thesis using fr se by auto
  qed
qed

section \<open>Reading\<close>

text \<open>
  The loop keeps the first \<open>off\<close> bytes of the buffer equal to the file's; the result is
  negative with a code of the kernel, or at most the number of bytes that are there.
\<close>

definition holds :: "string \<Rightarrow> nat \<Rightarrow> string \<Rightarrow> nat \<Rightarrow> bool" where
  "holds buf k file offset \<longleftrightarrow> k \<le> length buf \<and> offset + k \<le> max offset (length file) \<and>
     take k buf = take k (drop offset file)"

lemma holds_append:
  assumes "holds buf k file offset" "data = take (length data) (drop (offset + k) file)"
    "k + length data \<le> length buf"
  shows "holds (splice buf k data) (k + length data) file offset"
proof -
  have "length data \<le> length file - (offset + k)" by (metis assms(2) length_drop length_take min.cobounded1)
  moreover have "take (k + length data) (drop offset file) = take k (drop offset file) @ data"
    using assms(2) by (simp add: take_add add.commute)
  ultimately show ?thesis using assms by (auto simp: holds_def splice_def)
qed

lemma splice_length: "k + length data \<le> length buf \<Longrightarrow> length (splice buf k data) = length buf"
  by (simp add: splice_def)

lemma read_loop_spec:
  assumes "read_loop fd n offset off ret buf w = (r, buf', w')" "fd_lookup fd w = Some d"
    "off \<le> n" "n \<le> length buf" "holds buf off (fd_content w fd) offset" "0 \<le> ret" "ret \<le> int off"
  shows "same_files w w' \<and> length buf' = length buf \<and> set (sched w') \<subseteq> set (sched w) \<and>
    ((\<exists>e. r = - e \<and> Error e \<in> set (sched w)) \<or>
     (\<exists>k \<le> n. holds buf' k (fd_content w fd) offset \<and> 0 \<le> r \<and> r \<le> int k \<and>
        (r = int k \<or> k = n)))"
  using assms
proof (induction fd n offset off ret buf w arbitrary: r buf' w' rule: read_loop.induct)
  case (1 fd n offset off ret buf w)
  show ?case
  proof (cases "off < n")
    case False
    then have "r = ret" "buf' = buf" "w' = w"
      using "1.prems"(1) by (simp_all add: read_loop.simps [of fd n offset off ret buf w])
    moreover have "off = n" using False "1.prems"(3) by simp
    ultimately show ?thesis using "1.prems"(3-) by (auto simp: same_files_def)
  next
    case True
    obtain q w1 where q: "sys_pread fd (n - off) (offset + off) w = (q, w1)"
      by (cases "sys_pread fd (n - off) (offset + off) w")
    note sp = sys_pread_spec [OF q "1.prems"(2)]
    show ?thesis
    proof (cases q)
      case (Inl e)
      with "1.prems"(1) True q have "r = - e" "buf' = buf" "w' = w1"
        by (auto simp: read_loop.simps [of fd n offset off ret buf w])
      with sp Inl show ?thesis by auto
    next
      case (Inr data)
      show ?thesis
      proof (cases "data = []")
        case empty: True
        with "1.prems"(1) True q Inr have "r = int off" "buf' = buf" "w' = w1"
          by (auto simp: read_loop.simps [of fd n offset off ret buf w])
        with sp "1.prems" show ?thesis by auto
      next
        case False
        have rec: "read_loop fd n offset (off + length data) (int (length data)) (splice buf off data) w1 =
            (r, buf', w')"
          using "1.prems"(1) True q Inr False by (simp add: read_loop.simps [of fd n offset off ret buf w])
        have d: "length data \<le> n - off" "data = take (length data) (drop (offset + off) (fd_content w fd))"
          using sp Inr by auto
        have fit: "off + length data \<le> length buf" "off + length data \<le> n" using d(1) True "1.prems"(4) by auto
        note sf = same_files_lookup [of w w1] same_files_content [of w w1]
        have h: "holds (splice buf off data) (off + length data) (fd_content w1 fd) offset"
          using holds_append [OF "1.prems"(5) d(2) fit(1)] sf sp by simp
        from "1.IH" [OF True q [symmetric] Inr False rec _ fit(2) _ h] sp sf "1.prems"(2,4) splice_length [OF fit(1)]
        show ?thesis by (auto simp: same_files_def)
      qed
    qed
  qed
qed

text \<open>Error codes of the kernel are positive.\<close>

definition errnos_ok :: "posix \<Rightarrow> bool" where
  "errnos_ok w \<longleftrightarrow> (\<forall>e. Error e \<in> set (sched w) \<longrightarrow> 0 < e)"

lemma holds_Nil: "holds buf 0 file offset"
  by (simp add: holds_def)

lemma holds_le: "holds buf k file offset \<Longrightarrow> j \<le> k \<Longrightarrow> holds buf j file offset"
  by (auto simp: holds_def min_def dest: arg_cong [where f = "take j"])

lemma read_loop_start:
  assumes "read_loop fd n offset 0 0 buf w = (r, buf', w')" "fd_lookup fd w = Some d"
    "n \<le> length buf" "errnos_ok w"
  shows "same_files w w' \<and> length buf' = length buf \<and>
    (r < 0 \<longrightarrow> Error (- r) \<in> set (sched w)) \<and>
    (0 \<le> r \<longrightarrow> nat r \<le> n \<and> holds buf' (nat r) (fd_content w fd) offset)"
proof -
  from read_loop_spec [OF assms(1,2) _ assms(3) holds_Nil] have
    s: "same_files w w'" "length buf' = length buf" and
    c: "(\<exists>e. r = - e \<and> Error e \<in> set (sched w)) \<or>
        (\<exists>k \<le> n. holds buf' k (fd_content w fd) offset \<and> 0 \<le> r \<and> r \<le> int k)"
    by auto
  from c show ?thesis
  proof (elim disjE exE conjE)
    fix e assume "r = - e" "Error e \<in> set (sched w)"
    with s assms(4) show ?thesis by (auto simp: errnos_ok_def)
  next
    fix k assume "k \<le> n" "holds buf' k (fd_content w fd) offset" "0 \<le> r" "r \<le> int k"
    with s holds_le [of buf' k _ offset "nat r"] show ?thesis by auto
  qed
qed

text \<open>\<open>no_fault\<close>: the search finds nothing for this file and operation.\<close>

definition no_fault :: "kibosh_fs \<Rightarrow> kibosh_file \<Rightarrow> string \<Rightarrow> process \<Rightarrow> bool" where
  "no_fault fs file op p \<longleftrightarrow> fst (find_first_fault (faults fs) (file_path file) op (rnd p)) = None"

lemma kibosh_read_no_fault:
  assumes "no_fault fs file ''read'' p" "\<not> locked fs"
    "read_loop (file_fd file) n offset 0 0 buf (os p) = (r, buf1, w)"
  shows "\<exists>r1. kibosh_read file buf n offset fs p = Ret (r, buf1, fs, p\<lparr>os := w, rnd := r1\<rparr>)"
proof -
  obtain r1 where f: "find_first_fault (faults fs) (file_path file) ''read'' (rnd p) = (None, r1)"
    using assms(1) by (metis no_fault_def prod.collapse)
  have "p\<lparr>os := w\<rparr> = p\<lparr>os := w, rnd := rnd p\<rparr>" by (cases p) simp
  with assms(2,3) f unlock_lock [OF assms(2)] show ?thesis
    by (cases "r \<le> 0") (auto simp: kibosh_read_def pthread_mutex_lock_def intro: exI [of _ "rnd p"])
qed

text \<open>
  C14. A read to which no fault applies delivers bytes of the file: its result is a code of the
  kernel, negated, or a number of bytes, at most as many as were asked for, and that many
  bytes at the start of the buffer are those of the file at the offset, however the
  transfer was split. Files, descriptors, faults and lock are not changed.
\<close>

lemma kibosh_read_data:
  assumes "kibosh_read file buf n offset fs p = Ret (ret, buf', fs', p')"
    and "no_fault fs file ''read'' p" "\<not> locked fs" "errnos_ok (os p)"
    and "fd_lookup (file_fd file) (os p) = Some d" "n \<le> length buf"
  shows "(if ret < 0 then Error (- ret) \<in> set (sched (os p))
     else nat ret \<le> n \<and> take (nat ret) buf' = take (nat ret) (drop offset (fd_content (os p) (file_fd file))) \<and>
          offset + nat ret \<le> max offset (length (fd_content (os p) (file_fd file)))) \<and>
    length buf' = length buf \<and> fs' = fs \<and> same_files (os p) (os p')"
proof -
  obtain r buf1 w where l: "read_loop (file_fd file) n offset 0 0 buf (os p) = (r, buf1, w)"
    by (metis prod_cases3)
  from kibosh_read_no_fault [OF assms(2,3) l] assms(1)
  have "ret = r" "buf' = buf1" "fs' = fs" "os p' = w" by auto
  with read_loop_start [OF l assms(5,6,4)] show ?thesis by (auto simp: holds_def)
qed

definition sample_file :: kibosh_file where
  "sample_file = \<lparr>file_type = KIBOSH_FILE_TYPE_NORMAL, file_fd = 0, file_path = ''/a''\<rparr>"

lemma sample_read_ret:
  "\<exists>p'. kibosh_read sample_file ''.....'' 5 1 sample_fs (sample_process\<lparr>os := sample_posix\<lparr>sched := []\<rparr>\<rparr>) =
     Ret (4, ''ello.'', sample_fs, p')"
proof -
  have l: "read_loop (file_fd sample_file) 5 1 0 0 ''.....'' (os (sample_process\<lparr>os := sample_posix\<lparr>sched := []\<rparr>\<rparr>)) =
      (4, ''ello.'', sample_posix\<lparr>sched := []\<rparr>)"
    by (simp add: sample_process_def) code_simp
  have "no_fault sample_fs sample_file ''read'' (sample_process\<lparr>os := sample_posix\<lparr>sched := []\<rparr>\<rparr>)"
    by (simp add: no_fault_def sample_fs_def)
  from kibosh_read_no_fault [OF this _ l] show ?thesis by (auto simp: sample_fs_def)
qed

theorem kibosh_read_data_witness: "take 4 ''ello.'' = take 4 (drop 1 (fd_content (sample_posix\<lparr>sched := []\<rparr>) 0))"
proof -
  from sample_read_ret obtain p' where
    k: "kibosh_read sample_file ''.....'' 5 1 sample_fs (sample_process\<lparr>os := sample_posix\<lparr>sched := []\<rparr>\<rparr>) =
      Ret (4, ''ello.'', sample_fs, p')" ..
  have "no_fault sample_fs sample_file ''read'' (sample_process\<lparr>os := sample_posix\<lparr>sched := []\<rparr>\<rparr>)"
    "\<not> locked sample_fs" "errnos_ok (os (sample_process\<lparr>os := sample_posix\<lparr>sched := []\<rparr>\<rparr>))"
    "fd_lookup (file_fd sample_file) (os (sample_process\<lparr>os := sample_posix\<lparr>sched := []\<rparr>\<rparr>)) =
       Some \<lparr>d_inode = 0, d_off = 0, d_flags = 0\<rparr>" "(5 :: nat) \<le> length ''.....''"
    by (simp_all add: no_fault_def sample_fs_def errnos_ok_def fd_lookup_def sample_file_def sample_posix_def)
  from kibosh_read_data [OF k this] show ?thesis by (simp add: sample_file_def)
qed

lemma read_loop_end:
  "(off < n \<Longrightarrow> sys_pread fd (n - off) (offset + off) w = (Inr [], w)) \<Longrightarrow>
   read_loop fd n offset off (int off) buf w = (int off, buf, w)"
  by (subst read_loop.simps) simp

lemma sched_irrelevant [simp]:
  "fd_lookup fd (w\<lparr>sched := xs\<rparr>) = fd_lookup fd w" "content (w\<lparr>sched := xs\<rparr>) i = content w i"
  "fd_content (w\<lparr>sched := xs\<rparr>) fd = fd_content w fd"
  by (auto simp: fd_lookup_def content_def fd_content_def split: option.splits)

lemma read_loop_idle:
  assumes "sched w = []" "fd_lookup fd w = Some d" "0 < n"
  shows "read_loop fd n offset 0 0 buf w =
    (let data = take n (drop offset (fd_content w fd))
     in (int (length data), if data = [] then buf else splice buf 0 data, w))"
proof -
  have p: "sys_pread fd m o' w = (Inr (take m (drop o' (fd_content w fd))), w)" for m o'
    using assms by (simp add: sys_pread_def next_outcome_idle amount_def fd_content_def)
  let ?data = "take n (drop offset (fd_content w fd))"
  show ?thesis
  proof (cases "?data = []")
    case True
    then show ?thesis using assms(3) by (simp add: read_loop.simps [of fd n offset 0] p Let_def)
  next
    case False
    have "read_loop fd n offset (length ?data) (int (length ?data)) (splice buf 0 ?data) w =
        (int (length ?data), splice buf 0 ?data, w)"
    proof (rule read_loop_end)
      assume "length ?data < n"
      then have "drop (offset + length ?data) (fd_content w fd) = []" by auto
      then show "sys_pread fd (n - length ?data) (offset + length ?data) w = (Inr [], w)" by (simp only: p take_Nil)
    qed
    with False assms(3) show ?thesis
      by (simp add: read_loop.simps [of fd n offset 0] p Let_def del: length_take)
  qed
qed

text \<open>
  When the kernel completes every call, a read to which no fault applies returns as many
  bytes as were asked for, or as many as the file has after the offset.
\<close>

lemma kibosh_read_complete:
  assumes "no_fault fs file ''read'' p" "\<not> locked fs" "sched (os p) = []"
    and "fd_lookup (file_fd file) (os p) = Some d" "0 < n"
  shows "\<exists>buf' p'. kibosh_read file buf n offset fs p =
    Ret (int (min n (length (fd_content (os p) (file_fd file)) - offset)), buf', fs, p')"
proof -
  obtain r buf1 w where l: "read_loop (file_fd file) n offset 0 0 buf (os p) = (r, buf1, w)"
    by (metis prod_cases3)
  have "r = int (min n (length (fd_content (os p) (file_fd file)) - offset))"
    using l read_loop_idle [OF assms(3,4,5), of offset buf] by (auto simp: Let_def min.commute)
  with kibosh_read_no_fault [OF assms(1,2) l] show ?thesis by blast
qed

theorem kibosh_read_complete_witness:
  "\<exists>buf' p'. kibosh_read sample_file ''.....'' 5 1 sample_fs (sample_process\<lparr>os := sample_posix\<lparr>sched := []\<rparr>\<rparr>) =
     Ret (4, buf', sample_fs, p')"
  using kibosh_read_complete [of sample_fs sample_file "sample_process\<lparr>os := sample_posix\<lparr>sched := []\<rparr>\<rparr>" _ 5 "''.....''" 1]
  by (simp add: no_fault_def sample_fs_def fd_lookup_def sample_file_def sample_posix_def fd_content_def content_def)

text \<open>
  C33. When the kernel delivers a read in two parts that fill the buffer, the result counts the
  second part only, although all the bytes are in the buffer: the reader sees a short read.
\<close>

lemma kibosh_read_two_parts:
  assumes "no_fault fs file ''read'' p" "\<not> locked fs" "sched (os p) = [Short j]"
    and "fd_lookup (file_fd file) (os p) = Some d" "Suc j < n"
    and "offset + n \<le> length (fd_content (os p) (file_fd file))" "length buf = n"
  shows "\<exists>p'. kibosh_read file buf n offset fs p =
    Ret (int (n - Suc j), take n (drop offset (fd_content (os p) (file_fd file))), fs, p')"
proof -
  let ?fd = "file_fd file" and ?c = "fd_content (os p) (file_fd file)" and ?w = "os p\<lparr>sched := []\<rparr>"
  let ?a = "take (Suc j) (drop offset ?c)" and ?b = "take (n - Suc j) (drop (offset + Suc j) ?c)"
  have p1: "sys_pread ?fd n offset (os p) = (Inr ?a, ?w)"
    using assms(3,4,5) by (simp add: sys_pread_def next_outcome.simps amount_def fd_content_def min_absorb2)
  have p2: "sys_pread ?fd (n - Suc j) (offset + Suc j) ?w = (Inr ?b, ?w)"
    using assms(4)
    by (simp add: sys_pread_def next_outcome.simps amount_def fd_content_def)
  have la: "length ?a = Suc j" and lb: "length ?b = n - Suc j" using assms(5,6) by auto
  have ab: "?a @ ?b = take n (drop offset ?c)"
    using assms(5) take_add [of "Suc j" "n - Suc j" "drop offset ?c"] by (simp add: add.commute)
  have "splice (splice buf 0 ?a) (Suc j) ?b = take n (drop offset ?c)"
    using splice_splice [of 0 buf ?a ?b] la ab assms(6,7) by (simp add: splice_def)
  moreover have "read_loop ?fd n offset 0 0 buf (os p) =
      read_loop ?fd n offset (Suc j) (int (Suc j)) (splice buf 0 ?a) ?w"
    using p1 la assms(5) by (subst read_loop.simps) (auto simp del: take_Suc)
  moreover have "\<dots> = (int (n - Suc j), splice (splice buf 0 ?a) (Suc j) ?b, ?w)"
    using p2 lb assms(5) by (subst read_loop.simps) (auto simp: read_loop.simps [of ?fd n offset n])
  ultimately have "read_loop ?fd n offset 0 0 buf (os p) = (int (n - Suc j), take n (drop offset ?c), ?w)"
    by simp
  from kibosh_read_no_fault [OF assms(1,2) this] show ?thesis by blast
qed

theorem kibosh_read_two_parts_witness:
  "\<exists>p'. kibosh_read sample_file ''.....'' 5 0 sample_fs (sample_process\<lparr>os := sample_posix\<lparr>sched := [Short 1]\<rparr>\<rparr>) =
     Ret (3, ''hello'', sample_fs, p')"
  using kibosh_read_two_parts [of sample_fs sample_file "sample_process\<lparr>os := sample_posix\<lparr>sched := [Short 1]\<rparr>\<rparr>" 1 _ 5 0 "''.....''"]
  by (simp add: no_fault_def sample_fs_def fd_lookup_def sample_file_def sample_posix_def fd_content_def content_def)

section \<open>Reading with a fault\<close>

text \<open>
  C4. A read that delivered \<open>k\<close> bytes and to which the fault at position \<open>i\<close> applies returns
  what that kind of fault makes of it: the negated code, the same data later, or a
  corrupted or shortened buffer that is untouched past the \<open>k\<close> bytes. Only that fault is
  updated, it keeps its kind and paths, and the lock is free.
\<close>

lemma kibosh_read_with_fault:
  assumes "kibosh_read file buf n offset fs p = Ret (ret, buf', fs', p')" "\<not> locked fs"
    and "read_loop (file_fd file) n offset 0 0 buf (os p) = (int k, buf1, w)" "0 < k"
    and "k \<le> length buf1" "k < 2 ^ 31"
    and "find_first_fault (faults fs) (file_path file) ''read'' (rnd p) = (Some i, r1)"
  shows "\<exists>delay f'. read_outcome (faults fs ! i) k buf1 ret buf' delay \<and>
    fs' = fs\<lparr>faults := (faults fs)[i := f']\<rparr> \<and> fault_type f' = fault_type (faults fs ! i) \<and>
    fault_path_of f' = fault_path_of (faults fs ! i) \<and> os p' = w \<and>
    ns (now (clk p')) = ns (now (clk p)) + uint delay * 1000000"
proof -
  obtain ret2 buf2 delay f' r2 where a: "apply_read_fault (faults fs ! i) buf1 k r1 = (ret2, buf2, delay, f', r2)"
    by (metis prod_cases5)
  have u: "pthread_mutex_unlock (fs\<lparr>locked := True, faults := x\<rparr>) = fs\<lparr>faults := x\<rparr>" for x
    using assms(2) by (cases fs) (simp add: pthread_mutex_unlock_def)
  obtain p2 where s: "sleep_if delay (p\<lparr>os := w, rnd := r2\<rparr>) = Ret p2" and
    r: "ret = ret2" "buf' = buf2" "fs' = fs\<lparr>faults := (faults fs)[i := f']\<rparr>" "p' = p2"
    using assms(1,2,3,4,7) a u
    by (auto simp: kibosh_read_def pthread_mutex_lock_def Let_def split: run.splits)
  have "os p2 = w \<and> ns (now (clk p2)) = ns (now (clk p)) + uint delay * 1000000"
  proof (cases "delay > 0")
    case True
    then obtain c where c: "milli_sleep delay (clk p) = Ret c" "p2 = p\<lparr>os := w, rnd := r2, clk := c\<rparr>"
      using s by (auto simp: sleep_if_def split: run.splits)
    with milli_sleep_lasts [OF c(1)] show ?thesis by simp
  next
    case False
    with s show ?thesis by (auto simp: sleep_if_def word_gt_0)
  qed
  with r apply_read_fault_spec [OF a assms(5,6)] show ?thesis by blast
qed

lemma fault_read_example:
  "\<exists>p'. kibosh_read sample_file ''.....'' 5 0
     (sample_fs\<lparr>faults := [Unreadable \<lparr>fprefix = ''/'', fsuffix = [], code = 5\<rparr>]\<rparr>)
     (sample_process\<lparr>os := sample_posix\<lparr>sched := []\<rparr>\<rparr>) =
   Ret (- 5, ''hello'', sample_fs\<lparr>faults := [Unreadable \<lparr>fprefix = ''/'', fsuffix = [], code = 5\<rparr>]\<rparr>, p')"
proof -
  have l: "read_loop 0 5 0 0 0 ''.....'' (sample_posix\<lparr>sched := []\<rparr>) = (5, ''hello'', sample_posix\<lparr>sched := []\<rparr>)"
    by code_simp
  have f: "find_first_fault [Unreadable \<lparr>fprefix = ''/'', fsuffix = [], code = 5\<rparr>] ''/a'' ''read'' 1 = (Some 0, 1)"
    by code_simp
  show ?thesis using l f
    by (simp add: kibosh_read_def sample_file_def sample_process_def sample_fs_def pthread_mutex_lock_def
        pthread_mutex_unlock_def apply_read_fault_def kibosh_fault_unreadable_apply_def sleep_if_def)
qed

theorem kibosh_read_with_fault_witness:
  "\<exists>delay. read_outcome (Unreadable \<lparr>fprefix = ''/'', fsuffix = [], code = 5\<rparr>) 5 ''hello'' (- 5) ''hello'' delay"
proof -
  let ?fs = "sample_fs\<lparr>faults := [Unreadable \<lparr>fprefix = ''/'', fsuffix = [], code = 5\<rparr>]\<rparr>"
  from fault_read_example obtain p' where
    k: "kibosh_read sample_file ''.....'' 5 0 ?fs (sample_process\<lparr>os := sample_posix\<lparr>sched := []\<rparr>\<rparr>) =
      Ret (- 5, ''hello'', ?fs, p')" ..
  have l: "read_loop (file_fd sample_file) 5 0 0 0 ''.....'' (os (sample_process\<lparr>os := sample_posix\<lparr>sched := []\<rparr>\<rparr>)) =
      (int 5, ''hello'', sample_posix\<lparr>sched := []\<rparr>)"
    by (simp add: sample_process_def) code_simp
  have f: "find_first_fault (faults ?fs) (file_path sample_file) ''read'' (rnd (sample_process\<lparr>os := sample_posix\<lparr>sched := []\<rparr>\<rparr>)) =
      (Some 0, 1)"
    by (simp add: sample_process_def sample_file_def) code_simp
  from kibosh_read_with_fault [OF k _ l _ _ _ f] show ?thesis by (auto simp: sample_fs_def)
qed

section \<open>Writing\<close>

lemma write_loop_spec:
  assumes "write_loop fd buf offset off w = (k, w')" "fd_lookup fd w = Some d"
    "d_inode d < length (inodes w)" "off \<le> length buf" "offset + off \<le> length (fd_content w fd)"
  shows "off \<le> k \<and> k \<le> length buf \<and> names w' = names w \<and> fds w' = fds w \<and>
    set (sched w') \<subseteq> set (sched w) \<and>
    inodes w' = (inodes w)[d_inode d := splice (fd_content w fd) (offset + off) (take (k - off) (drop off buf))] \<and>
    (k < length buf \<longrightarrow> (\<exists>e. Error e \<in> set (sched w)))"
  using assms
proof (induction fd buf offset off w arbitrary: k w' rule: write_loop.induct)
  case (1 fd buf offset off w)
  let ?i = "d_inode d"
  have c: "fd_content w fd = inodes w ! ?i" using "1.prems"(2,3) by (simp add: fd_content_def content_def)
  show ?case
  proof (cases "off < length buf")
    case False
    then have "k = off" "w' = w" using "1.prems"(1) by (simp_all add: write_loop.simps [of fd buf offset off])
    with "1.prems" c False show ?thesis by (simp add: splice_Nil)
  next
    case True
    obtain q w1 where q: "sys_pwrite fd (drop off buf) (offset + off) w = (q, w1)"
      by (cases "sys_pwrite fd (drop off buf) (offset + off) w")
    note sp = sys_pwrite_spec [OF q "1.prems"(2,3)]
    show ?thesis
    proof (cases q)
      case (Inl e)
      with "1.prems"(1) True q have "k = off" "w' = w1" by (simp_all add: write_loop.simps [of fd buf offset off])
      with sp Inl "1.prems" c show ?thesis by (auto simp: splice_Nil)
    next
      case (Inr m)
      have rec: "write_loop fd buf offset (off + m) w1 = (k, w')"
        using "1.prems"(1) True q Inr by (simp add: write_loop.simps [of fd buf offset off])
      have m: "m \<le> length buf - off" and
        i1: "inodes w1 = (inodes w)[?i := splice (fd_content w fd) (offset + off) (take m (drop off buf))]"
        using sp Inr by auto
      have "fds w1 = fds w" using sp by simp
      then have l1: "fd_lookup fd w1 = Some d" using "1.prems"(2) by (metis fd_lookup_def)
      have c1: "fd_content w1 fd = splice (fd_content w fd) (offset + off) (take m (drop off buf))"
        using l1 i1 "1.prems"(3) by (simp add: fd_content_def content_def)
      have len1: "offset + (off + m) \<le> length (fd_content w1 fd)"
        using m "1.prems"(5) c1 by (simp add: length_splice min_absorb2)
      have "off + m \<le> length buf" using m True by simp
      from "1.IH" [OF True q [symmetric] Inr rec l1 _ this len1] i1 "1.prems"(3)
      have r: "off + m \<le> k" "k \<le> length buf" "names w' = names w1" "fds w' = fds w1"
        "set (sched w') \<subseteq> set (sched w1)" "k < length buf \<longrightarrow> (\<exists>e. Error e \<in> set (sched w1))"
        "inodes w' = (inodes w1)[?i := splice (fd_content w1 fd) (offset + (off + m)) (take (k - (off + m)) (drop (off + m) buf))]"
        by auto
      have "splice (fd_content w1 fd) (offset + (off + m)) (take (k - (off + m)) (drop (off + m) buf)) =
          splice (fd_content w fd) (offset + off) (take (k - off) (drop off buf))"
        using splice_splice [OF "1.prems"(5), of "take m (drop off buf)" "take (k - (off + m)) (drop (off + m) buf)"]
          c1 m r(1) take_add [of m "k - (off + m)" "drop off buf"]
        by (simp add: min_absorb2 add.assoc add.commute add.left_commute)
      with r i1 sp show ?thesis by auto
    qed
  qed
qed

text \<open>
  C15. A write to which no fault applies stores an initial part of its data at the offset and
  returns its length, and nothing else changes in the files; it stores all of them unless
  the kernel fails. The code of that failure is lost: the result is the length even then.
\<close>

lemma kibosh_write_data:
  assumes "no_fault fs file ''write'' p" "\<not> locked fs" "n \<le> length buf"
    and "fd_lookup (file_fd file) (os p) = Some d" "d_inode d < length (inodes (os p))"
    and "offset \<le> length (fd_content (os p) (file_fd file))"
  shows "\<exists>k p'. kibosh_write file buf n offset fs p = Ret (int k, fs, p') \<and> k \<le> n \<and>
    inodes (os p') = (inodes (os p))[d_inode d := splice (fd_content (os p) (file_fd file)) offset (take k buf)] \<and>
    names (os p') = names (os p) \<and> fds (os p') = fds (os p) \<and>
    (k < n \<longrightarrow> (\<exists>e. Error e \<in> set (sched (os p))))"
proof -
  obtain r1 where f: "find_first_fault (faults fs) (file_path file) ''write'' (rnd p) = (None, r1)"
    using assms(1) by (metis no_fault_def prod.collapse)
  obtain k w where l: "write_loop (file_fd file) (take n buf) offset 0 (os p) = (k, w)"
    by (cases "write_loop (file_fd file) (take n buf) offset 0 (os p)")
  have "kibosh_write file buf n offset fs p = Ret (int k, fs, p\<lparr>rnd := r1, os := w\<rparr>)"
    using f l assms(2) unlock_lock [OF assms(2)]
    by (simp add: kibosh_write_def pthread_mutex_lock_def sleep_if_def)
  moreover have "take k (take n buf) = take k buf" if "k \<le> n" using that by simp
  ultimately show ?thesis
    using write_loop_spec [OF l assms(4,5)] assms(3,6) by (auto simp: min_absorb2)
qed

theorem kibosh_write_data_witness:
  "\<exists>k p'. kibosh_write sample_file ''JE'' 2 1 sample_fs sample_process = Ret (int k, sample_fs, p') \<and> k \<le> 2"
  using kibosh_write_data [of sample_fs sample_file sample_process 2 "''JE''" "\<lparr>d_inode = 0, d_off = 0, d_flags = 0\<rparr>" 1]
  by (auto simp: no_fault_def sample_fs_def fd_lookup_def sample_file_def sample_process_def sample_posix_def
      fd_content_def content_def)

text \<open>
  A write to which an unwritable fault with a code other than 0 applies returns the negated
  code and does not touch the files.
\<close>

lemma kibosh_write_unwritable:
  assumes "find_first_fault (faults fs) (file_path file) ''write'' (rnd p) = (Some i, r1)"
    and "faults fs ! i = Unwritable u" "sint (code u) \<noteq> 0" "i < length (faults fs)" "\<not> locked fs"
  shows "kibosh_write file buf n offset fs p = Ret (- \<bar>sint (code u)\<bar>, fs, p\<lparr>rnd := r1\<rparr>)"
proof -
  have "p\<lparr>rnd := r1, memory := memory p\<rparr> = p\<lparr>rnd := r1\<rparr>" by (cases p) simp
  moreover have "fs\<lparr>faults := (faults fs)[i := Unwritable u]\<rparr> = fs"
    using assms(2) by (cases fs) (metis list_update_id kibosh_fs.select_convs(6) kibosh_fs.update_convs(6))
  moreover have "pthread_mutex_unlock (fs\<lparr>locked := True, faults := x\<rparr>) = fs\<lparr>faults := x\<rparr>" for x
    using assms(5) by (cases fs) (simp add: pthread_mutex_unlock_def)
  ultimately show ?thesis
    using assms
    by (simp add: kibosh_write_def pthread_mutex_lock_def apply_write_fault_def
        kibosh_fault_unwritable_apply_def negated_code Let_def)
qed

theorem kibosh_write_unwritable_witness:
  "\<exists>p'. kibosh_write sample_file ''x'' 1 0
     (sample_fs\<lparr>faults := [Unwritable \<lparr>fprefix = ''/'', fsuffix = [], code = 28\<rparr>]\<rparr>) sample_process =
   Ret (- 28, sample_fs\<lparr>faults := [Unwritable \<lparr>fprefix = ''/'', fsuffix = [], code = 28\<rparr>]\<rparr>, p')"
proof -
  let ?fs = "sample_fs\<lparr>faults := [Unwritable \<lparr>fprefix = ''/'', fsuffix = [], code = 28\<rparr>]\<rparr>"
  have "find_first_fault (faults ?fs) (file_path sample_file) ''write'' (rnd sample_process) = (Some 0, 1)"
    by code_simp
  from kibosh_write_unwritable [OF this] show ?thesis by (simp add: sample_fs_def)
qed



end
