(* ===== verification/Handler_Contract.thy ===== *)
theory Handler_Contract
  imports File_Facts
begin

text \<open>
  What every handler of \<open>file.c\<close> keeps of the file system object, with any arguments and under
  any behaviour of the kernel, the allocator and the clock: a contract that each of them is
  shown to meet. The theory \<open>Oper\<close> draws the conclusions for whole mounts.
\<close>

section \<open>The contract\<close>

definition fs_inv :: "kibosh_fs \<Rightarrow> bool" where
  "fs_inv fs \<longleftrightarrow> \<not> locked fs \<and> (\<forall>f \<in> set (faults fs). plain_paths f)"

locale handler_contract =
  fixes run_op :: "kibosh_fs \<Rightarrow> process \<Rightarrow> 'r run" and next_fs :: "'r \<Rightarrow> kibosh_fs"
  assumes keeps: "fs_inv fs \<Longrightarrow> run_op fs p = Ret r \<Longrightarrow> fs_inv (next_fs r)"
begin

fun repeated :: "nat \<Rightarrow> kibosh_fs \<Rightarrow> (nat \<Rightarrow> process) \<Rightarrow> kibosh_fs option" where
  "repeated 0 fs ps = Some fs"
| "repeated (Suc k) fs ps =
     (case run_op fs (ps k) of Ret r \<Rightarrow> repeated k (next_fs r) ps | _ \<Rightarrow> None)"

lemma repeated_keeps: "fs_inv fs \<Longrightarrow> repeated k fs ps = Some fs' \<Longrightarrow> fs_inv fs'"
  by (induction k arbitrary: fs) (auto split: run.splits dest: keeps)

end

section \<open>The handlers meet it\<close>

lemma plain_paths_cong: "fault_path_of f = fault_path_of g \<Longrightarrow> plain_paths f = plain_paths g"
  by (simp add: plain_paths_def)

lemma fs_inv_update:
  assumes "fs_inv fs" "i < length (faults fs)" "fault_path_of f = fault_path_of (faults fs ! i)"
  shows "fs_inv (fs\<lparr>faults := (faults fs)[i := f], locked := False\<rparr>)"
proof -
  have "plain_paths f" using assms by (auto simp: fs_inv_def plain_paths_def)
  with assms(1) show ?thesis
    by (auto simp: fs_inv_def dest!: set_update_subset_insert [THEN subsetD])
qed

lemma fs_inv_unlock: "fs_inv fs \<Longrightarrow> fs_inv (pthread_mutex_unlock (fs\<lparr>locked := True\<rparr>))"
  by (simp add: fs_inv_def pthread_mutex_unlock_def)

lemma find_first_fault_index:
  "find_first_fault fs path op r = (Some i, r') \<Longrightarrow> i < length fs"
  by (induction fs arbitrary: r i) (auto split: prod.splits if_splits)

lemma apply_read_fault_paths:
  "apply_read_fault f buf n r = (ret, buf', delay, f', r') \<Longrightarrow> fault_path_of f' = fault_path_of f"
  by (cases f) (auto simp: apply_read_fault_def kibosh_fault_read_corrupt_apply_def Let_def split: prod.splits)

lemma apply_write_fault_paths:
  "apply_write_fault f buf n r m = (ret, data, dyn, delay, f', r', m') \<Longrightarrow> fault_path_of f' = fault_path_of f"
  by (cases f) (auto simp: apply_write_fault_def kibosh_fault_write_corrupt_apply_def Let_def
      split: prod.splits if_splits)

interpretation read_handler: handler_contract "kibosh_read kfile buf n offset" "\<lambda>(ret, buf, fs, p). fs"
  for kfile buf n offset
proof
  fix fs p r
  assume inv: "fs_inv fs" and k: "kibosh_read kfile buf n offset fs p = Ret r"
  obtain rt b w where l: "read_loop (file_fd kfile) n offset 0 0 buf (os p) = (rt, b, w)" by (metis prod_cases3)
  obtain hit r1 where f: "find_first_fault (faults fs) (file_path kfile) ''read'' (rnd p) = (hit, r1)"
    by (cases "find_first_fault (faults fs) (file_path kfile) ''read'' (rnd p)")
  have lk: "\<not> locked fs" using inv by (simp add: fs_inv_def)
  show "fs_inv (case r of (ret, buf, fs, p) \<Rightarrow> fs)"
  proof (cases "rt \<le> 0 \<or> hit = None")
    case True
    with k l f lk inv unlock_lock [OF lk] show ?thesis
      by (auto simp: kibosh_read_def pthread_mutex_lock_def Let_def split: if_splits)
  next
    case False
    then obtain i where i: "hit = Some i" by auto
    obtain a1 a2 a3 g a5 where a: "apply_read_fault (faults fs ! i) b (nat rt) r1 = (a1, a2, a3, g, a5)"
      by (metis prod_cases5)
    have "(case r of (ret, buf, fs, p) \<Rightarrow> fs) = fs\<lparr>locked := True, faults := (faults fs)[i := g], locked := False\<rparr>"
      using k l f lk False i a
      by (auto simp: kibosh_read_def pthread_mutex_lock_def pthread_mutex_unlock_def Let_def split: run.splits)
    with fs_inv_update [OF inv find_first_fault_index [of "faults fs"] apply_read_fault_paths [OF a]] f i
    show ?thesis by auto
  qed
qed

interpretation write_handler: handler_contract "kibosh_write kfile buf n offset" "\<lambda>(ret, fs, p). fs"
  for kfile buf n offset
proof
  fix fs p r
  assume inv: "fs_inv fs" and k: "kibosh_write kfile buf n offset fs p = Ret r"
  obtain hit r1 where f: "find_first_fault (faults fs) (file_path kfile) ''write'' (rnd p) = (hit, r1)"
    by (cases "find_first_fault (faults fs) (file_path kfile) ''write'' (rnd p)")
  have lk: "\<not> locked fs" using inv by (simp add: fs_inv_def)
  show "fs_inv (case r of (ret, fs, p) \<Rightarrow> fs)"
  proof (cases hit)
    case None
    with k f lk inv unlock_lock [OF lk] show ?thesis
      by (auto simp: kibosh_write_def pthread_mutex_lock_def Let_def split: run.splits prod.splits)
  next
    case (Some i)
    obtain a1 a2 a3 a4 g a6 a7 where
      a: "apply_write_fault (faults fs ! i) buf n r1 (memory p) = (a1, a2, a3, a4, g, a6, a7)"
      by (metis prod_cases7)
    have "(case r of (ret, fs, p) \<Rightarrow> fs) = fs\<lparr>locked := True, faults := (faults fs)[i := g], locked := False\<rparr>"
      using k f lk Some a
      by (auto simp: kibosh_write_def pthread_mutex_lock_def pthread_mutex_unlock_def Let_def
          split: run.splits prod.splits if_splits)
    with fs_inv_update [OF inv find_first_fault_index [of "faults fs"] apply_write_fault_paths [OF a]] f Some
    show ?thesis by auto
  qed
qed

lemma accessor_release_inv:
  assumes "fs_inv fs" "kibosh_fs_accessor_fd_release fs fd p = Ret (ret, fs', p')"
  shows "fs_inv fs'"
  using assms
  by (auto simp: fs_inv_def release_defs Let_def dest: faults_parse_paths
      split: if_splits prod.splits sum.splits c_error.splits)

lemma on_fd_inv: "fs_inv fs \<Longrightarrow> on_fd call fs p = Ret (ret, fs', p') \<Longrightarrow> fs_inv fs'"
  by (auto simp: on_fd_def split: prod.splits sum.splits)

interpretation release_handler: handler_contract "kibosh_release kfile" "\<lambda>(ret, fs, p). fs" for kfile
  by unfold_locales
     (auto simp: kibosh_release_def dest: on_fd_inv accessor_release_inv
       split: kibosh_file_type.splits run.splits)

lemma accessor_alloc_inv:
  assumes "fs_inv fs" "kibosh_fs_accessor_fd_alloc fs populate p = Ret (ret, fs', p')"
  shows "fs_inv fs'"
  using assms
  by (auto simp: fs_inv_def kibosh_fs_accessor_fd_alloc_def pthread_mutex_lock_def pthread_mutex_unlock_def Let_def
      split: prod.splits sum.splits if_splits option.splits)

interpretation open_handler: handler_contract "kibosh_open_impl stale path fl" "\<lambda>(ret, file, fs, p). fs"
  for stale path fl
proof
  fix fs p r
  assume inv: "fs_inv fs" and k: "kibosh_open_impl stale path fl fs p = Ret r"
  have c: "fs_inv fs'" if "kibosh_open_control_file_impl stale path g fs p = Ret (ret, kf, fs', p')" for g ret kf fs' p'
    using that inv accessor_alloc_inv [OF inv]
    by (auto simp: kibosh_open_control_file_impl_def split: prod.splits if_splits run.splits sum.splits)
  have n: "fs_inv fs'" if "kibosh_open_normal_file_impl path g fs p = Ret (ret, kf, fs', p')" for g ret kf fs' p'
    using that inv
    by (auto simp: kibosh_open_normal_file_impl_def Let_def split: prod.splits if_splits sum.splits)
  from k show "fs_inv (case r of (ret, file, fs, p) \<Rightarrow> fs)"
    by (auto simp: kibosh_open_impl_def Let_def split: run.splits if_splits dest: c n)
qed

interpretation fsync_handler: handler_contract "kibosh_fsync datasync kfile" "\<lambda>(ret, fs, p). fs"
  for datasync kfile
  by unfold_locales (auto simp: kibosh_fsync_def dest: on_fd_inv)

interpretation ftruncate_handler: handler_contract "kibosh_ftruncate len kfile" "\<lambda>(ret, fs, p). fs"
  for len kfile
  by unfold_locales (auto simp: kibosh_ftruncate_def dest: on_fd_inv)

interpretation fallocate_handler: handler_contract "kibosh_fallocate fallocate md offset len kfile"
    "\<lambda>(ret, fs, p). fs" for fallocate md offset len kfile
  by unfold_locales (auto simp: kibosh_fallocate_def dest: on_fd_inv)

interpretation flush_handler: handler_contract "kibosh_flush kfile" "\<lambda>(ret, fs, p). fs" for kfile
  by unfold_locales (auto simp: kibosh_flush_def)

interpretation fgetattr_handler: handler_contract "kibosh_fgetattr kfile" "\<lambda>(ret, st, fs, p). fs" for kfile
  by unfold_locales (auto simp: kibosh_fgetattr_def split: prod.splits sum.splits)

interpretation stat_handler: handler_contract kibosh_fs_control_stat "\<lambda>(ret, fs, p). fs"
  by unfold_locales
     (auto simp: kibosh_fs_control_stat_def fs_inv_def pthread_mutex_lock_def pthread_mutex_unlock_def
       split: prod.splits sum.splits)

lemma sleep_if_not_stuck: "sleep_if delay p \<noteq> Stuck"
proof -
  have "milli_sleep delay (clk p) \<noteq> Stuck" by (simp add: milli_sleep_def sleep_loop_spec)
  then show ?thesis by (auto simp: sleep_if_def split: run.splits)
qed

end
