(* ===== verification/Oper.thy ===== *)
theory Oper
  imports Meta_Dirs Handler_Contract
begin

text \<open>
  Model of \<open>kibosh_oper\<close>, the table of operations in \<open>main.c\<close>, with \<open>kibosh_init\<close> and
  \<open>kibosh_destroy\<close>: what FUSE calls for each request, on the file system object, the process and
  the kernel's tree. On the whole table it is shown that the handlers name no path outside the
  target directory, keep the invariant of the file system object and never wait for its lock in
  vain.
\<close>

section \<open>The table\<close>

text \<open>
  The operations of FUSE that have a handler, with their arguments. The requests that change the
  tree are those of the kernel.
\<close>

datatype fuse_call =
    F_request request
  | F_getattr string | F_readlink string string | F_statfs string
  | F_getxattr string string string | F_listxattr string string
  | F_opendir string | F_readdir "kibosh_dir option" int64 nat
  | F_releasedir "kibosh_dir option" | F_fsyncdir bool "kibosh_dir option"
  | F_open string int32 | F_create string int32
  | F_read kibosh_file string nat nat | F_write kibosh_file string nat nat
  | F_flush kibosh_file | F_release kibosh_file | F_fsync bool kibosh_file
  | F_ftruncate nat kibosh_file | F_fgetattr kibosh_file | F_fallocate int32 int int kibosh_file

datatype fuse_reply =
    R_status int | R_attr int "attributes option" | R_text int "string option"
  | R_space int "statvfs_buf option" | R_file int "kibosh_file option" | R_dir int "kibosh_dir option"
  | R_entries int dir_buffer | R_size int "nat option"

text \<open>
  What the handlers find in FUSE's context and in the globals: the caller, whether debug messages
  are on, the contents of freed memory and the call \<open>fallocate\<close>.
\<close>

record fuse_context =
  c_uid :: uint32
  c_gid :: uint32
  c_debug :: bool
  c_stale :: int
  c_fallocate :: "nat \<Rightarrow> int32 \<Rightarrow> int \<Rightarrow> int \<Rightarrow> unit sys"

type_synonym 'w world = "kibosh_fs \<times> process \<times> 'w"

text \<open>Running a handler of \<open>file.c\<close>, which leaves the tree alone.\<close>

definition on_file :: "(int \<times> kibosh_fs \<times> process) run \<Rightarrow> 'w \<Rightarrow> (fuse_reply \<times> 'w world) run" where
  "on_file r w =
     (case r of Ret (ret, fs, p) \<Rightarrow> Ret (R_status ret, fs, p, w) | Crash \<Rightarrow> Crash | Stuck \<Rightarrow> Stuck)"

definition kibosh_oper :: "fuse_context \<Rightarrow> fuse_call \<Rightarrow> 'w kernel \<Rightarrow> 'w world \<Rightarrow> (fuse_reply \<times> 'w world) run" where
  "kibosh_oper c call K s =
     (case s of (fs, p, w) \<Rightarrow>
      case call of
        F_request (Setxattr path name val fl) \<Rightarrow>
          (case kibosh_setxattr (c_debug c) path name val fl K fs (memory p) w of
             (ret, m, w') \<Rightarrow> Ret (R_status ret, fs, p\<lparr>memory := m\<rparr>, w'))
      | F_request q \<Rightarrow> (case handle (c_uid c) (c_gid c) q K fs w of (ret, w') \<Rightarrow> Ret (R_status ret, fs, p, w'))
      | F_getattr path \<Rightarrow>
          (case kibosh_getattr path K fs p w of
             Ret (ret, st, fs', p', w') \<Rightarrow> Ret (R_attr ret st, fs', p', w')
           | Crash \<Rightarrow> Crash
           | Stuck \<Rightarrow> Stuck)
      | F_readlink path buf \<Rightarrow>
          (case kibosh_readlink path buf (length buf) K fs w of (ret, t, w') \<Rightarrow> Ret (R_text ret t, fs, p, w'))
      | F_statfs path \<Rightarrow> (case kibosh_statfs path K fs w of (ret, v, w') \<Rightarrow> Ret (R_space ret v, fs, p, w'))
      | F_getxattr path name buf \<Rightarrow>
          (case kibosh_getxattr (c_debug c) path name buf (length buf) K fs (memory p) w of
             (ret, t, m, w') \<Rightarrow> Ret (R_text ret (Some t), fs, p\<lparr>memory := m\<rparr>, w'))
      | F_listxattr path buf \<Rightarrow>
          (case kibosh_listxattr path buf (length buf) K fs w of (ret, t, w') \<Rightarrow> Ret (R_text ret (Some t), fs, p, w'))
      | F_opendir path \<Rightarrow>
          (case kibosh_opendir path K fs (memory p) w of
             (ret, dir, m, w') \<Rightarrow> Ret (R_dir ret dir, fs, p\<lparr>memory := m\<rparr>, w'))
      | F_readdir dir off n \<Rightarrow>
          (case kibosh_readdir fill off dir K ([], n) w of
             Ret (ret, buf, w') \<Rightarrow> Ret (R_entries ret buf, fs, p, w')
           | Crash \<Rightarrow> Crash
           | Stuck \<Rightarrow> Stuck)
      | F_releasedir dir \<Rightarrow>
          (case kibosh_releasedir dir K w of
             Ret (ret, w') \<Rightarrow> Ret (R_status ret, fs, p, w') | Crash \<Rightarrow> Crash | Stuck \<Rightarrow> Stuck)
      | F_fsyncdir ds dir \<Rightarrow>
          (case kibosh_fsyncdir ds dir K w of
             Ret (ret, w') \<Rightarrow> Ret (R_status ret, fs, p, w') | Crash \<Rightarrow> Crash | Stuck \<Rightarrow> Stuck)
      | F_open path fl \<Rightarrow>
          (case kibosh_open (c_stale c) path fl fs p of
             Ret (ret, kf, fs', p') \<Rightarrow> Ret (R_file ret kf, fs', p', w) | Crash \<Rightarrow> Crash | Stuck \<Rightarrow> Stuck)
      | F_create path fl \<Rightarrow>
          (case kibosh_create (c_stale c) path fl fs p of
             Ret (ret, kf, fs', p') \<Rightarrow> Ret (R_file ret kf, fs', p', w) | Crash \<Rightarrow> Crash | Stuck \<Rightarrow> Stuck)
      | F_read kf buf n off \<Rightarrow>
          (case kibosh_read kf buf n off fs p of
             Ret (ret, t, fs', p') \<Rightarrow> Ret (R_text ret (Some t), fs', p', w) | Crash \<Rightarrow> Crash | Stuck \<Rightarrow> Stuck)
      | F_write kf buf n off \<Rightarrow> on_file (kibosh_write kf buf n off fs p) w
      | F_flush kf \<Rightarrow> on_file (kibosh_flush kf fs p) w
      | F_release kf \<Rightarrow> on_file (kibosh_release kf fs p) w
      | F_fsync ds kf \<Rightarrow> on_file (kibosh_fsync ds kf fs p) w
      | F_ftruncate len kf \<Rightarrow> on_file (kibosh_ftruncate len kf fs p) w
      | F_fgetattr kf \<Rightarrow>
          (case kibosh_fgetattr kf fs p of
             Ret (ret, st, fs', p') \<Rightarrow> Ret (R_size ret st, fs', p', w) | Crash \<Rightarrow> Crash | Stuck \<Rightarrow> Stuck)
      | F_fallocate md off len kf \<Rightarrow> on_file (kibosh_fallocate (c_fallocate c) md off len kf fs p) w)"

definition DROP_CACHES_PATH :: string where "DROP_CACHES_PATH = ''/proc/sys/vm/drop_caches''"

text \<open>
  \<open>kibosh_init\<close> starts the thread that drops caches every second, and aborts when it cannot;
  the capabilities it asks FUSE for are left out.
\<close>

definition kibosh_init :: "bool \<Rightarrow> kibosh_fs \<Rightarrow> process \<Rightarrow> (kibosh_fs \<times> process) run" where
  "kibosh_init pthread_ok fs p =
     (case drop_cache_thread_start DROP_CACHES_PATH 1 pthread_ok (memory p) of
        (None, m) \<Rightarrow> Crash
      | (Some t, m) \<Rightarrow> Ret (fs\<lparr>drop_thread := Some t\<rparr>, p\<lparr>memory := m\<rparr>))"

definition kibosh_destroy :: "kibosh_fs \<Rightarrow> process \<Rightarrow> process" where
  "kibosh_destroy fs p = kibosh_fs_free fs p"

section \<open>The paths the handlers name\<close>

fun query_paths :: "query \<Rightarrow> string list" where
  "query_paths (Getxattr path name) = [path]"
| "query_paths (Listxattr path) = [path]"
| "query_paths (Readlink path) = [path]"

lemma readdir_loop_keeps:
  fixes I :: "'w \<Rightarrow> bool" and filler :: "string \<Rightarrow> int64 \<Rightarrow> 'b \<Rightarrow> bool \<times> 'b"
  assumes "readdir_loop filler d K buf w = Some r" "\<And>w. I w \<Longrightarrow> I (snd (read_dir K d w))" "I w"
  shows "I (snd (snd r))"
proof -
  have "(\<forall>w. I w \<longrightarrow> I (snd (read_dir K d w))) \<longrightarrow> I w \<longrightarrow> I (snd (snd r))"
  proof (rule readdir_loop.raw_induct [where P = "\<lambda>f d K b w r. (\<forall>w. I w \<longrightarrow> I (snd (read_dir K d w))) \<longrightarrow> I w \<longrightarrow> I (snd (snd r))",
        OF _ assms(1)])
    fix loop :: "(string \<Rightarrow> int64 \<Rightarrow> 'b \<Rightarrow> bool \<times> 'b) \<Rightarrow> nat \<Rightarrow> 'w kernel \<Rightarrow> 'b \<Rightarrow> 'w \<Rightarrow> (int \<times> 'b \<times> 'w) option"
    fix filler :: "string \<Rightarrow> int64 \<Rightarrow> 'b \<Rightarrow> bool \<times> 'b" and d and K :: "'w kernel" and buf w r
    assume 1: "\<And>f d K b w r. loop f d K b w = Some r \<Longrightarrow> (\<forall>w. I w \<longrightarrow> I (snd (read_dir K d w))) \<longrightarrow> I w \<longrightarrow> I (snd (snd r))"
      and 2: "(case read_dir K d w of (Inl e, w') \<Rightarrow> Some (- e, buf, w')
        | (Inr None, w') \<Rightarrow> Some (0, buf, w')
        | (Inr (Some name), w') \<Rightarrow>
            if is_dot name then loop filler d K buf w'
            else (case filler name (tell_dir K d w') buf of (full, buf') \<Rightarrow>
              if full then Some (1, buf', w') else loop filler d K buf' w')) = Some r"
    show "(\<forall>w. I w \<longrightarrow> I (snd (read_dir K d w))) \<longrightarrow> I w \<longrightarrow> I (snd (snd r))"
    proof (intro impI)
      assume keep: "\<forall>w. I w \<longrightarrow> I (snd (read_dir K d w))" and w: "I w"
      obtain e w' where e: "read_dir K d w = (e, w')" by (cases "read_dir K d w")
      have w': "I w'" using keep w e by (metis snd_conv)
      have again: "I (snd (snd r))" if "loop filler d K b w' = Some r" for b
        using 1 [OF that] keep w' by blast
      show "I (snd (snd r))"
      proof (cases e)
        case (Inl x)
        with 2 e w' show ?thesis by auto
      next
        case (Inr nm)
        with 2 e w' again show ?thesis by (cases nm) (auto split: if_splits prod.splits)
      qed
    qed
  qed
  with assms(2,3) show ?thesis by blast
qed

text \<open>
  A kernel with a property \<open>I\<close> of its state that calls keep as long as they name no path
  but those that are \<open>ok\<close>.
\<close>

locale guarded =
  fixes K :: "'w kernel" and ok :: "string \<Rightarrow> bool" and I :: "'w \<Rightarrow> bool"
  assumes perform_keeps: "\<forall>x \<in> set (request_paths r). ok x \<Longrightarrow> I w \<Longrightarrow> I (snd (perform K r w))"
    and fetch_keeps: "\<forall>x \<in> set (query_paths q). ok x \<Longrightarrow> I w \<Longrightarrow> I (snd (fetch K q n w))"
    and stat_keeps: "ok x \<Longrightarrow> I w \<Longrightarrow> I (snd (stat_path K x w))"
    and statvfs_keeps: "ok x \<Longrightarrow> I w \<Longrightarrow> I (snd (statvfs_path K x w))"
    and open_dir_keeps: "ok x \<Longrightarrow> I w \<Longrightarrow> I (snd (open_dir K x w))"
    and read_dir_keeps: "I w \<Longrightarrow> I (snd (read_dir K d w))"
begin

lemma status_keeps:
  assumes "status (perform K r w) = (ret, w')" "\<forall>x \<in> set (request_paths r). ok x" "I w"
  shows "I w'"
  using assms(1) perform_keeps [OF assms(2,3)] by (auto simp: status_def split: prod.splits sum.splits)

lemma setxattr_keeps:
  assumes "\<forall>path. ok (backing_path fs path)" "I w"
  shows "kibosh_setxattr debug path name val fl K fs m w = (ret, m', w') \<Longrightarrow> I w'"
  using assms by (auto simp: kibosh_setxattr_def dest!: status_keeps split: prod.splits option.splits if_splits)

lemma handle_keeps:
  assumes "\<forall>path. ok (backing_path fs path)" "I w"
  shows "handle u g r K fs w = (ret, w') \<Longrightarrow> I w'"
proof (cases r)
  case (Mkdir path md)
  have "I (snd (perform K (Mkdir (backing_path fs path) md) w))" using assms perform_keeps by simp
  then have "I (snd (perform K (Chown (backing_path fs path) u g) (snd (perform K (Mkdir (backing_path fs path) md) w))))"
    using assms perform_keeps by simp
  moreover assume "handle u g r K fs w = (ret, w')"
  ultimately show ?thesis using Mkdir by (auto simp: kibosh_mkdir_def Let_def split: prod.splits sum.splits)
next
  case (Setxattr path name val fl)
  assume "handle u g r K fs w = (ret, w')"
  with Setxattr setxattr_keeps [OF assms, of False path name val fl "[]"] show ?thesis by (auto split: prod.splits)
qed (use assms in \<open>auto dest!: status_keeps simp: kibosh_chmod_def kibosh_chown_def kibosh_link_def kibosh_mknod_def
      kibosh_removexattr_def kibosh_rename_def kibosh_rmdir_def kibosh_symlink_def
      kibosh_truncate_def kibosh_unlink_def kibosh_utime_def kibosh_utimens_def\<close>)

lemma queries_keep:
  assumes "\<forall>path. ok (backing_path fs path)" "I w"
  shows "kibosh_getxattr debug path name buf n K fs m w = (ret, t, m', w') \<Longrightarrow> I w'"
    and "kibosh_listxattr path buf n K fs w = (ret, t, w') \<Longrightarrow> I w'"
    and "kibosh_readlink path buf n K fs w = (ret, t', w') \<Longrightarrow> I w'"
  using assms fetch_keeps [of "Getxattr (backing_path fs path) name" w n]
    fetch_keeps [of "Listxattr (backing_path fs path)" w n] fetch_keeps [of "Readlink (backing_path fs path)" w n]
  by (auto simp: kibosh_getxattr_def kibosh_listxattr_def kibosh_readlink_def Let_def
      split: prod.splits sum.splits if_splits option.splits)

lemma stats_keep:
  assumes "\<forall>path. ok (backing_path fs path)" "I w"
  shows "kibosh_getattr path K fs p w = Ret (ret, st, fs', p', w') \<Longrightarrow> I w'"
    and "kibosh_statfs path K fs w = (ret, v, w') \<Longrightarrow> I w'"
    and "kibosh_opendir path K fs m w = (ret, dir, m', w') \<Longrightarrow> I w'"
  using assms stat_keeps [of "backing_path fs path" w] statvfs_keeps [of "backing_path fs path" w]
    open_dir_keeps [of "backing_path fs path" w]
  by (auto simp: kibosh_getattr_def kibosh_statfs_def kibosh_opendir_def
      split: prod.splits sum.splits if_splits run.splits)

lemma streams_keep:
  assumes "I w"
  shows "kibosh_readdir filler off dir K buf w = Ret (ret, buf', w') \<Longrightarrow> I w'"
    and "kibosh_releasedir dir K w = Ret (ret, w') \<Longrightarrow> I w'"
    and "kibosh_fsyncdir ds dir K w = Ret (ret, w') \<Longrightarrow> I w'"
proof -
  assume r: "kibosh_readdir filler off dir K buf w = Ret (ret, buf', w')"
  then obtain d where d: "dir = Some d" by (cases dir) (auto simp: kibosh_readdir_def)
  have "I (if off \<noteq> 0 then snd (perform K (Seekdir (dp d) off) w) else w)"
    using assms perform_keeps [of "Seekdir (dp d) off"] by simp
  with r d readdir_loop_keeps [where K = K and I = I and d = "dp d"] read_dir_keeps show "I w'"
    by (fastforce simp: kibosh_readdir_def Let_def split: option.splits prod.splits)
next
  assume "kibosh_releasedir dir K w = Ret (ret, w')"
  with assms show "I w'" by (cases dir) (auto simp: kibosh_releasedir_def dest!: status_keeps)
next
  assume "kibosh_fsyncdir ds dir K w = Ret (ret, w')"
  with assms show "I w'" by (cases dir) (auto simp: kibosh_fsyncdir_def dest!: status_keeps split: if_splits)
qed

lemma oper_keeps:
  assumes "\<forall>path. ok (backing_path fs path)" "I w" "kibosh_oper c call K (fs, p, w) = Ret (rep, fs', p', w')"
  shows "I w'"
proof (cases call)
  case (F_request r)
  with assms show ?thesis
    by (cases r) (auto simp: kibosh_oper_def simp del: handle.simps split: prod.splits
        dest: handle_keeps  setxattr_keeps )
qed (use assms in \<open>auto simp: kibosh_oper_def on_file_def split: prod.splits run.splits
      dest: queries_keep  stats_keep  streams_keep\<close>)

end

text \<open>A kernel that also writes down the paths it is asked about.\<close>

definition noting :: "string list \<Rightarrow> 'a \<times> 'w \<Rightarrow> string list \<Rightarrow> 'a \<times> 'w \<times> string list" where
  "noting ps r l = (case r of (x, w) \<Rightarrow> (x, w, l @ ps))"

definition logged :: "'w kernel \<Rightarrow> ('w \<times> string list) kernel" where
  "logged K =
     \<lparr>perform = (\<lambda>r (w, l). noting (request_paths r) (perform K r w) l),
      fetch = (\<lambda>q n (w, l). noting (query_paths q) (fetch K q n w) l),
      stat_path = (\<lambda>x (w, l). noting [x] (stat_path K x w) l),
      statvfs_path = (\<lambda>x (w, l). noting [x] (statvfs_path K x w) l),
      open_dir = (\<lambda>x (w, l). noting [x] (open_dir K x w) l),
      read_dir = (\<lambda>d (w, l). noting [] (read_dir K d w) l),
      tell_dir = (\<lambda>d (w, l). tell_dir K d w),
      dir_fd = (\<lambda>d (w, l). dir_fd K d w)\<rparr>"

lemma noting_log [simp]: "snd (snd (noting ps r l)) = l @ ps"
  by (simp add: noting_def split: prod.split)

interpretation log: guarded "logged K" ok "\<lambda>w. \<forall>x \<in> set (snd w). ok x" for K ok
  by unfold_locales (auto simp: logged_def split: prod.splits)

lemma backing_prefix: "length (fs_root fs) < PATH_MAX \<Longrightarrow> prefix (fs_root fs) (backing_path fs path)"
  by (auto simp: backing_path_def prefix_def)


definition sample_context :: fuse_context where
  "sample_context = \<lparr>c_uid = 7, c_gid = 8, c_debug = False, c_stale = 0, c_fallocate = (\<lambda>fd md off len. sys_status)\<rparr>"


section \<open>Mounts\<close>

text \<open>
  From the return of \<open>kibosh_init\<close> on, FUSE calls operations one after the other, in any order
  and with any arguments. Between two of them the process may meet anything: other system
  calls, failures of the allocator, time that passes.
\<close>

inductive mounted :: "'w kernel \<Rightarrow> kibosh_fs \<Rightarrow> kibosh_fs \<Rightarrow> bool" for K :: "'w kernel" where
  initialised: "kibosh_init pthread_ok fs p = Ret (fs', p') \<Longrightarrow> mounted K fs fs'"
| served: "mounted K fs fs1 \<Longrightarrow> kibosh_oper c call K (fs1, p, w) = Ret (reply, fs2, p', w') \<Longrightarrow> mounted K fs fs2"

lemma oper_fs_inv:
  assumes "fs_inv fs" "kibosh_oper c call K (fs, p, w) = Ret (reply, fs', p', w')"
  shows "fs_inv fs'"
proof (cases call)
  case (F_request r)
  with assms show ?thesis by (cases r) (auto simp: kibosh_oper_def simp del: handle.simps split: prod.splits)
next
  case (F_getattr path)
  with assms stat_handler.keeps [of fs p] show ?thesis
    by (fastforce simp: kibosh_oper_def kibosh_getattr_def split: run.splits if_splits prod.splits sum.splits)
next
  case (F_open path fl)
  with assms open_handler.keeps [of fs "c_stale c" path fl p] show ?thesis
    by (auto simp: kibosh_oper_def kibosh_open_def split: run.splits prod.splits)
next
  case (F_create path fl)
  with assms open_handler.keeps [of fs "c_stale c" path fl p] show ?thesis
    by (auto simp: kibosh_oper_def kibosh_create_def split: run.splits prod.splits)
qed (use assms in \<open>auto simp: kibosh_oper_def on_file_def split: prod.splits run.splits
      dest: read_handler.keeps write_handler.keeps release_handler.keeps fsync_handler.keeps
      ftruncate_handler.keeps fallocate_handler.keeps flush_handler.keeps fgetattr_handler.keeps\<close>)

lemma mounted_inv:
  assumes "mounted K fs fs'" "fs_inv fs"
  shows "fs_inv fs'"
  using assms
proof (induction rule: mounted.induct)
  case (initialised pthread_ok fs p fs' p')
  then show ?case by (auto simp: kibosh_init_def fs_inv_def split: prod.splits option.splits)
qed (blast intro: oper_fs_inv)

text \<open>A mount right after \<open>kibosh_init\<close>.\<close>

definition mounted_fs :: kibosh_fs where
  "mounted_fs = (fresh_fs ''/t'' None sample_conf 3)
     \<lparr>drop_thread := Some \<lparr>dc_path = DROP_CACHES_PATH, should_run = True, period = 1, dc_lock = None, dc_loc = Top\<rparr>\<rparr>"

lemma mounted_sample: "mounted K (fresh_fs ''/t'' None sample_conf 3) mounted_fs"
  by (rule mounted.initialised [of True _ sample_process _ sample_process])
     (simp add: kibosh_init_def drop_cache_thread_start_def mounted_fs_def sample_process_def)

text \<open>
  C6. In every state of a mount of a freshly made file system the lock is free between
  operations and all fault paths are C strings, as the search for faults requires.
\<close>

lemma mount_invariant:
  assumes "mounted K (fresh_fs r pidfile conf fd) fs"
  shows "\<not> locked fs \<and> (\<forall>f \<in> set (faults fs). plain_paths f)"
  using mounted_inv [OF assms] by (simp add: fs_inv_def fresh_fs_def)

theorem mount_invariant_witness: "\<not> locked mounted_fs"
  using mount_invariant [OF mounted_sample] by blast

text \<open>
  The operations that run a loop whose end is up to the kernel: one over a directory, and the
  copy of the control file, which is shown elsewhere to end.
\<close>

fun endless :: "fuse_call \<Rightarrow> bool" where
  "endless (F_readdir dir off n) = True"
| "endless (F_open path fl) = strcmp_eq KIBOSH_CONTROL_PATH path"
| "endless (F_create path fl) = strcmp_eq KIBOSH_CONTROL_PATH path"
| "endless _ = False"

lemma on_fd_not_stuck: "on_fd call fs p \<noteq> Stuck"
  by (auto simp: on_fd_def split: prod.splits sum.splits)

lemma open_not_stuck:
  assumes "\<not> strcmp_eq KIBOSH_CONTROL_PATH path"
  shows "kibosh_open_impl stale path fl fs p \<noteq> Stuck"
proof -
  have "kibosh_open_normal_file_impl path g fs p \<noteq> Stuck" for g
    by (auto simp: kibosh_open_normal_file_impl_def Let_def split: prod.splits sum.splits)
  with assms show ?thesis by (auto simp: kibosh_open_impl_def Let_def split: run.splits)
qed

lemma read_not_stuck: "\<not> locked fs \<Longrightarrow> kibosh_read kf buf n offset fs p \<noteq> Stuck"
  using sleep_if_not_stuck
  by (auto simp: kibosh_read_def pthread_mutex_lock_def Let_def split: prod.splits option.splits run.splits)

lemma write_not_stuck: "\<not> locked fs \<Longrightarrow> kibosh_write kf buf n offset fs p \<noteq> Stuck"
  using sleep_if_not_stuck
  by (auto simp: kibosh_write_def pthread_mutex_lock_def Let_def split: prod.splits option.splits run.splits)

lemma release_not_stuck: "\<not> locked fs \<Longrightarrow> kibosh_release kf fs p \<noteq> Stuck"
  by (auto simp: kibosh_release_def on_fd_def release_defs Let_def
      split: kibosh_file_type.splits prod.splits sum.splits run.splits c_error.splits if_splits)

lemma getattr_not_stuck: "\<not> locked fs \<Longrightarrow> kibosh_getattr path K fs p w \<noteq> Stuck"
  by (auto simp: kibosh_getattr_def kibosh_fs_control_stat_def pthread_mutex_lock_def
      split: prod.splits sum.splits if_splits)

lemma fd_not_stuck:
  "kibosh_fsync ds kf fs p \<noteq> Stuck" "kibosh_ftruncate len kf fs p \<noteq> Stuck" "kibosh_flush kf fs p \<noteq> Stuck"
  "kibosh_fallocate call md off len' kf fs p \<noteq> Stuck" "kibosh_fgetattr kf fs p \<noteq> Stuck"
  by (auto simp: kibosh_fsync_def kibosh_ftruncate_def kibosh_flush_def kibosh_fallocate_def kibosh_fgetattr_def
      on_fd_not_stuck split: prod.splits sum.splits)

lemma dir_not_stuck: "kibosh_releasedir dir K w \<noteq> Stuck" "kibosh_fsyncdir ds dir K w \<noteq> Stuck"
  by (auto simp: kibosh_releasedir_def kibosh_fsyncdir_def split: option.splits)

lemmas not_stuck = read_not_stuck write_not_stuck release_not_stuck getattr_not_stuck fd_not_stuck dir_not_stuck



section \<open>Unmounting\<close>

lemma next_outcome_sub: "next_outcome w = (x, w') \<Longrightarrow> set (sched w') \<subseteq> set (sched w)"
  by (auto simp: next_outcome.simps split: list.splits)

lemma sys_open_sub: "sys_open path fl w = (r, w') \<Longrightarrow> set (sched w') \<subseteq> set (sched w)"
  by (auto simp: sys_open_def Let_def install_fd_def new_inode_def
      split: prod.splits outcome.splits option.splits if_splits dest!: next_outcome_sub)

lemma sys_write_sub: "sys_write fd b w = (r, w') \<Longrightarrow> set (sched w') \<subseteq> set (sched w)"
  by (auto simp: sys_write_def Let_def set_fd_def split: prod.splits outcome.splits option.splits if_splits dest!: next_outcome_sub)

lemma safe_write_sub: "safe_write fd b w = (r, w') \<Longrightarrow> set (sched w') \<subseteq> set (sched w)"
proof (induction fd b w arbitrary: r w' rule: safe_write.induct)
  case (1 fd b w)
  obtain q w1 where q: "sys_write fd b w = (q, w1)" by (cases "sys_write fd b w")
  note s = sys_write_sub [OF q]
  have "set (sched w') \<subseteq> set (sched w)" if "safe_write fd (drop n b) w1 = (r, w')" "q = Inr n" "b \<noteq> []" for n
    using subset_trans [OF "1.IH"(2) [OF that(3) q [symmetric] that(2,1)] s] .
  moreover have "set (sched w') \<subseteq> set (sched w)" if "safe_write fd b w1 = (r, w')" "q = Inl EINTR" "b \<noteq> []"
    using subset_trans [OF "1.IH"(1) [OF that(3) q [symmetric] that(2) _ that(1)] s] by simp
  ultimately show ?case using "1.prems" q s
    by (cases q) (auto simp: safe_write.simps [of fd b w] split: if_splits)
qed

lemma sys_close_sub: "sys_close fd w = (r, w') \<Longrightarrow> set (sched w') \<subseteq> set (sched w)"
  by (auto simp: sys_close_def split: prod.splits outcome.splits option.splits dest!: next_outcome_sub)

lemma join_smooth:
  assumes "smooth w"
  shows "smooth (drop_cache_thread_join t w)"
proof -
  have "set (sched (snd (drop_cache path w))) \<subseteq> set (sched w)" for path
    by (auto simp: drop_cache_def split: prod.splits sum.splits dest!: sys_open_sub safe_write_sub sys_close_sub)
  then have "set (sched (drop_cache_thread_join t w)) \<subseteq> set (sched w)" by (simp add: drop_cache_thread_join_def)
  with assms show ?thesis by (auto simp: smooth_def)
qed

lemma map_of_filter_name: "map_of (filter (\<lambda>(p, i). p \<noteq> x) xs) x = None"
  by (induction xs) auto

lemma remove_pidfile_gone:
  assumes "smooth w"
  shows "map_of (names (snd (remove_pidfile pf w))) pf = None"
proof -
  obtain x w1 where x: "next_outcome w = (x, w1)" by (cases "next_outcome w")
  from next_outcome_smooth [OF x assms] x show ?thesis
    by (cases x) (auto simp: remove_pidfile_def sys_unlink_def map_of_filter_name)
qed

lemma close_fd_effect: "names (close_fd fd w) = names w" "fd_lookup fd (close_fd fd w) = None"
proof -
  obtain x w1 where x: "next_outcome w = (x, w1)" by (cases "next_outcome w")
  then show "names (close_fd fd w) = names w" "fd_lookup fd (close_fd fd w) = None"
    using next_outcome_frame [OF x]
    by (cases x; cases "fd_lookup fd w"; auto simp: close_fd_def sys_close_def fd_lookup_def)+
qed

text \<open>
  C25. Unmounting removes the pid file and closes the control file, whatever the thread that
  drops caches is doing at that time, if the kernel does not refuse the removal.
\<close>

lemma destroy_cleans_up:
  assumes "smooth (os p)" "fs_pidfile_path fs = Some pf"
  shows "map_of (names (os (kibosh_destroy fs p))) pf = None \<and>
    fd_lookup (control_fd fs) (os (kibosh_destroy fs p)) = None"
proof -
  let ?w = "case drop_thread fs of None \<Rightarrow> os p | Some t \<Rightarrow> drop_cache_thread_join t (os p)"
  have "smooth ?w" using assms(1) join_smooth by (simp split: option.split)
  from remove_pidfile_gone [OF this, of pf] assms(2) show ?thesis
    by (simp add: kibosh_destroy_def kibosh_fs_free_def fs_cleanup_def Let_def close_fd_effect)
qed

theorem destroy_cleans_up_witness:
  "map_of (names (os (kibosh_destroy (mounted_fs\<lparr>fs_pidfile_path := Some ''/p''\<rparr>)
     (sample_process\<lparr>os := sample_posix\<lparr>sched := [Short 1], names := [(''/p'', 0)]\<rparr>\<rparr>)))) ''/p'' = None"
  using destroy_cleans_up [of "sample_process\<lparr>os := sample_posix\<lparr>sched := [Short 1], names := [(''/p'', 0)]\<rparr>\<rparr>"
      "mounted_fs\<lparr>fs_pidfile_path := Some ''/p''\<rparr>" "''/p''"]
  by (simp add: smooth_def)

end
