(* ===== verification/Log.thy ===== *)
theory Log
  imports Io C_Format Time
begin

text \<open>
  Model of \<open>log.c\<close>: the globals of the log, the prefix of its lines, error descriptions, the
  conversion of a number to decimal that is safe in a signal handler, and the message written
  on a fatal signal. What the time zone and the language decide, the results of
  \<open>localtime_r\<close> and \<open>strerror_r\<close>, are arguments.
\<close>

section \<open>The log\<close>

text \<open>
  The three globals. A stream is known by its descriptor; \<open>None\<close> is a null pointer and the
  descriptor \<open>-1\<close>.
\<close>

record log_state =
  global_kibosh_log_file :: "nat option"
  global_kibosh_log_file_fd :: "nat option"
  global_kibosh_log_settings :: uint32

definition KIBOSH_LOG_DEBUG_ENABLED :: uint32 where "KIBOSH_LOG_DEBUG_ENABLED = 1"
definition KIBOSH_LOG_INFO_ENABLED :: uint32 where "KIBOSH_LOG_INFO_ENABLED = 2"
definition KIBOSH_LOG_ALL_ENABLED :: uint32 where
  "KIBOSH_LOG_ALL_ENABLED = or KIBOSH_LOG_DEBUG_ENABLED KIBOSH_LOG_INFO_ENABLED"

definition initial_log :: log_state where
  "initial_log = \<lparr>global_kibosh_log_file = None, global_kibosh_log_file_fd = None,
     global_kibosh_log_settings = KIBOSH_LOG_ALL_ENABLED\<rparr>"

definition kibosh_log_init :: "nat \<Rightarrow> uint32 \<Rightarrow> log_state" where
  "kibosh_log_init log_file settings =
     \<lparr>global_kibosh_log_file = Some log_file, global_kibosh_log_file_fd = Some log_file,
      global_kibosh_log_settings = settings\<rparr>"

text \<open>Where \<open>INFO\<close> and \<open>DEBUG\<close> print to, if they do; \<open>stdout\<close> is descriptor 1.\<close>

definition GET_KIBOSH_LOG_FILE :: "log_state \<Rightarrow> nat" where
  "GET_KIBOSH_LOG_FILE g = (case global_kibosh_log_file g of None \<Rightarrow> 1 | Some f \<Rightarrow> f)"

definition log_line :: "uint32 \<Rightarrow> log_state \<Rightarrow> nat option" where
  "log_line level g =
     (if and (global_kibosh_log_settings g) level \<noteq> 0 then Some (GET_KIBOSH_LOG_FILE g) else None)"

text \<open>The conversion \<open>%0<n>ld\<close> of a number that is not negative.\<close>

definition zero_pad :: "nat \<Rightarrow> string \<Rightarrow> string" where
  "zero_pad n s = replicate (n - length s) (CHR ''0'') @ s"

record tm =
  tm_year :: int
  tm_mon :: int
  tm_mday :: int
  tm_hour :: int
  tm_min :: int
  tm_sec :: int

text \<open>\<open>strftime\<close> with \<open>[%Y-%m-%d %H:%M:%S,\<close>; the members are numbered from 1900 and from 0.\<close>

definition stamp :: "tm \<Rightarrow> string" where
  "stamp t = ''['' @ fmt_d (tm_year t + 1900) @ ''-'' @ zero_pad 2 (dec (tm_mon t + 1)) @ ''-'' @
     zero_pad 2 (dec (tm_mday t)) @ '' '' @ zero_pad 2 (dec (tm_hour t)) @ '':'' @
     zero_pad 2 (dec (tm_min t)) @ '':'' @ zero_pad 2 (dec (tm_sec t)) @ '',''"

definition LOG_PREFIX_BUFFER_SIZE :: nat where "LOG_PREFIX_BUFFER_SIZE = 64"

text \<open>
  \<open>log_prefix\<close>; \<open>strftime\<close> returns 0 when its text and the NUL do not fit, \<open>snprintf\<close> cuts
  what does not fit.
\<close>

definition log_prefix :: "timespec option \<Rightarrow> (int \<Rightarrow> tm option) \<Rightarrow> string" where
  "log_prefix ts localtime_r =
     (case ts of
        None \<Rightarrow> ''(clock_gettime failed) ''
      | Some t \<Rightarrow>
          (case localtime_r (tv_sec t) of
             None \<Rightarrow> ''(localtime_r failed) ''
           | Some tm \<Rightarrow>
               let ret = (if length (stamp tm) < LOG_PREFIX_BUFFER_SIZE then length (stamp tm) else 0) in
               if ret = 0 then ''(strftime failed) ''
               else stamp tm @
                 take (LOG_PREFIX_BUFFER_SIZE - ret - 1) (zero_pad 9 (dec (tv_nsec t)) @ ''] '')))"

definition STRERROR_BUFFER_SIZE :: nat where "STRERROR_BUFFER_SIZE = 128"

text \<open>\<open>safe_strerror\<close>; \<open>strerror_r\<close> returns no text for a number it does not know.\<close>

definition safe_strerror :: "(int \<Rightarrow> string option) \<Rightarrow> int32 \<Rightarrow> string" where
  "safe_strerror strerror_r errnum =
     (let errnum = (if sint errnum < 0 then - errnum else errnum) in
      case strerror_r (sint errnum) of
        Some s \<Rightarrow> take (STRERROR_BUFFER_SIZE - 1) s
      | None \<Rightarrow> take (STRERROR_BUFFER_SIZE - 1) (''Unknown error '' @ fmt_d (sint errnum)))"

section \<open>Messages from signal handlers\<close>

text \<open>
  The first loop of \<open>signal_safe_uint32_to_string\<close>: the digits in reverse, from index \<open>i\<close>;
  \<open>last_ix\<close> is \<open>buf_len - 1\<close>.
\<close>

function digits_loop :: "nat \<Rightarrow> nat \<Rightarrow> uint32 \<Rightarrow> string \<Rightarrow> nat \<times> string" where
  "digits_loop last_ix i val buf =
     (if i < last_ix then
        let buf' = buf[i := digit_char (unat (val mod 10))]; val' = val div 10
        in if val' = 0 then (i, buf') else digits_loop last_ix (i + 1) val' buf'
      else (i, buf))"
  by pat_completeness auto
termination
  by (relation "measure (\<lambda>(last_ix, i, val, buf). last_ix - i)") auto

declare digits_loop.simps [simp del]

text \<open>The second loop, which reverses the first \<open>i\<close> bytes by swapping.\<close>

function swap_loop :: "nat \<Rightarrow> nat \<Rightarrow> string \<Rightarrow> string" where
  "swap_loop i j buf =
     (if j < i div 2 then
        let temp = buf ! j; b1 = buf[j := buf ! (i - j - 1)]; b2 = b1[i - j - 1 := temp]
        in swap_loop i (j + 1) b2
      else buf)"
  by pat_completeness auto
termination
  by (relation "measure (\<lambda>(i, j, buf). i div 2 - j)") auto

declare swap_loop.simps [simp del]

text \<open>The subtraction \<open>buf_len - 1\<close> is on \<open>size_t\<close>.\<close>

definition size_minus_1 :: "nat \<Rightarrow> nat" where
  "size_minus_1 n = (n + (2 ^ 64 - 1)) mod 2 ^ 64"

definition signal_safe_uint32_to_string :: "uint32 \<Rightarrow> string \<Rightarrow> int \<times> string" where
  "signal_safe_uint32_to_string val buf =
     (let last_ix = size_minus_1 (length buf);
          (i, buf1) = digits_loop last_ix 0 val buf
      in if i = last_ix then (- ENAMETOOLONG, buf1)
         else let n = i + 1; buf2 = swap_loop n 0 buf1 in (int n, buf2[n := NUL]))"

definition SHUTDOWN_MSG :: string where
  "SHUTDOWN_MSG = ''kibosh was terminated by signal ''"

definition emit_shutdown_message :: "nat \<Rightarrow> string \<Rightarrow> uint32 \<Rightarrow> posix \<Rightarrow> int \<times> posix" where
  "emit_shutdown_message log_fd junk sig w =
     (case signal_safe_uint32_to_string sig (drop (length SHUTDOWN_MSG) junk) of (ret, buf) \<Rightarrow>
        if ret < 0 then (ret, w)
        else safe_write log_fd (SHUTDOWN_MSG @ take (nat ret) buf @ [CHR 0x0A]) w)"

section \<open>Prefixes of lines\<close>

lemma length_zero_pad: "length s \<le> n \<Longrightarrow> length (zero_pad n s) = n"
  by (simp add: zero_pad_def)

lemma digits_val_zeros: "digits_val 0 (replicate k (CHR ''0'') @ s) = digits_val 0 s"
proof (induction k)
  case (Suc k)
  have "digit_val (CHR ''0'') = 0" by (simp add: digit_val_def)
  with Suc show ?case by simp
qed simp

lemma length_dec_le: "0 \<le> v \<Longrightarrow> v < 10 ^ Suc n \<Longrightarrow> length (dec v) \<le> Suc n"
proof (induction n arbitrary: v)
  case 0
  then show ?case by (simp add: dec.simps)
next
  case (Suc n)
  show ?case
  proof (cases "v < 10")
    case False
    have "v div 10 < 10 ^ Suc n" "0 \<le> v div 10" using Suc.prems by auto
    from Suc.IH [OF this(2,1)] False show ?thesis by (subst dec.simps) simp
  qed (simp add: dec.simps)
qed

definition tm_ok :: "tm \<Rightarrow> bool" where
  "tm_ok t \<longleftrightarrow> -900 \<le> tm_year t \<and> tm_year t < 8100 \<and> 0 \<le> tm_mon t \<and> tm_mon t < 12 \<and> 1 \<le> tm_mday t \<and> tm_mday t \<le> 31 \<and>
     0 \<le> tm_hour t \<and> tm_hour t < 24 \<and> 0 \<le> tm_min t \<and> tm_min t < 60 \<and> 0 \<le> tm_sec t \<and> tm_sec t \<le> 60"

lemma dec_four:
  assumes "1000 \<le> v" "v < 10000"
  shows "length (dec v) = 4"
proof -
  have "\<not> v < 10" "\<not> v div 10 < 10" "\<not> v div 10 div 10 < 10" "v div 10 div 10 div 10 < 10"
    using assms by (simp_all add: zdiv_zmult2_eq [symmetric])
  then show ?thesis by (simp add: dec.simps [of v] dec.simps [of "v div 10"] dec.simps [of "v div 10 div 10"]
        dec.simps [of "v div 10 div 10 div 10"])
qed

lemma length_two: "0 \<le> v \<Longrightarrow> v < 100 \<Longrightarrow> length (zero_pad 2 (dec v)) = 2"
  using length_dec_le [of v 1] by (intro length_zero_pad) simp

lemma length_stamp: "tm_ok t \<Longrightarrow> length (stamp t) = 21"
  by (simp add: tm_ok_def stamp_def length_two fmt_d_def dec_four)

text \<open>
  Between the years 1000 and 9999 all prefixes have the same length, so nothing of them is cut
  off, and the nanoseconds can be read from columns 22 to 30.
\<close>

lemma log_prefix_columns:
  assumes "localtime_r (tv_sec t) = Some tm" "tm_ok tm" "timespec_ok t"
  shows "length (log_prefix (Some t) localtime_r) = 32 \<and>
    digits_val 0 (take 9 (drop 21 (log_prefix (Some t) localtime_r))) = tv_nsec t"
proof -
  have "length (dec (tv_nsec t)) \<le> 9"
    using length_dec_le [of "tv_nsec t" 8] assms(3) by (simp add: timespec_ok_def)
  then have n: "length (zero_pad 9 (dec (tv_nsec t))) = 9" by (rule length_zero_pad)
  have "log_prefix (Some t) localtime_r = stamp tm @ zero_pad 9 (dec (tv_nsec t)) @ ''] ''"
    using assms(1) length_stamp [OF assms(2)] n by (simp add: log_prefix_def LOG_PREFIX_BUFFER_SIZE_def)
  moreover have "digits_val 0 (zero_pad 9 (dec (tv_nsec t))) = tv_nsec t"
    using assms(3) by (simp add: zero_pad_def digits_val_zeros timespec_ok_def del: digits_val_simps(3))
  ultimately show ?thesis using length_stamp [OF assms(2)] n by simp
qed

section \<open>The conversion\<close>

lemma swap_loop_length [simp]: "length (swap_loop i j buf) = length buf"
  by (induction i j buf rule: swap_loop.induct) (subst swap_loop.simps, simp add: Let_def)

lemma swap_loop_nth:
  assumes "i \<le> length buf" "k < length buf"
  shows "swap_loop i j buf ! k =
    (if j \<le> k \<and> k < i - j then buf ! (i - 1 - k) else buf ! k)"
  using assms
proof (induction i j buf rule: swap_loop.induct)
  case (1 i j buf)
  show ?case
  proof (cases "j < i div 2")
    case True
    have ij: "j < length buf" "i - j - 1 < length buf" "j < i - j - 1 \<or> j = i - j - 1" 
      using True "1.prems" by auto
    let ?b = "buf[j := buf ! (i - j - 1), i - j - 1 := buf ! j]"
    have *: "?b ! m = (if m = j then buf ! (i - j - 1) else if m = i - j - 1 then buf ! j else buf ! m)"
      if "m < length buf" for m
      using that ij by (auto simp: nth_list_update)
    have "swap_loop i j buf ! k = swap_loop i (j + 1) ?b ! k"
      using True by (subst swap_loop.simps) (simp add: Let_def)
    also have "\<dots> = (if j + 1 \<le> k \<and> k < i - (j + 1) then ?b ! (i - 1 - k) else ?b ! k)"
      using "1.IH" [OF True refl refl refl] "1.prems" by simp
    also have "\<dots> = (if j \<le> k \<and> k < i - j then buf ! (i - 1 - k) else buf ! k)"
    proof -
      consider "k = j" | "k = i - j - 1" "k \<noteq> j" | "k \<noteq> j" "k \<noteq> i - j - 1" by blast
      then show ?thesis
      proof cases
        case 3
        then have "j + 1 \<le> k \<and> k < i - (j + 1) \<longleftrightarrow> j \<le> k \<and> k < i - j"
          "j \<le> k \<and> k < i - j \<Longrightarrow> i - 1 - k \<noteq> j \<and> i - 1 - k \<noteq> i - j - 1" by linarith+
        with 3 "1.prems" * [of k] * [of "i - 1 - k"] show ?thesis by auto
      qed (use "1.prems" True ij(1,2) * [of k] * [of "i - 1 - k"] in auto)
    qed
    finally show ?thesis .
  next
    case False
    have "i - 1 - k = k" if "j \<le> k" "k < i - j" using that False by linarith
    then show ?thesis using False by (subst swap_loop.simps) auto
  qed
qed

lemma swap_loop_rev:
  "i \<le> length buf \<Longrightarrow> swap_loop i 0 buf = rev (take i buf) @ drop i buf"
  by (rule nth_equalityI) (auto simp: swap_loop_nth nth_append rev_nth)

text \<open>The digits come out least significant first.\<close>

lemma digits_loop_spec:
  assumes "i < last_ix" "last_ix < length buf" "digits_loop last_ix i val buf = (i', buf')"
  shows "(if i + length (dec (uint val)) \<le> last_ix
          then i' = i + length (dec (uint val)) - 1 \<and>
               buf' = take i buf @ rev (dec (uint val)) @ drop (i + length (dec (uint val))) buf
          else i' = last_ix)"
  using assms
proof (induction last_ix i val buf rule: digits_loop.induct)
  case (1 last_ix i val buf)
  let ?c = "digit_char (unat (val mod 10))" and ?b = "buf[i := digit_char (unat (val mod 10))]"
  have m: "unat (val mod 10) = nat (uint val mod 10)"
    by (simp add: unat_mod nat_mod_distrib)
  have v: "uint (val div 10) = uint val div 10" by (simp add: uint_div)
  show ?case
  proof (cases "val div 10 = 0")
    case True
    then have "uint val div 10 = 0" using v by simp
    then have small: "uint val < 10" by simp
    then have "dec (uint val) = [?c]" using m by (subst dec.simps) simp
    with True "1.prems" show ?thesis
      by (auto simp: digits_loop.simps [of last_ix i val buf] Let_def upd_conv_take_nth_drop)
  next
    case False
    then have "uint val div 10 \<noteq> 0" using v by (metis uint_0_iff)
    then have big: "\<not> uint val < 10" by auto
    then have d: "dec (uint val) = dec (uint (val div 10)) @ [?c]"
      using m v by (subst dec.simps) simp
    have rec: "digits_loop last_ix (i + 1) (val div 10) ?b = (i', buf')"
      using "1.prems" False by (simp add: digits_loop.simps [of last_ix i val buf] Let_def)
    show ?thesis
    proof (cases "i + 1 < last_ix")
      case True
      with "1.IH" [OF "1.prems"(1) refl refl False _ _ rec] "1.prems" d show ?thesis
        by (auto simp: take_Suc_conv_app_nth Let_def)
    next
      case False
      have "length (dec (uint (val div 10))) \<ge> 1" by (simp add: Suc_leI)
      then show ?thesis using False rec d "1.prems"
        by (auto simp: digits_loop.simps [of last_ix "Suc i"])
    qed
  qed
qed

section \<open>The properties\<close>

lemma to_string_last_ix:
  "0 < length buf \<Longrightarrow> length buf < 2 ^ 64 \<Longrightarrow> size_minus_1 (length buf) = length buf - 1"
proof -
  assume a: "0 < length buf" "length buf < 2 ^ 64"
  then have "length buf + (2 ^ 64 - 1) = (length buf - 1) + 2 ^ 64" by simp
  then show ?thesis
    using a by (simp only: size_minus_1_def) (metis diff_less less_trans mod_add_self2 mod_less zero_less_one)
qed

lemma signal_safe_spec:
  assumes "signal_safe_uint32_to_string val buf = (ret, buf')" "1 < length buf" "length buf < 2 ^ 64"
  shows "if length (dec (uint val)) < length buf
    then ret = int (length (dec (uint val))) \<and>
         buf' = dec (uint val) @ [NUL] @ drop (length (dec (uint val)) + 1) buf
    else ret = - ENAMETOOLONG"
proof -
  let ?n = "length (dec (uint val))"
  obtain i b where d: "digits_loop (length buf - 1) 0 val buf = (i, b)"
    by (cases "digits_loop (length buf - 1) 0 val buf")
  note s = digits_loop_spec [OF _ _ d]
  have top: "size_minus_1 (length buf) = length buf - 1"
    by (rule to_string_last_ix) (use assms(2,3) in auto)
  show ?thesis
  proof (cases "?n < length buf")
    case True
    have n: "?n \<ge> 1" by (simp add: Suc_leI)
    have b: "i = ?n - 1" "b = rev (dec (uint val)) @ drop ?n buf"
      using s True assms(2) by auto
    have "swap_loop ?n 0 b = dec (uint val) @ drop ?n buf"
      using b True by (subst swap_loop_rev) auto
    moreover have ne: "?n - 1 \<noteq> length buf - 1" and sc: "?n - 1 + 1 = ?n" using n True by auto
    ultimately have "ret = int ?n \<and> buf' = (dec (uint val) @ drop ?n buf)[?n := NUL]"
      using assms(1) d ne sc b(1)
      by (simp add: signal_safe_uint32_to_string_def Let_def top del: One_nat_def)
    then show ?thesis using True by (simp add: list_update_append upd_conv_take_nth_drop drop_Suc tl_drop)
  next
    case False
    then have "i = length buf - 1" using s assms(2) by auto
    with False d assms(1) show ?thesis
      by (auto simp: signal_safe_uint32_to_string_def Let_def top simp del: One_nat_def)
  qed
qed

text \<open>
  \<open>signal_safe_uint32_to_string\<close> writes the decimal digits of the number and a NUL and
  returns how many there are, when they fit in the buffer; otherwise it returns
  \<open>-ENAMETOOLONG\<close>. Past the NUL the buffer is not touched.
\<close>

lemma signal_safe_uint32_to_string_correct:
  assumes "signal_safe_uint32_to_string val buf = (ret, buf')" "1 < length buf" "length buf < 2 ^ 64"
  shows "if length (dec (uint val)) < length buf
    then ret = int (length (dec (uint val))) \<and>
         buf' = dec (uint val) @ [NUL] @ drop (length (dec (uint val)) + 1) buf
    else ret = - ENAMETOOLONG"
  using assms by (rule signal_safe_spec)

theorem signal_safe_uint32_to_string_correct_witness:
  "\<exists>buf'. signal_safe_uint32_to_string 15 ''xxxxx'' = (2, buf') \<and> take 3 buf' = ''15'' @ [NUL]"
proof -
  obtain r b where s: "signal_safe_uint32_to_string 15 ''xxxxx'' = (r, b)"
    by (cases "signal_safe_uint32_to_string 15 ''xxxxx''")
  have "dec 15 = ''15''" by code_simp
  with signal_safe_uint32_to_string_correct [OF s] s show ?thesis by simp
qed

text \<open>
  On a fatal signal the message, the number of the signal and a newline are written to the
  log, also when the write is interrupted or split.
\<close>

lemma emit_shutdown_message_correct:
  assumes "benign w" "usable w log_fd d" "length junk = 1024" "length (dec (uint sig)) < 900"
  shows "\<exists>w'. emit_shutdown_message log_fd junk sig w = (0, w') \<and>
    wrote log_fd d (SHUTDOWN_MSG @ dec (uint sig) @ [CHR 0x0A]) w w'"
proof -
  let ?buf = "drop (length SHUTDOWN_MSG) junk"
  have len: "length ?buf = 992" using assms(3) by (simp add: SHUTDOWN_MSG_def)
  obtain ret b where s: "signal_safe_uint32_to_string sig ?buf = (ret, b)"
    by (cases "signal_safe_uint32_to_string sig ?buf")
  have "ret = int (length (dec (uint sig)))" "take (nat ret) b = dec (uint sig)"
    using signal_safe_spec [OF s] len assms(4) by (auto simp del: length_drop)
  moreover obtain w' where "safe_write log_fd (SHUTDOWN_MSG @ dec (uint sig) @ [CHR 0x0A]) w = (0, w')"
    "wrote log_fd d (SHUTDOWN_MSG @ dec (uint sig) @ [CHR 0x0A]) w w'"
    by (rule safe_write_benign [OF assms(1,2)])
  ultimately show ?thesis using s by (simp add: emit_shutdown_message_def)
qed

theorem emit_shutdown_message_correct_witness:
  "\<exists>w'. emit_shutdown_message 1 (replicate 1024 NUL) 15 sample_posix = (0, w')"
proof -
  have "usable sample_posix 1 \<lparr>d_inode = 1, d_off = 0, d_flags = 2\<rparr>"
    by (simp add: usable_def sample_posix_def fd_lookup_def content_def)
  moreover have "dec (uint (15 :: uint32)) = ''15''" by code_simp
  ultimately show ?thesis
    using emit_shutdown_message_correct [OF sample_benign, of 1 _ "replicate 1024 NUL" 15] by auto
qed

end
