(* ===== verification/Signals.thy ===== *)
theory Signals
  imports Log Fs
begin

text \<open>
  Model of \<open>signal.c\<close>: the dispositions that \<open>install_signal_handlers\<close> sets and the handler of
  the fatal signals, with what they mean for a process that receives such a signal. The names
  that \<open>strsignal\<close> returns depend on the language and are an argument; the failures of
  \<open>sigaction\<close> and \<open>signal\<close> are outcomes of the kernel.
\<close>

section \<open>Dispositions\<close>

datatype disposition = SIG_DFL | SIG_IGN | Kibosh_handler

type_synonym dispositions = "nat \<Rightarrow> disposition"

definition SIGINT :: nat where "SIGINT = 2"
definition SIGQUIT :: nat where "SIGQUIT = 3"
definition SIGILL :: nat where "SIGILL = 4"
definition SIGABRT :: nat where "SIGABRT = 6"
definition SIGBUS :: nat where "SIGBUS = 7"
definition SIGFPE :: nat where "SIGFPE = 8"
definition SIGSEGV :: nat where "SIGSEGV = 11"
definition SIGPIPE :: nat where "SIGPIPE = 13"
definition SIGTERM :: nat where "SIGTERM = 15"

lemmas signal_defs = SIGINT_def SIGQUIT_def SIGILL_def SIGABRT_def SIGBUS_def SIGFPE_def SIGSEGV_def
  SIGPIPE_def SIGTERM_def

definition KIBOSH_HANDLED_SIGNALS :: "nat list" where
  "KIBOSH_HANDLED_SIGNALS = [SIGABRT, SIGBUS, SIGFPE, SIGILL, SIGINT, SIGQUIT, SIGSEGV, SIGTERM]"

definition set_disposition :: "nat \<Rightarrow> disposition \<Rightarrow> dispositions \<Rightarrow> posix \<Rightarrow> (int + unit) \<times> dispositions \<times> posix" where
  "set_disposition sig d tab w =
     (case sys_status w of (Inl e, w') \<Rightarrow> (Inl e, tab, w') | (Inr _, w') \<Rightarrow> (Inr (), tab(sig := d), w'))"

text \<open>The first loop of \<open>install_signal_handlers\<close>.\<close>

fun install_loop :: "nat list \<Rightarrow> dispositions \<Rightarrow> posix \<Rightarrow> int \<times> dispositions \<times> posix" where
  "install_loop [] tab w = (0, tab, w)"
| "install_loop (sig # sigs) tab w =
     (case set_disposition sig Kibosh_handler tab w of
        (Inl e, tab', w') \<Rightarrow> (- e, tab', w')
      | (Inr _, tab', w') \<Rightarrow> install_loop sigs tab' w')"

text \<open>The second loop, whose text is for the log; the result of \<open>snappend\<close> is not looked at.\<close>

fun fatal_loop :: "(nat \<Rightarrow> string) \<Rightarrow> string \<Rightarrow> nat list \<Rightarrow> string \<Rightarrow> string" where
  "fatal_loop strsignal sep [] fatal_str = fatal_str"
| "fatal_loop strsignal sep (sig # sigs) fatal_str =
     fatal_loop strsignal '', '' sigs (snd (snappend fatal_str 4096 (sep @ strsignal sig)))"

text \<open>
  The whole function: the result, the names of the fatal signals it logs on success, and the
  dispositions. \<open>SIGPIPE\<close> gets its default disposition.
\<close>

definition install_signal_handlers ::
    "(nat \<Rightarrow> string) \<Rightarrow> dispositions \<Rightarrow> posix \<Rightarrow> int \<times> string option \<times> dispositions \<times> posix" where
  "install_signal_handlers strsignal tab w =
     (case install_loop KIBOSH_HANDLED_SIGNALS tab w of (ret, tab1, w1) \<Rightarrow>
        if ret \<noteq> 0 then (ret, None, tab1, w1)
        else let fatal_str = fatal_loop strsignal [] KIBOSH_HANDLED_SIGNALS [] in
          (case set_disposition SIGPIPE SIG_DFL tab1 w1 of
             (Inl e, tab2, w2) \<Rightarrow> (- e, None, tab2, w2)
           | (Inr _, tab2, w2) \<Rightarrow> (0, Some fatal_str, tab2, w2)))"

section \<open>Delivery\<close>

text \<open>
  \<open>kibosh_signal_handler\<close>: the argument of \<open>_exit\<close> and the state it leaves. A log that has not
  been opened has descriptor \<open>-1\<close>, and the write to it fails.
\<close>

definition kibosh_signal_handler :: "log_state \<Rightarrow> string \<Rightarrow> nat \<Rightarrow> posix \<Rightarrow> nat \<times> posix" where
  "kibosh_signal_handler g junk signum w =
     (128 + signum,
      case global_kibosh_log_file_fd g of
        None \<Rightarrow> w
      | Some fd \<Rightarrow> snd (emit_shutdown_message fd junk (word_of_nat signum) w))"

text \<open>How a process fares with a signal whose default action is to terminate.\<close>

datatype fate = Killed_by nat | Exited_with nat | Goes_on

definition deliver :: "dispositions \<Rightarrow> log_state \<Rightarrow> string \<Rightarrow> nat \<Rightarrow> posix \<Rightarrow> fate \<times> posix" where
  "deliver tab g junk sig w =
     (case tab sig of
        SIG_DFL \<Rightarrow> (Killed_by sig, w)
      | SIG_IGN \<Rightarrow> (Goes_on, w)
      | Kibosh_handler \<Rightarrow> (case kibosh_signal_handler g junk sig w of (status, w') \<Rightarrow> (Exited_with status, w')))"

section \<open>Installing\<close>

lemma sys_status_frame:
  "sys_status w = (r, w') \<Longrightarrow> names w' = names w \<and> fds w' = fds w \<and> inodes w' = inodes w"
  by (auto simp: sys_status_def next_outcome.simps split: outcome.splits prod.splits list.splits)

lemma set_disposition_frame:
  "set_disposition sig d tab w = (r, tab', w') \<Longrightarrow> names w' = names w \<and> fds w' = fds w \<and> inodes w' = inodes w"
  by (auto simp: set_disposition_def dest: sys_status_frame split: prod.splits sum.splits)

lemma sys_status_sched:
  "sys_status w = (x, w') \<Longrightarrow> set (sched w') \<subseteq> set (sched w) \<and> (\<forall>e. x = Inl e \<longrightarrow> Error e \<in> set (sched w))"
  by (auto simp: sys_status_def next_outcome.simps split: list.splits outcome.splits)

text \<open>An installation that stops has set the handlers up to the failing signal.\<close>

lemma install_loop_spec:
  assumes "install_loop sigs tab w = (ret, tab', w')"
  shows "\<exists>k \<le> length sigs. tab' = (\<lambda>s. if s \<in> set (take k sigs) then Kibosh_handler else tab s) \<and>
    set (sched w') \<subseteq> set (sched w) \<and>
    (if k = length sigs then ret = 0 else \<exists>e. ret = - e \<and> Error e \<in> set (sched w))"
  using assms
proof (induction sigs arbitrary: tab w)
  case (Cons sig sigs)
  obtain x w1 where x: "sys_status w = (x, w1)" by (cases "sys_status w")
  note st = sys_status_sched [OF x]
  show ?case
  proof (cases x)
    case (Inl e)
    with x Cons.prems st show ?thesis by (intro exI [of _ 0]) (auto simp: set_disposition_def)
  next
    case (Inr u)
    with x Cons.prems have "install_loop sigs (tab(sig := Kibosh_handler)) w1 = (ret, tab', w')"
      by (simp add: set_disposition_def)
    from Cons.IH [OF this] obtain k where "k \<le> length sigs"
      "tab' = (\<lambda>s. if s \<in> set (take k sigs) then Kibosh_handler else (tab(sig := Kibosh_handler)) s)"
      "set (sched w') \<subseteq> set (sched w1)"
      "if k = length sigs then ret = 0 else \<exists>e. ret = - e \<and> Error e \<in> set (sched w1)" by blast
    with st show ?thesis by (intro exI [of _ "Suc k"]) (auto split: if_splits)
  qed
qed simp

lemma install_loop_smooth:
  assumes "smooth w"
  obtains tab' w' where "install_loop sigs tab w = (0, tab', w')" "smooth w'" "names w' = names w" "fds w' = fds w"
    "inodes w' = inodes w"
  using assms
proof (induction sigs arbitrary: tab w thesis)
  case (Cons sig sigs)
  from sys_status_smooth [OF Cons.prems(2)] obtain w1 where
    w1: "sys_status w = (Inr (), w1)" "smooth w1" "inodes w1 = inodes w" "names w1 = names w" "fds w1 = fds w" .
  obtain tab' w' where "install_loop sigs (tab(sig := Kibosh_handler)) w1 = (0, tab', w')" "smooth w'"
      "names w' = names w1" "fds w' = fds w1" "inodes w' = inodes w1"
    using Cons.IH [OF _ w1(2)] by blast
  with w1 show ?case by (intro Cons.prems(1) [of tab' w']) (simp_all add: set_disposition_def)
qed auto

text \<open>The dispositions after a success.\<close>

definition installed :: "dispositions \<Rightarrow> dispositions" where
  "installed tab = (\<lambda>s. if s = SIGPIPE then SIG_DFL else if s \<in> set KIBOSH_HANDLED_SIGNALS then Kibosh_handler else tab s)"

lemma install_cases:
  assumes "install_signal_handlers strsignal tab w = (ret, msg, tab', w')"
  shows "(\<exists>e. ret = - e \<and> Error e \<in> set (sched w)) \<or>
    ret = 0 \<and> msg = Some (fatal_loop strsignal [] KIBOSH_HANDLED_SIGNALS []) \<and> tab' = installed tab"
proof -
  obtain r tab1 w1 where l: "install_loop KIBOSH_HANDLED_SIGNALS tab w = (r, tab1, w1)" by (metis prod_cases3)
  obtain x w2 where x: "sys_status w1 = (x, w2)" by (cases "sys_status w1")
  from install_loop_spec [OF l] have
    "(\<exists>e. r = - e \<and> Error e \<in> set (sched w)) \<or>
      r = 0 \<and> tab1 = (\<lambda>s. if s \<in> set KIBOSH_HANDLED_SIGNALS then Kibosh_handler else tab s)"
    "set (sched w1) \<subseteq> set (sched w)"
    by (auto split: if_splits)
  with assms l x sys_status_sched [OF x] show ?thesis
    by (auto simp: install_signal_handlers_def set_disposition_def Let_def installed_def split: sum.splits if_splits)
qed

lemma install_sched:
  assumes "install_signal_handlers strsignal tab w = (ret, msg, tab', w')"
  shows "set (sched w') \<subseteq> set (sched w)"
proof -
  obtain r tab1 w1 where l: "install_loop KIBOSH_HANDLED_SIGNALS tab w = (r, tab1, w1)" by (metis prod_cases3)
  obtain x w2 where x: "sys_status w1 = (x, w2)" by (cases "sys_status w1")
  from install_loop_spec [OF l] sys_status_sched [OF x] assms l x show ?thesis
    by (fastforce simp: install_signal_handlers_def set_disposition_def Let_def split: sum.splits if_splits)
qed

lemma install_smooth:
  assumes "smooth w"
  obtains msg w' where "install_signal_handlers strsignal tab w = (0, msg, installed tab, w')" "smooth w'"
    "names w' = names w" "fds w' = fds w" "inodes w' = inodes w"
proof -
  obtain ret msg tab' w' where i: "install_signal_handlers strsignal tab w = (ret, msg, tab', w')" by (metis prod_cases4)
  obtain tab1 w1 where w1: "install_loop KIBOSH_HANDLED_SIGNALS tab w = (0, tab1, w1)" "smooth w1" "names w1 = names w"
      "fds w1 = fds w" "inodes w1 = inodes w"
    using install_loop_smooth [OF assms] by blast
  obtain w2 where w2: "sys_status w1 = (Inr (), w2)" "smooth w2" "inodes w2 = inodes w1" "names w2 = names w1" "fds w2 = fds w1"
    using sys_status_smooth [OF w1(2)] by blast
  from i w1 w2 have "ret = 0" "w' = w2" by (auto simp: install_signal_handlers_def set_disposition_def Let_def)
  moreover from install_cases [OF i] assms have "tab' = installed tab" by (auto simp: smooth_def)
  ultimately show thesis using that i w1 w2 by auto
qed

section \<open>The properties\<close>

text \<open>
  C24. After \<open>install_signal_handlers\<close> succeeded, each of the eight fatal signals ends the
  process with exit status 128 plus its number, after the shutdown message with that number
  has been written to the log; nothing else is done, so names such as that of the pid file stay.
\<close>

lemma fatal_signal_logged:
  assumes "install_signal_handlers strsignal tab w = (0, msg, tab', w')" "\<And>e. Error e \<in> set (sched w) \<Longrightarrow> e \<noteq> 0"
    and "sig \<in> set KIBOSH_HANDLED_SIGNALS" "global_kibosh_log_file_fd g = Some fd"
    and "benign w1" "usable w1 fd d" "length junk = 1024"
  shows "\<exists>w2. deliver tab' g junk sig w1 = (Exited_with (128 + sig), w2) \<and> 128 + sig < 256 \<and>
    wrote fd d (SHUTDOWN_MSG @ dec (int sig) @ [CHR 0x0A]) w1 w2 \<and> names w2 = names w1"
proof -
  have "tab' = installed tab" using install_cases [OF assms(1)] assms(2) by fastforce
  then have t: "tab' sig = Kibosh_handler"
    using assms(3) by (auto simp: installed_def KIBOSH_HANDLED_SIGNALS_def signal_defs)
  have b: "sig \<le> 15" using assms(3) by (auto simp: KIBOSH_HANDLED_SIGNALS_def signal_defs)
  then have u: "uint (word_of_nat sig :: uint32) = int sig" by (simp add: unsigned_of_nat take_bit_nat_eq_self)
  have "length (dec (int sig)) \<le> 2" using length_dec_le [of "int sig" 1] b by simp
  then obtain w2 where "emit_shutdown_message fd junk (word_of_nat sig) w1 = (0, w2)"
      "wrote fd d (SHUTDOWN_MSG @ dec (int sig) @ [CHR 0x0A]) w1 w2"
    using emit_shutdown_message_correct [OF assms(5,6,7), of "word_of_nat sig"] u by auto
  with t b assms(4) show ?thesis
    by (auto simp: deliver_def kibosh_signal_handler_def wrote_def)
qed

definition sample_log :: log_state where
  "sample_log = kibosh_log_init 1 KIBOSH_LOG_INFO_ENABLED"

lemma sample_install: "\<exists>msg w'. install_signal_handlers strsignal (\<lambda>_. SIG_DFL) (sample_posix\<lparr>sched := []\<rparr>) = (0, msg, installed (\<lambda>_. SIG_DFL), w')"
  by (rule install_smooth [of "sample_posix\<lparr>sched := []\<rparr>" strsignal "\<lambda>_. SIG_DFL"]) (auto simp: smooth_def)

theorem fatal_signal_logged_witness:
  "\<exists>w2. deliver (installed (\<lambda>_. SIG_DFL)) sample_log (replicate 1024 NUL) SIGTERM sample_posix = (Exited_with 143, w2)"
proof -
  obtain msg w' where i: "install_signal_handlers (\<lambda>_. []) (\<lambda>_. SIG_DFL) (sample_posix\<lparr>sched := []\<rparr>) = (0, msg, installed (\<lambda>_. SIG_DFL), w')"
    using sample_install by blast
  have "usable sample_posix 1 \<lparr>d_inode = 1, d_off = 0, d_flags = 2\<rparr>"
    by (simp add: usable_def sample_posix_def fd_lookup_def content_def)
  then show ?thesis
    using fatal_signal_logged [OF i, of SIGTERM sample_log 1, OF _ _ _ sample_benign, of _ "replicate 1024 NUL"]
    by (auto simp: sample_log_def kibosh_log_init_def KIBOSH_HANDLED_SIGNALS_def SIGTERM_def)
qed

text \<open>
  \<open>SIGPIPE\<close> kills the process after a successful installation, although the comment and
  the log say that it is ignored.
\<close>

lemma sigpipe_kills:
  assumes "install_signal_handlers strsignal tab w = (0, msg, tab', w')" "\<And>e. Error e \<in> set (sched w) \<Longrightarrow> e \<noteq> 0"
  shows "deliver tab' g junk SIGPIPE w1 = (Killed_by SIGPIPE, w1)"
proof -
  have "tab' = installed tab" using install_cases [OF assms(1)] assms(2) by fastforce
  then show ?thesis by (simp add: installed_def deliver_def)
qed

theorem sigpipe_kills_witness:
  "deliver (installed (\<lambda>_. SIG_DFL)) sample_log [] SIGPIPE sample_posix = (Killed_by SIGPIPE, sample_posix)"
proof -
  obtain msg w' where i: "install_signal_handlers (\<lambda>_. []) (\<lambda>_. SIG_DFL) (sample_posix\<lparr>sched := []\<rparr>) = (0, msg, installed (\<lambda>_. SIG_DFL), w')"
    using sample_install by blast
  show ?thesis by (rule sigpipe_kills [OF i]) simp
qed

text \<open>A list of names that fits is logged in full, separated by commas.\<close>

lemma fatal_loop_text:
  assumes "length str + length (concat (map (\<lambda>s. '', '' @ strsignal s) sigs)) < 4096" "length sep \<le> 2" "sigs \<noteq> []"
  shows "fatal_loop strsignal sep sigs str = str @ sep @ strsignal (hd sigs) @ concat (map (\<lambda>s. '', '' @ strsignal s) (tl sigs))"
  using assms
proof (induction sigs arbitrary: str sep)
  case (Cons sig sigs)
  have s: "snappend str 4096 (sep @ strsignal sig) = (0, str @ sep @ strsignal sig)"
    using Cons.prems by (simp add: snappend_def vsnprintf_into_def)
  show ?case
  proof (cases sigs)
    case (Cons sig' sigs')
    have "length (str @ sep @ strsignal sig) + length (concat (map (\<lambda>s. '', '' @ strsignal s) sigs)) < 4096"
      using Cons.prems by simp
    from Cons.IH [OF this, of "'', ''"] Cons s show ?thesis by simp
  qed (simp add: s)
qed simp

lemma install_message:
  assumes "install_signal_handlers strsignal tab w = (0, Some msg, tab', w')" "\<And>e. Error e \<in> set (sched w) \<Longrightarrow> e \<noteq> 0"
    and "length (concat (map (\<lambda>s. '', '' @ strsignal s) KIBOSH_HANDLED_SIGNALS)) < 4096"
  shows "msg = strsignal SIGABRT @ concat (map (\<lambda>s. '', '' @ strsignal s) (tl KIBOSH_HANDLED_SIGNALS))"
proof -
  have "msg = fatal_loop strsignal [] KIBOSH_HANDLED_SIGNALS []" using install_cases [OF assms(1)] assms(2) by fastforce
  then show ?thesis
    using fatal_loop_text [of "[]" strsignal KIBOSH_HANDLED_SIGNALS "[]"] assms(3) by (simp add: KIBOSH_HANDLED_SIGNALS_def)
qed

end
