(* ===== verification/Kibosh_Main.thy ===== *)
theory Kibosh_Main
  imports Oper Signals
begin

text \<open>
  Model of \<open>main.c\<close> and of the table of options of \<open>conf.c\<close>: from the command line to FUSE's
  main loop and back. The functions of FUSE that \<open>main\<close> calls are arguments: a record with the
  option parser, the function that adds an argument and the main loop.

  Messages are left out, except those for a user who asks for help.
\<close>

section \<open>Options\<close>

datatype conf_member = M_random_seed | M_pidfile_path | M_log_path | M_target_path | M_control_mode | M_verbose

text \<open>\<open>struct fuse_opt\<close>, made by \<open>KIBOSH_CONF_OPT\<close> or by \<open>FUSE_OPT_KEY\<close>.\<close>

datatype fuse_opt = Conf_opt string conf_member int | Key_opt string int

definition KIBOSH_CLI_GENERAL_HELP_KEY :: int where "KIBOSH_CLI_GENERAL_HELP_KEY = 0"
definition KIBOSH_CLI_FUSE_HELP_KEY :: int where "KIBOSH_CLI_FUSE_HELP_KEY = 1"

definition kibosh_command_line_options :: "fuse_opt list" where
  "kibosh_command_line_options =
    [Conf_opt ''--random-seed %d'' M_random_seed 0,
     Conf_opt ''--pidfile %s'' M_pidfile_path 0,
     Conf_opt ''--log %s'' M_log_path 0,
     Conf_opt ''--target %s'' M_target_path 0,
     Conf_opt ''--control-mode %o'' M_control_mode 384,
     Conf_opt ''-v'' M_verbose 1,
     Conf_opt ''--verbose'' M_verbose 1,
     Key_opt ''-h'' KIBOSH_CLI_GENERAL_HELP_KEY,
     Key_opt ''--help'' KIBOSH_CLI_GENERAL_HELP_KEY,
     Key_opt ''--fuse-help'' KIBOSH_CLI_FUSE_HELP_KEY]"

definition get_kibosh_command_line_options :: "int \<Rightarrow> fuse_opt list" where
  "get_kibosh_command_line_options t0 =
     (case kibosh_command_line_options of
        Conf_opt t m v # opts \<Rightarrow> Conf_opt t m t0 # opts
      | opts \<Rightarrow> opts)"

section \<open>The process and FUSE\<close>

text \<open>
  What \<open>main\<close> changes of its process. \<open>cwd\<close> is what \<open>get_current_dir_name\<close> returns, a
  directory or an \<open>errno\<close>.
\<close>

record daemon =
  proc :: process
  signal_table :: dispositions
  logging :: log_state
  umask_bits :: uint32
  cwd :: "int + string"
  wall_clock :: int
  stderr_text :: string

text \<open>A call that may end the process with \<open>exit\<close>.\<close>

datatype 'a ending = Exit int daemon | Done 'a daemon

type_synonym option_proc = "int \<Rightarrow> string list \<Rightarrow> daemon \<Rightarrow> int ending run"

text \<open>
  \<open>fuse_opt_parse\<close> fails (\<open>None\<close>) or returns the arguments it leaves for FUSE and the
  configuration; \<open>fuse_opt_add_arg\<close> fails or returns the longer list. \<open>fuse_main\<close> is given the
  private data of the mount.
\<close>

record libfuse =
  fuse_opt_parse :: "fuse_opt list \<Rightarrow> option_proc \<Rightarrow> string list \<Rightarrow> kibosh_conf \<Rightarrow> daemon \<Rightarrow>
    (string list \<times> kibosh_conf) option ending run"
  fuse_opt_add_arg :: "string list \<Rightarrow> string \<Rightarrow> daemon \<Rightarrow> string list option \<times> daemon"
  fuse_main :: "string list \<Rightarrow> kibosh_fs option \<Rightarrow> daemon \<Rightarrow> (int \<times> daemon) run"

definition MANDATORY_FUSE_OPTIONS :: "string list" where
  "MANDATORY_FUSE_OPTIONS =
     [''-oallow_other'', ''-odefault_permissions'', ''-ohard_remove'', ''-oatomic_o_trunc'']"

section \<open>Help\<close>

definition unlines :: "string list \<Rightarrow> string" where
  "unlines ls = concat (map (\<lambda>l. l @ [CHR 0x0A]) ls)"

definition kibosh_usage :: "string \<Rightarrow> string" where
  "kibosh_usage argv0 = unlines
    [''Kibosh: the fault-injecting filesystem.'',
     [],
     ''Kibosh is a FUSE daemon which allows you to inject arbitrary filesystem'',
     ''errors into your applications for testing purposes.'',
     [],
     ''It exports a view of an existing directory.  By default this view is an'',
     ''exact recreation of what is at the directory.  However, we can add'',
     ''distortions to the view by enabling faults.  This allows injecting I/O'',
     ''errors, slow behavior, and so forth, without modifying the underlying'',
     ''target directory.'',
     [],
     ''usage:'',
     ''    '' @ argv0 @ '' [options] <mirror>'',
     [],
     ''    The mirror directory is the mount point for the FUSE fs.'',
     [],
     ''options:'',
     ''    -f                      Enable foreground operation rather than daemonizing.'',
     ''    --log <path>            Write logs to the given path.'',
     ''    --pidfile <path>        Write a process ID file to the given path.'',
     ''                            This will be deleted if the process exits normally.'',
     ''    --target <path>         The directory which we are mirroring (required)'',
     ''    --control-mode <mode>   The octal mode to use on the root-owned control file.'',
     ''                            Defaults to 0600.'',
     ''    --random-seed <seed>    The seed for random generator.'',
     ''                            Defaults to current time.'',
     ''    -v/--verbose            Turn on verbose logging.'',
     [],
     ''    -h/--help               This help text.'',
     [],
     ''    --fuse-help             Get help about possible FUSE options.'']"

definition fuse_help_text :: string where
  "fuse_help_text = unlines
    [''Here are some FUSE options that can be supplied to Kibosh.'',
     ''Note that not all options here are usable.'',
     []]"

text \<open>
  \<open>kibosh_process_option\<close>. The first argument is the name of the program; FUSE calls the
  function with a list that has one. A failure to add the argument is not looked at.
\<close>

definition kibosh_process_option :: "libfuse \<Rightarrow> option_proc" where
  "kibosh_process_option L key outargs d =
     (if key = KIBOSH_CLI_GENERAL_HELP_KEY then
        (case outargs of
           [] \<Rightarrow> Crash
         | argv0 # _ \<Rightarrow> Ret (Exit 0 (d\<lparr>stderr_text := stderr_text d @ kibosh_usage argv0\<rparr>)))
      else if key = KIBOSH_CLI_FUSE_HELP_KEY then
        (case fuse_opt_add_arg L outargs ''-ho'' (d\<lparr>stderr_text := stderr_text d @ fuse_help_text\<rparr>) of (args, d1) \<Rightarrow>
           (case fuse_main L (case args of None \<Rightarrow> outargs | Some a \<Rightarrow> a) None d1 of
              Ret (_, d2) \<Rightarrow> Ret (Exit 0 d2)
            | Crash \<Rightarrow> Crash
            | Stuck \<Rightarrow> Stuck))
      else Ret (Done 1 d))"

section \<open>The entry point\<close>

definition EXIT_FAILURE :: int where "EXIT_FAILURE = 1"

text \<open>The end of \<open>main\<close>: the log is closed, and nothing but memory is freed else.\<close>

definition main_done :: "nat option \<Rightarrow> int \<Rightarrow> daemon \<Rightarrow> int \<times> daemon" where
  "main_done log_file ret d =
     (ret, case log_file of None \<Rightarrow> d | Some fd \<Rightarrow> d\<lparr>proc := (proc d)\<lparr>os := close_fd fd (os (proc d))\<rparr>\<rparr>)"

text \<open>From \<open>kibosh_log_init\<close> on.\<close>

definition main_serve :: "libfuse \<Rightarrow> kibosh_conf \<Rightarrow> kibosh_fs option \<Rightarrow> string list \<Rightarrow> nat option \<Rightarrow> daemon \<Rightarrow> (int \<times> daemon) run" where
  "main_serve L conf fs args log_file d =
     (let d1 = d\<lparr>logging := kibosh_log_init (case log_file of None \<Rightarrow> 1 | Some f \<Rightarrow> f)
                   (if verbose conf \<noteq> 0 then KIBOSH_LOG_ALL_ENABLED else KIBOSH_LOG_INFO_ENABLED)\<rparr>;
          d2 = d1\<lparr>proc := (proc d1)\<lparr>rnd := srand48 (sint (random_seed conf))\<rparr>\<rparr>
      in case fuse_main L args fs d2 of
           Ret (ret, d3) \<Rightarrow> Ret (main_done log_file ret d3)
         | Crash \<Rightarrow> Crash
         | Stuck \<Rightarrow> Stuck)"

text \<open>\<open>fopen(path, "w")\<close> opens the log.\<close>

definition main_open_log :: "libfuse \<Rightarrow> kibosh_conf \<Rightarrow> kibosh_fs option \<Rightarrow> string list \<Rightarrow> daemon \<Rightarrow> (int \<times> daemon) run" where
  "main_open_log L conf fs args d =
     (case log_path conf of
        None \<Rightarrow> main_serve L conf fs args None d
      | Some path \<Rightarrow>
          (case sys_open path (or O_WRONLY (or O_CREAT O_TRUNC)) (os (proc d)) of
             (Inl e, w) \<Rightarrow> Ret (main_done None EXIT_FAILURE (d\<lparr>proc := (proc d)\<lparr>os := w\<rparr>\<rparr>))
           | (Inr fd, w) \<Rightarrow> main_serve L conf fs args (Some fd) (d\<lparr>proc := (proc d)\<lparr>os := w\<rparr>\<rparr>)))"

text \<open>The loop over the mandatory options; \<open>None\<close> is a failure.\<close>

fun add_mandatory :: "libfuse \<Rightarrow> string list \<Rightarrow> string list \<Rightarrow> daemon \<Rightarrow> string list option \<times> daemon" where
  "add_mandatory L [] args d = (Some args, d)"
| "add_mandatory L (opt # opts) args d =
     (case fuse_opt_add_arg L args opt d of
        (None, d') \<Rightarrow> (None, d')
      | (Some args', d') \<Rightarrow> add_mandatory L opts args' d')"

text \<open>
  From \<open>kibosh_fs_alloc\<close> to the loop. Only a negative result counts as a failure; after
  another one \<open>fs\<close> is still null.
\<close>

definition main_mount :: "libfuse \<Rightarrow> (nat \<Rightarrow> char) \<Rightarrow> kibosh_conf \<Rightarrow> string list \<Rightarrow> daemon \<Rightarrow> (int \<times> daemon) run" where
  "main_mount L junk conf args d =
     (case kibosh_fs_alloc junk conf (proc d) of
        Crash \<Rightarrow> Crash
      | Stuck \<Rightarrow> Stuck
      | Ret (r, p) \<Rightarrow>
          let ret = (case r of Inl e \<Rightarrow> e | Inr _ \<Rightarrow> 0); fs = (case r of Inl _ \<Rightarrow> None | Inr fs \<Rightarrow> Some fs) in
          if ret < 0 then Ret (main_done None EXIT_FAILURE (d\<lparr>proc := p\<rparr>))
          else (case add_mandatory L MANDATORY_FUSE_OPTIONS args (d\<lparr>proc := p\<rparr>) of
             (None, d1) \<Rightarrow> Ret (main_done None EXIT_FAILURE d1)
           | (Some args', d1) \<Rightarrow> main_open_log L conf fs args' d1))"

text \<open>From \<open>kibosh_conf_reify\<close> to \<open>chdir\<close>.\<close>

definition main_configure :: "libfuse \<Rightarrow> (nat \<Rightarrow> char) \<Rightarrow> kibosh_conf \<Rightarrow> string list \<Rightarrow> daemon \<Rightarrow> (int \<times> daemon) run" where
  "main_configure L junk conf args d =
     (case kibosh_conf_reify (cwd d) conf (memory (proc d)) of (ret, conf', m1) \<Rightarrow>
        if ret < 0 then Ret (main_done None EXIT_FAILURE (d\<lparr>proc := (proc d)\<lparr>memory := m1\<rparr>\<rparr>))
        else (case kibosh_conf_to_str conf' m1 of
          (None, m2) \<Rightarrow> Ret (main_done None EXIT_FAILURE (d\<lparr>proc := (proc d)\<lparr>memory := m2\<rparr>\<rparr>))
        | (Some _, m2) \<Rightarrow>
            (case sys_status (os (proc d)) of
               (Inl e, w) \<Rightarrow> Ret (main_done None EXIT_FAILURE (d\<lparr>proc := (proc d)\<lparr>memory := m2, os := w\<rparr>\<rparr>))
             | (Inr _, w) \<Rightarrow>
                 main_mount L junk conf' args (d\<lparr>cwd := Inr ''/'', proc := (proc d)\<lparr>memory := m2, os := w\<rparr>\<rparr>))))"

definition kibosh_main :: "libfuse \<Rightarrow> (nat \<Rightarrow> string) \<Rightarrow> (nat \<Rightarrow> char) \<Rightarrow> string list \<Rightarrow> daemon \<Rightarrow> (int \<times> daemon) run" where
  "kibosh_main L strsignal junk argv d =
     (case kibosh_conf_alloc (memory (proc d)) of
        (None, m) \<Rightarrow> Ret (main_done None EXIT_FAILURE (d\<lparr>proc := (proc d)\<lparr>memory := m\<rparr>\<rparr>))
      | (Some conf, m) \<Rightarrow>
          (case install_signal_handlers strsignal (signal_table d) (os (proc d)) of (ret, _, tab, w) \<Rightarrow>
             let d1 = d\<lparr>umask_bits := 0, signal_table := tab, proc := (proc d)\<lparr>memory := m, os := w\<rparr>\<rparr> in
             if ret \<noteq> 0 then Ret (main_done None EXIT_FAILURE d1)
             else (case fuse_opt_parse L (get_kibosh_command_line_options (wall_clock d1)) (kibosh_process_option L) argv conf d1 of
               Crash \<Rightarrow> Crash
             | Stuck \<Rightarrow> Stuck
             | Ret (Exit r d2) \<Rightarrow> Ret (r, d2)
             | Ret (Done None d2) \<Rightarrow> Ret (main_done None EXIT_FAILURE d2)
             | Ret (Done (Some (args, conf')) d2) \<Rightarrow> main_configure L junk conf' args d2)))"

section \<open>What FUSE promises\<close>

text \<open>
  The documented behaviour of the functions of FUSE: an argument is added at the end or memory
  is exhausted; parsing changes nothing but memory and the configuration, unless the process
  exits, and an option that is not on the command line leaves its member alone.
\<close>

definition allocates :: "daemon \<Rightarrow> daemon \<Rightarrow> bool" where
  "allocates d d' \<longleftrightarrow> (\<exists>m. d' = d\<lparr>proc := (proc d)\<lparr>memory := m\<rparr>\<rparr>)"

definition adds_args :: "libfuse \<Rightarrow> bool" where
  "adds_args L \<longleftrightarrow> (\<forall>args a d r d'. fuse_opt_add_arg L args a d = (r, d') \<longrightarrow>
     (r = None \<or> r = Some (args @ [a])) \<and> allocates d d')"

definition parses_quietly :: "libfuse \<Rightarrow> bool" where
  "parses_quietly L \<longleftrightarrow> (\<forall>opts argv conf d r d'.
     fuse_opt_parse L opts (kibosh_process_option L) argv conf d = Ret (Done r d') \<longrightarrow> allocates d d')"

definition keeps_mode :: "libfuse \<Rightarrow> bool" where
  "keeps_mode L \<longleftrightarrow> (\<forall>opts argv conf d args conf' d'.
     (\<forall>a \<in> set argv. \<not> prefix ''--control-mode'' a) \<longrightarrow>
     fuse_opt_parse L opts (kibosh_process_option L) argv conf d = Ret (Done (Some (args, conf')) d') \<longrightarrow>
     control_mode conf' = control_mode conf)"

lemma allocates_simps:
  "allocates d d' \<Longrightarrow> os (proc d') = os (proc d) \<and> signal_table d' = signal_table d \<and> cwd d' = cwd d \<and>
     umask_bits d' = umask_bits d \<and> logging d' = logging d \<and> rnd (proc d') = rnd (proc d) \<and> pid (proc d') = pid (proc d)"
  by (auto simp: allocates_def)

lemma allocates_trans: "allocates d d1 \<Longrightarrow> allocates d1 d2 \<Longrightarrow> allocates d d2"
  by (auto simp: allocates_def)

lemma add_mandatory_spec:
  assumes "adds_args L" "add_mandatory L opts args d = (r, d')"
  shows "(r = None \<or> r = Some (args @ opts)) \<and> allocates d d'"
  using assms(2)
proof (induction opts arbitrary: args d)
  case Nil
  have "allocates d d" unfolding allocates_def by (rule exI [of _ "memory (proc d)"]) simp
  with Nil show ?case by simp
next
  case (Cons opt opts)
  obtain q d1 where q: "fuse_opt_add_arg L args opt d = (q, d1)" by (cases "fuse_opt_add_arg L args opt d")
  with assms(1) have "q = None \<or> q = Some (args @ [opt])" "allocates d d1" by (auto simp: adds_args_def)
  then show ?case using q Cons.prems Cons.IH [of "args @ [opt]" d1] by (auto dest: allocates_trans)
qed

section \<open>What FUSE is called with\<close>

text \<open>The object a mount starts with.\<close>

lemma fs_alloc_shape:
  assumes "kibosh_fs_alloc junk conf p = Ret (Inr fs, p')"
  shows "\<exists>buf fd t. target_path conf = Some t \<and> fs = \<lparr>drop_thread = None, fs_root = t, fs_pidfile_path = pidfile_path conf,
    control_fd = fd, fs_control_mode = control_mode conf, faults = [], cur_control_json = buf, control_buf = [], locked = False\<rparr>"
  using assms
  by (auto simp: kibosh_fs_alloc_def fs_alloc_control_def fs_alloc_contents_def faults_calloc_def strdup_def Let_def
      split: prod.splits sum.splits option.splits if_splits)

text \<open>A failure is negative when the error codes of the kernel are positive.\<close>

lemma memfd_create_error:
  assumes "memfd_create w = (Inl r, w')"
  shows "\<exists>e. r = - e \<and> Error e \<in> set (sched w)"
proof -
  have "next_outcome w = (Error e, w1) \<Longrightarrow> Error e \<in> set (sched w)" for w e w1
    by (auto simp: next_outcome.simps split: list.splits)
  with assms next_outcome_sub show ?thesis
    by (fastforce simp: memfd_create_def Let_def install_fd_def new_inode_def split: prod.splits outcome.splits)
qed

lemma write_pidfile_sub: "set (sched (snd (write_pidfile n path w))) \<subseteq> set (sched w)"
  by (auto simp: write_pidfile_def write_string_to_file_def split: prod.splits sum.splits if_splits
      dest!: sys_open_sub safe_write_sub sys_close_sub)

lemma fs_alloc_control_negative:
  assumes "fs_alloc_control junk conf t pf p = Ret (Inl r, p')" "\<And>e. Error e \<in> set (sched (os p)) \<Longrightarrow> e > 0"
  shows "r < 0"
  using assms
  by (auto simp: fs_alloc_control_def fs_alloc_contents_def faults_calloc_def Let_def ENOMEM_def ENAMETOOLONG_def
      split: prod.splits sum.splits option.splits if_splits dest!: memfd_create_error)

lemma fs_alloc_negative:
  assumes "kibosh_fs_alloc junk conf p = Ret (Inl r, p')" "\<And>e. Error e \<in> set (sched (os p)) \<Longrightarrow> e > 0"
  shows "r < 0"
proof -
  have st: "set (sched w') \<subseteq> set (sched (os p)) \<and> (\<forall>e. x = Inl e \<longrightarrow> e > 0)"
    if "sys_status w = (x, w')" "set (sched w) \<subseteq> set (sched (os p))" for w x w'
    using sys_status_sched [OF that(1)] that(2) assms(2) by blast
  have pf: "set (sched w') \<subseteq> set (sched (os p))"
    if "write_pidfile (pid p) path w = (x, w')" "set (sched w) \<subseteq> set (sched (os p))" for w path x w'
    using write_pidfile_sub [of "pid p" path w] that by simp
  have neg: "r < 0" if "fs_alloc_control junk conf t f (p\<lparr>memory := m, os := w\<rparr>) = Ret (Inl r, p')"
      "set (sched w) \<subseteq> set (sched (os p))" for t f m w
    using fs_alloc_control_negative [OF that(1)] that(2) assms(2) by auto
  from assms(1) show ?thesis
    by (auto simp: kibosh_fs_alloc_def strdup_def Let_def ENOMEM_def split: prod.splits sum.splits option.splits if_splits
        dest!: st pf neg)
qed

text \<open>A state in which \<open>main\<close> may hand over to FUSE, for a configuration.\<close>

definition ready :: "kibosh_conf \<Rightarrow> kibosh_fs \<Rightarrow> daemon \<Rightarrow> bool" where
  "ready conf fs d \<longleftrightarrow>
     faults fs = [] \<and> \<not> locked fs \<and> target_path conf = Some (fs_root fs) \<and> absolute (fs_root fs) \<and>
     fs_control_mode fs = control_mode conf \<and> fs_pidfile_path fs = pidfile_path conf \<and>
     cwd d = Inr ''/'' \<and> umask_bits d = 0 \<and> rnd (proc d) = srand48 (sint (random_seed conf))"

text \<open>
  The result of \<open>main\<close> is that of FUSE's main loop, called in such a state with arguments that
  end with the mandatory ones.
\<close>

definition hands_over :: "libfuse \<Rightarrow> string list \<Rightarrow> kibosh_conf \<Rightarrow> dispositions \<Rightarrow> int \<Rightarrow> daemon \<Rightarrow> bool" where
  "hands_over L args conf tab ret d' \<longleftrightarrow>
     (\<exists>fs d1 d2 ret' lf. fuse_main L (args @ MANDATORY_FUSE_OPTIONS) (Some fs) d1 = Ret (ret', d2) \<and>
        (ret, d') = main_done lf ret' d2 \<and> ready conf fs d1 \<and> signal_table d1 = tab)"

text \<open>\<open>main\<close> after a call of FUSE's main loop.\<close>

definition finishing :: "nat option \<Rightarrow> (int \<times> daemon) run \<Rightarrow> (int \<times> daemon) run" where
  "finishing lf r = (case r of Ret (ret, d) \<Rightarrow> Ret (main_done lf ret d) | Crash \<Rightarrow> Crash | Stuck \<Rightarrow> Stuck)"

definition serving :: "kibosh_conf \<Rightarrow> nat option \<Rightarrow> daemon \<Rightarrow> daemon" where
  "serving conf lf d =
     d\<lparr>logging := kibosh_log_init (case lf of None \<Rightarrow> 1 | Some f \<Rightarrow> f)
         (if verbose conf \<noteq> 0 then KIBOSH_LOG_ALL_ENABLED else KIBOSH_LOG_INFO_ENABLED),
       proc := (proc d)\<lparr>rnd := srand48 (sint (random_seed conf))\<rparr>\<rparr>"

lemma main_serve_finishing: "main_serve L conf fs args lf d = finishing lf (fuse_main L args fs (serving conf lf d))"
  by (simp add: main_serve_def finishing_def serving_def Let_def)

lemma main_serve_hands_over:
  assumes "main_serve L conf (Some fs) (args @ MANDATORY_FUSE_OPTIONS) lf d = Ret (ret, d')"
    and "faults fs = []" "\<not> locked fs" "target_path conf = Some (fs_root fs)" "absolute (fs_root fs)"
      "fs_control_mode fs = control_mode conf" "fs_pidfile_path fs = pidfile_path conf" "cwd d = Inr ''/''" "umask_bits d = 0"
  shows "hands_over L args conf (signal_table d) ret d'"
proof -
  let ?e = "serving conf lf d"
  have "\<exists>ret' d2. fuse_main L (args @ MANDATORY_FUSE_OPTIONS) (Some fs) ?e = Ret (ret', d2) \<and> (ret, d') = main_done lf ret' d2"
    using assms(1) by (auto simp: main_serve_finishing finishing_def split: run.splits)
  moreover have "ready conf fs ?e" "signal_table ?e = signal_table d"
    using assms(2-) by (simp_all add: ready_def serving_def)
  ultimately show ?thesis unfolding hands_over_def by blast
qed

lemma main_open_log_cases:
  assumes "main_open_log L conf (Some fs) (args @ MANDATORY_FUSE_OPTIONS) d = Ret (ret, d')"
    and "faults fs = []" "\<not> locked fs" "target_path conf = Some (fs_root fs)" "absolute (fs_root fs)"
      "fs_control_mode fs = control_mode conf" "fs_pidfile_path fs = pidfile_path conf" "cwd d = Inr ''/''" "umask_bits d = 0"
  shows "ret = EXIT_FAILURE \<or> hands_over L args conf (signal_table d) ret d'"
proof (cases "log_path conf")
  case None
  with assms main_serve_hands_over [of L conf _ args None d] show ?thesis by (simp add: main_open_log_def)
next
  case (Some path)
  obtain r w where o: "sys_open path (or O_WRONLY (or O_CREAT O_TRUNC)) (os (proc d)) = (r, w)" by (metis surj_pair)
  show ?thesis
  proof (cases r)
    case (Inl e)
    with o Some assms(1) show ?thesis by (simp add: main_open_log_def main_done_def)
  next
    case (Inr fd)
    with o Some assms main_serve_hands_over [of L conf _ args "Some fd" "d\<lparr>proc := (proc d)\<lparr>os := w\<rparr>\<rparr>"]
    show ?thesis by (simp add: main_open_log_def)
  qed
qed

lemma main_mount_cases:
  assumes "adds_args L" "main_mount L junk conf args d = Ret (ret, d')" "\<forall>t. target_path conf = Some t \<longrightarrow> absolute t"
    and "cwd d = Inr ''/''" "umask_bits d = 0" "\<And>e. Error e \<in> set (sched (os (proc d))) \<Longrightarrow> e > 0"
  shows "ret = EXIT_FAILURE \<or> hands_over L args conf (signal_table d) ret d'"
proof -
  obtain r p where a: "kibosh_fs_alloc junk conf (proc d) = Ret (r, p)"
    using assms(2) by (cases "kibosh_fs_alloc junk conf (proc d)") (auto simp: main_mount_def)
  show ?thesis
  proof (cases r)
    case (Inl e)
    then have "e < 0" using fs_alloc_negative [OF a [unfolded Inl]] assms(6) by blast
    with Inl a assms(2) show ?thesis by (simp add: main_mount_def main_done_def)
  next
    case (Inr fs)
    obtain q d1 where q: "add_mandatory L MANDATORY_FUSE_OPTIONS args (d\<lparr>proc := p\<rparr>) = (q, d1)"
      by (metis surj_pair)
    from add_mandatory_spec [OF assms(1) q] have
      q1: "q = None \<or> q = Some (args @ MANDATORY_FUSE_OPTIONS)" "allocates (d\<lparr>proc := p\<rparr>) d1" by auto
    show ?thesis
    proof (cases q)
      case None
      with a Inr q assms(2) show ?thesis by (simp add: main_mount_def main_done_def)
    next
      case (Some args')
      with a Inr q q1(1) assms(2) have "main_open_log L conf (Some fs) (args @ MANDATORY_FUSE_OPTIONS) d1 = Ret (ret, d')"
        by (simp add: main_mount_def)
      from main_open_log_cases [OF this] fs_alloc_shape [OF a [unfolded Inr]] allocates_simps [OF q1(2)] assms(3-)
      show ?thesis by auto
    qed
  qed
qed

lemma main_configure_cases:
  assumes "adds_args L" "main_configure L junk conf args d = Ret (ret, d')" "umask_bits d = 0"
    and "\<And>dir. cwd d = Inr dir \<Longrightarrow> absolute dir" "\<And>e. cwd d = Inl e \<Longrightarrow> e > 0"
    and "\<And>e. Error e \<in> set (sched (os (proc d))) \<Longrightarrow> e > 0"
  shows "ret = EXIT_FAILURE \<or>
    (\<exists>conf'. control_mode conf' = control_mode conf \<and> random_seed conf' = random_seed conf \<and>
       hands_over L args conf' (signal_table d) ret d')"
proof -
  obtain r conf' m1 where c: "kibosh_conf_reify (cwd d) conf (memory (proc d)) = (r, conf', m1)" by (metis prod_cases3)
  obtain str m2 where s: "kibosh_conf_to_str conf' m1 = (str, m2)" by (metis surj_pair)
  obtain x w where x: "sys_status (os (proc d)) = (x, w)" by (metis surj_pair)
  show ?thesis
  proof (cases "r < 0 \<or> str = None \<or> (\<exists>e. x = Inl e)")
    case True
    with assms(2) c s x show ?thesis by (auto simp: main_configure_def main_done_def split: if_splits option.splits)
  next
    case False
    then have r: "\<not> r < 0" by blast
    let ?d = "d\<lparr>cwd := Inr ''/'', proc := (proc d)\<lparr>memory := m2, os := w\<rparr>\<rparr>"
    from False assms(2) c s x have m: "main_mount L junk conf' args ?d = Ret (ret, d')"
      by (cases x) (auto simp: main_configure_def)
    have "\<forall>t. target_path conf' = Some t \<longrightarrow> absolute t"
      using reify_complete [OF c r] assms(4,5) by auto
    moreover have "Error y \<in> set (sched w) \<Longrightarrow> y > 0" for y using sys_status_sched [OF x] assms(6) by blast
    ultimately show ?thesis using main_mount_cases [OF assms(1) m] assms(3) reify_members [OF c] by auto
  qed
qed

definition no_conf :: kibosh_conf where
  "no_conf = \<lparr>pidfile_path = None, log_path = None, target_path = None, verbose = 0, control_mode = 0, random_seed = 0\<rparr>"

text \<open>The state in which \<open>main\<close> calls the option parser.\<close>

definition parsing :: "(nat \<Rightarrow> string) \<Rightarrow> daemon \<Rightarrow> daemon" where
  "parsing strsignal d =
     (case install_signal_handlers strsignal (signal_table d) (os (proc d)) of (_, _, tab, w) \<Rightarrow>
        d\<lparr>umask_bits := 0, signal_table := tab, proc := (proc d)\<lparr>memory := snd (alloc (memory (proc d))), os := w\<rparr>\<rparr>)"

definition parsed :: "libfuse \<Rightarrow> (nat \<Rightarrow> string) \<Rightarrow> string list \<Rightarrow> daemon \<Rightarrow> (string list \<times> kibosh_conf) option ending run" where
  "parsed L strsignal argv d =
     fuse_opt_parse L (get_kibosh_command_line_options (wall_clock d)) (kibosh_process_option L) argv no_conf (parsing strsignal d)"

lemma main_cases:
  assumes "adds_args L" "parses_quietly L" "kibosh_main L strsignal junk argv d = Ret (ret, d')"
    and "\<And>dir. cwd d = Inr dir \<Longrightarrow> absolute dir" "\<And>e. cwd d = Inl e \<Longrightarrow> e > 0"
    and "\<And>e. Error e \<in> set (sched (os (proc d))) \<Longrightarrow> e > 0"
  shows "ret = EXIT_FAILURE \<or> parsed L strsignal argv d = Ret (Exit ret d') \<or>
    (\<exists>args conf conf' d1. parsed L strsignal argv d = Ret (Done (Some (args, conf)) d1) \<and>
       control_mode conf' = control_mode conf \<and> random_seed conf' = random_seed conf \<and>
       hands_over L args conf' (installed (signal_table d)) ret d')"
proof -
  obtain r msg tab w where i: "install_signal_handlers strsignal (signal_table d) (os (proc d)) = (r, msg, tab, w)"
    by (metis prod_cases4)
  obtain ok m where a: "alloc (memory (proc d)) = (ok, m)" by (metis surj_pair)
  show ?thesis
  proof (cases "\<not> ok \<or> r \<noteq> 0 \<or> (\<exists>d1. parsed L strsignal argv d = Ret (Done None d1))")
    case True
    with assms(3) i a show ?thesis
      by (cases ok; cases "r = 0")
         (auto simp: kibosh_main_def kibosh_conf_alloc_def main_done_def parsed_def parsing_def no_conf_def Let_def)
  next
    case False
    with i have tab: "tab = installed (signal_table d)" using install_cases [OF i] assms(6) by auto
    define e where "e = parsing strsignal d"
    have e: "umask_bits e = 0" "signal_table e = tab" "cwd e = cwd d" "set (sched (os (proc e))) \<subseteq> set (sched (os (proc d)))"
      using i install_sched [OF i] by (simp_all add: e_def parsing_def)
    from False assms(3) i a have
      k: "(case parsed L strsignal argv d of Crash \<Rightarrow> Crash | Stuck \<Rightarrow> Stuck | Ret (Exit r d2) \<Rightarrow> Ret (r, d2)
           | Ret (Done None d2) \<Rightarrow> Ret (main_done None EXIT_FAILURE d2)
           | Ret (Done (Some (args, conf')) d2) \<Rightarrow> main_configure L junk conf' args d2) = Ret (ret, d')"
      by (simp add: kibosh_main_def kibosh_conf_alloc_def parsed_def parsing_def no_conf_def Let_def)
    show ?thesis
    proof (cases "\<exists>args conf d1. parsed L strsignal argv d = Ret (Done (Some (args, conf)) d1)")
      case True
      then obtain args conf d1 where p: "parsed L strsignal argv d = Ret (Done (Some (args, conf)) d1)" by blast
      with assms(2) have "allocates e d1" unfolding parses_quietly_def parsed_def e_def [symmetric] by blast
      note al = allocates_simps [OF this]
      from p k have c: "main_configure L junk conf args d1 = Ret (ret, d')" by simp
      have "Error y \<in> set (sched (os (proc d1))) \<Longrightarrow> y > 0" for y using e(4) al assms(6) by auto
      with main_configure_cases [OF assms(1) c] e(1-3) al assms(4,5) p tab show ?thesis by auto
    next
      case none: False
      with False k show ?thesis by (auto split: run.splits ending.splits option.splits)
    qed
  qed
qed

section \<open>Undisturbed starts\<close>

text \<open>A process to start from: memory suffices and no call fails.\<close>

definition unhindered :: "daemon \<Rightarrow> bool" where
  "unhindered d \<longleftrightarrow> smooth (os (proc d)) \<and> posix_ok (os (proc d)) \<and> memory (proc d) = []"

definition adds_freely :: "libfuse \<Rightarrow> bool" where
  "adds_freely L \<longleftrightarrow> (\<forall>args a d. memory (proc d) = [] \<longrightarrow> fuse_opt_add_arg L args a d = (Some (args @ [a]), d))"

lemma add_mandatory_freely:
  "adds_freely L \<Longrightarrow> memory (proc d) = [] \<Longrightarrow> add_mandatory L opts args d = (Some (args @ opts), d)"
  by (induction opts arbitrary: args) (simp_all add: adds_freely_def)

lemma open_log_freely:
  assumes "unhindered d" "adds_freely L"
  shows "\<exists>lf d1. main_open_log L conf fs args d = finishing lf (fuse_main L args fs d1) \<and>
    signal_table d1 = signal_table d \<and> unhindered d1 \<and>
    (\<forall>pf. map_of (names (os (proc d))) pf \<noteq> None \<longrightarrow> map_of (names (os (proc d1))) pf \<noteq> None)"
proof (cases "log_path conf")
  case None
  with assms(1) show ?thesis
    by (intro exI [of _ None] exI [of _ "serving conf None d"])
       (simp add: main_open_log_def main_serve_finishing serving_def unhindered_def)
next
  case (Some path)
  let ?fl = "or O_WRONLY (or O_CREAT O_TRUNC)"
  have "and ?fl O_CREAT \<noteq> 0" by (simp add: open_flag_defs)
  then obtain fd w where o: "sys_open path ?fl (os (proc d)) = (Inr fd, w)" "smooth w" "posix_ok w"
    using sys_open_opens [of "os (proc d)" path ?fl] assms(1) unfolding unhindered_def by metis
  have "map_of (names w) pf \<noteq> None" if "map_of (names (os (proc d))) pf \<noteq> None" for pf
    using o(1) that
    by (auto simp: sys_open_def Let_def install_fd_def new_inode_def next_outcome.simps
        split: prod.splits outcome.splits option.splits if_splits list.splits)
  with o Some assms(1) show ?thesis
    by (intro exI [of _ "Some fd"] exI [of _ "serving conf (Some fd) (d\<lparr>proc := (proc d)\<lparr>os := w\<rparr>\<rparr>)"])
       (simp add: main_open_log_def main_serve_finishing serving_def unhindered_def)
qed

lemma configure_freely:
  assumes "unhindered e" "adds_freely L" "cwd e = Inr dir" "target_path conf = Some t"
  shows "\<exists>lf fs d1. main_configure L junk conf args e =
      finishing lf (fuse_main L (args @ MANDATORY_FUSE_OPTIONS) (Some fs) d1) \<and>
    fs_root fs = (if absolute t then t else dir @ ''/'' @ t) \<and> signal_table d1 = signal_table e \<and> unhindered d1 \<and>
    (\<forall>pf. fs_pidfile_path fs = Some pf \<longrightarrow> map_of (names (os (proc d1))) pf \<noteq> None)"
proof -
  let ?t = "if absolute t then t else dir @ ''/'' @ t"
  obtain conf' where c: "kibosh_conf_reify (Inr dir) conf [] = (0, conf', [])" "target_path conf' = Some ?t"
    using assms(4) by (simp add: kibosh_conf_reify_def absolutize_ok Let_def)
  obtain w1 where w1: "sys_status (os (proc e)) = (Inr (), w1)" "smooth w1" "inodes w1 = inodes (os (proc e))"
      "names w1 = names (os (proc e))" "fds w1 = fds (os (proc e))"
    using sys_status_smooth [of "os (proc e)"] assms(1) unfolding unhindered_def by blast
  let ?d = "e\<lparr>cwd := Inr ''/'', proc := (proc e)\<lparr>memory := [], os := w1\<rparr>\<rparr>"
  have m2: "main_configure L junk conf args e = main_mount L junk conf' args ?d"
    using assms(1,3) c(1) w1(1) by (simp add: main_configure_def unhindered_def kibosh_conf_to_str_def dynprintf_def)
  have "posix_ok w1" using assms(1) w1 by (simp add: unhindered_def posix_ok_def)
  then obtain fd w2 where
    f: "kibosh_fs_alloc junk conf' (proc ?d) = Ret (Inr (fresh_fs ?t (pidfile_path conf') conf' fd), (proc ?d)\<lparr>memory := [], os := w2\<rparr>)"
      "smooth w2" "posix_ok w2" "\<forall>pf. pidfile_path conf' = Some pf \<longrightarrow> map_of (names w2) pf \<noteq> None"
    using fs_alloc_fresh [of "proc ?d" conf' _ junk] w1(2) c(2) by auto
  let ?fs = "fresh_fs ?t (pidfile_path conf') conf' fd" and ?d2 = "?d\<lparr>proc := (proc ?d)\<lparr>memory := [], os := w2\<rparr>\<rparr>"
  have m3: "main_mount L junk conf' args ?d = main_open_log L conf' (Some ?fs) (args @ MANDATORY_FUSE_OPTIONS) ?d2"
    using f(1) add_mandatory_freely [OF assms(2), of ?d2] by (simp add: main_mount_def)
  have "unhindered ?d2" using f(2,3) by (simp add: unhindered_def)
  from open_log_freely [OF this assms(2), of conf' "Some ?fs" "args @ MANDATORY_FUSE_OPTIONS"] obtain lf d1 where
    l: "main_open_log L conf' (Some ?fs) (args @ MANDATORY_FUSE_OPTIONS) ?d2 =
        finishing lf (fuse_main L (args @ MANDATORY_FUSE_OPTIONS) (Some ?fs) d1)"
      "signal_table d1 = signal_table ?d2" "unhindered d1"
      "\<forall>pf. map_of (names (os (proc ?d2))) pf \<noteq> None \<longrightarrow> map_of (names (os (proc d1))) pf \<noteq> None" by blast
  have "fs_root ?fs = ?t" "fs_pidfile_path ?fs = pidfile_path conf'" by (simp_all add: fresh_fs_def)
  with l m2 m3 f(4) show ?thesis by (intro exI [of _ lf] exI [of _ ?fs] exI [of _ d1]) simp
qed

lemma main_reaches:
  assumes "unhindered d" "adds_freely L" "cwd d = Inr dir"
    and "parsed L strsignal argv d = Ret (Done (Some (args, conf)) (parsing strsignal d))"
    and "target_path conf = Some t"
  shows "\<exists>lf fs d1. kibosh_main L strsignal junk argv d =
      finishing lf (fuse_main L (args @ MANDATORY_FUSE_OPTIONS) (Some fs) d1) \<and>
    fs_root fs = (if absolute t then t else dir @ ''/'' @ t) \<and> signal_table d1 = installed (signal_table d) \<and> unhindered d1 \<and>
    (\<forall>pf. fs_pidfile_path fs = Some pf \<longrightarrow> map_of (names (os (proc d1))) pf \<noteq> None)"
proof -
  from install_smooth [of "os (proc d)" strsignal "signal_table d"] assms(1) obtain msg w where
    i: "install_signal_handlers strsignal (signal_table d) (os (proc d)) = (0, msg, installed (signal_table d), w)"
      "smooth w" "names w = names (os (proc d))" "fds w = fds (os (proc d))" "inodes w = inodes (os (proc d))"
    unfolding unhindered_def by blast
  let ?e = "parsing strsignal d"
  have e: "unhindered ?e" "cwd ?e = Inr dir" "signal_table ?e = installed (signal_table d)"
    using i assms(1,3) by (auto simp: parsing_def unhindered_def posix_ok_def)
  have m: "kibosh_main L strsignal junk argv d = main_configure L junk conf args ?e"
    using assms(1,4) i(1)
    by (simp add: kibosh_main_def kibosh_conf_alloc_def parsed_def parsing_def no_conf_def unhindered_def Let_def)
  from configure_freely [OF e(1) assms(2) e(2) assms(5), of junk args] m e(3) show ?thesis by simp
qed

section \<open>A concrete FUSE\<close>

text \<open>
  A small parser of options, and a main loop that mounts and at once unmounts: they behave as
  documented, so what is assumed of FUSE can hold.
\<close>

fun sample_parse :: "option_proc \<Rightarrow> string list \<Rightarrow> string list \<Rightarrow> kibosh_conf \<Rightarrow> daemon \<Rightarrow>
    (string list \<times> kibosh_conf) option ending run" where
  "sample_parse P [] acc conf d = Ret (Done (Some (acc, conf)) d)"
| "sample_parse P (a # as) acc conf d =
     (if a = ''-h'' then
        (case P KIBOSH_CLI_GENERAL_HELP_KEY (acc @ [a]) d of
           Ret (Exit r d') \<Rightarrow> Ret (Exit r d') | Ret (Done _ d') \<Rightarrow> Ret (Done None d') | Crash \<Rightarrow> Crash | Stuck \<Rightarrow> Stuck)
      else if a = ''--target'' then
        (case as of [] \<Rightarrow> Ret (Done None d) | x # as' \<Rightarrow> sample_parse P as' acc (conf\<lparr>target_path := Some x\<rparr>) d)
      else if a = ''--pidfile'' then
        (case as of [] \<Rightarrow> Ret (Done None d) | x # as' \<Rightarrow> sample_parse P as' acc (conf\<lparr>pidfile_path := Some x\<rparr>) d)
      else sample_parse P as (acc @ [a]) conf d)"

definition sample_loop :: "string list \<Rightarrow> kibosh_fs option \<Rightarrow> daemon \<Rightarrow> (int \<times> daemon) run" where
  "sample_loop args fs d =
     (case fs of
        None \<Rightarrow> Ret (0, d)
      | Some fs \<Rightarrow>
          (case kibosh_init True fs (proc d) of
             Ret (fs', p) \<Rightarrow> Ret (0, d\<lparr>proc := kibosh_destroy fs' p\<rparr>) | Crash \<Rightarrow> Crash | Stuck \<Rightarrow> Stuck))"

definition sample_libfuse :: libfuse where
  "sample_libfuse =
     \<lparr>fuse_opt_parse = (\<lambda>opts P argv conf d. sample_parse P argv [] conf d),
      fuse_opt_add_arg = (\<lambda>args a d. case alloc (memory (proc d)) of (ok, m) \<Rightarrow>
        (if ok then Some (args @ [a]) else None, d\<lparr>proc := (proc d)\<lparr>memory := m\<rparr>\<rparr>)),
      fuse_main = sample_loop\<rparr>"

definition sample_daemon :: daemon where
  "sample_daemon = \<lparr>proc = sample_process\<lparr>os := sample_posix\<lparr>sched := []\<rparr>\<rparr>, signal_table = (\<lambda>_. SIG_DFL), logging = initial_log,
     umask_bits = 18, cwd = Inr ''/home'', wall_clock = 1000, stderr_text = []\<rparr>"

definition sample_argv :: "string list" where
  "sample_argv = [''kibosh'', ''--target'', ''t'', ''--pidfile'', ''/p'', ''/mnt'']"

lemma allocates_refl: "allocates d d"
  unfolding allocates_def by (rule exI [of _ "memory (proc d)"]) simp

lemma sample_adds: "adds_args sample_libfuse"
  by (auto simp: adds_args_def sample_libfuse_def allocates_def split: prod.splits)

lemma sample_adds_freely: "adds_freely sample_libfuse"
  by (simp add: adds_freely_def sample_libfuse_def)

lemma help_exits:
  "\<exists>d'. kibosh_process_option L KIBOSH_CLI_GENERAL_HELP_KEY (acc @ [a]) d = Ret (Exit 0 d')"
  by (cases acc) (auto simp: kibosh_process_option_def)

lemma sample_parse_quiet:
  "sample_parse (kibosh_process_option L) argv acc conf d = Ret (Done r d') \<Longrightarrow> allocates d d' \<and>
     (\<forall>args conf'. r = Some (args, conf') \<longrightarrow> control_mode conf' = control_mode conf)"
proof (induction "kibosh_process_option L" argv acc conf d rule: sample_parse.induct)
  case (2 a as acc conf d)
  show ?case
  proof (cases "a = ''-h''")
    case True
    obtain d0 where "kibosh_process_option L KIBOSH_CLI_GENERAL_HELP_KEY (acc @ [''-h'']) d = Ret (Exit 0 d0)"
      using help_exits by blast
    with True 2 show ?thesis by simp
  next
    case False
    with 2 show ?thesis by (cases as) (simp_all add: allocates_refl split: if_splits)
  qed
qed (auto simp: allocates_refl)

lemma sample_parses: "parses_quietly sample_libfuse" "keeps_mode sample_libfuse"
  using sample_parse_quiet [of sample_libfuse]
  by (auto simp: parses_quietly_def keeps_mode_def sample_libfuse_def)

lemma sample_cwd: "cwd sample_daemon = Inr dir \<Longrightarrow> absolute dir" "cwd sample_daemon = Inl e \<Longrightarrow> e > 0"
  by (auto simp: sample_daemon_def absolute_def)

lemma sample_unhindered: "unhindered sample_daemon"
  by (simp add: unhindered_def sample_daemon_def smooth_def posix_ok_def sample_process_def sample_posix_def)

lemma sample_parsed:
  "parsed sample_libfuse strsignal sample_argv sample_daemon =
     Ret (Done (Some ([''kibosh'', ''/mnt''], no_conf\<lparr>target_path := Some ''t'', pidfile_path := Some ''/p''\<rparr>)) (parsing strsignal sample_daemon))"
  by (simp add: parsed_def sample_libfuse_def sample_argv_def)

lemma sample_loop_ok: "memory (proc d) = [] \<Longrightarrow> \<exists>d'. fuse_main sample_libfuse args fs d = Ret (0, d')"
  by (cases fs) (auto simp: sample_libfuse_def sample_loop_def kibosh_init_def drop_cache_thread_start_def)

lemma finishing_ok: "\<exists>d'. r = Ret (ret, d') \<Longrightarrow> \<exists>d'. finishing lf r = Ret (ret, d')"
  by (auto simp: finishing_def main_done_def)

lemma sample_run:
  "\<exists>d. kibosh_main sample_libfuse (\<lambda>_. []) (\<lambda>_. NUL) sample_argv sample_daemon = Ret (0, d)"
proof -
  have "cwd sample_daemon = Inr ''/home''" by (simp add: sample_daemon_def)
  from main_reaches [OF sample_unhindered sample_adds_freely this sample_parsed, of "''t''" "\<lambda>_. []" "\<lambda>_. NUL"]
  obtain lf fs d1 where
    k: "kibosh_main sample_libfuse (\<lambda>_. []) (\<lambda>_. NUL) sample_argv sample_daemon =
        finishing lf (fuse_main sample_libfuse ([''kibosh'', ''/mnt''] @ MANDATORY_FUSE_OPTIONS) (Some fs) d1)"
      and "unhindered d1" by auto
  then have "memory (proc d1) = []" by (simp add: unhindered_def)
  from finishing_ok [OF sample_loop_ok [OF this]] show ?thesis unfolding k .
qed

section \<open>The properties\<close>


lemma sample_sched: "Error e \<in> set (sched (os (proc sample_daemon))) \<Longrightarrow> e > 0"
  by (simp add: sample_daemon_def)


text \<open>
  The mode of the control file defaults to 0 and not to 0600 as the help text says: the
  default in the table of options is for options without parameter, and FUSE leaves the member
  of the cleared configuration alone.
\<close>

lemma control_mode_default:
  assumes "adds_args L" "parses_quietly L" "keeps_mode L" "kibosh_main L strsignal junk argv d = Ret (ret, d')"
    and "\<And>dir. cwd d = Inr dir \<Longrightarrow> absolute dir" "\<And>e. cwd d = Inl e \<Longrightarrow> e > 0"
    and "\<And>e. Error e \<in> set (sched (os (proc d))) \<Longrightarrow> e > 0"
    and "\<forall>a \<in> set argv. \<not> prefix ''--control-mode'' a"
  shows "ret = EXIT_FAILURE \<or> parsed L strsignal argv d = Ret (Exit ret d') \<or>
    (\<exists>args conf. control_mode conf = 0 \<and> hands_over L args conf (installed (signal_table d)) ret d')"
proof -
  have "control_mode conf = 0" if "parsed L strsignal argv d = Ret (Done (Some (args, conf)) d1)" for args conf d1
  proof -
    from that assms(3,8) have "control_mode conf = control_mode no_conf" unfolding parsed_def keeps_mode_def by blast
    then show ?thesis by (simp add: no_conf_def)
  qed
  with main_cases [OF assms(1,2,4,5,6,7)] show ?thesis by fastforce
qed

theorem control_mode_default_witness:
  "\<exists>args conf d'. control_mode conf = 0 \<and> hands_over sample_libfuse args conf (installed (\<lambda>_. SIG_DFL)) 0 d'"
proof -
  obtain d' where k: "kibosh_main sample_libfuse (\<lambda>_. []) (\<lambda>_. NUL) sample_argv sample_daemon = Ret (0, d')"
    using sample_run by blast
  have "\<forall>a \<in> set sample_argv. \<not> prefix ''--control-mode'' a" by (simp add: sample_argv_def)
  from control_mode_default [OF sample_adds sample_parses k sample_cwd sample_sched this] sample_parsed
  show ?thesis by (auto simp: EXIT_FAILURE_def sample_daemon_def)
qed

text \<open>
  When the log cannot be opened, \<open>main\<close> fails without freeing the file system object: the
  pid file it has written and the control file it has opened stay behind.
\<close>

lemma log_failure_leaves_pidfile:
  assumes "log_path conf = Some path" "sys_open path (or O_WRONLY (or O_CREAT O_TRUNC)) (os (proc d)) = (Inl e, w)"
  shows "\<exists>d'. main_open_log L conf (Some fs) args d = Ret (EXIT_FAILURE, d') \<and>
    map_of (names (os (proc d'))) pidfile = map_of (names (os (proc d))) pidfile \<and>
    fd_lookup (control_fd fs) (os (proc d')) = fd_lookup (control_fd fs) (os (proc d))"
proof -
  have "names w = names (os (proc d))" "fds w = fds (os (proc d))"
    using assms(2)
    by (auto simp: sys_open_def Let_def install_fd_def new_inode_def next_outcome.simps
        split: prod.splits outcome.splits option.splits if_splits list.splits)
  then show ?thesis using assms by (simp add: main_open_log_def main_done_def fd_lookup_def)
qed

theorem log_failure_leaves_pidfile_witness:
  "\<exists>d'. main_open_log sample_libfuse (no_conf\<lparr>log_path := Some ''/l''\<rparr>) (Some sample_fs) []
     (sample_daemon\<lparr>proc := sample_process\<lparr>os := sample_posix\<lparr>sched := [Error 13], names := [(''/p'', 0)]\<rparr>\<rparr>\<rparr>) = Ret (EXIT_FAILURE, d') \<and>
     map_of (names (os (proc d'))) ''/p'' = Some 0"
proof -
  let ?d = "sample_daemon\<lparr>proc := sample_process\<lparr>os := sample_posix\<lparr>sched := [Error 13], names := [(''/p'', 0)]\<rparr>\<rparr>\<rparr>"
  have "sys_open ''/l'' (or O_WRONLY (or O_CREAT O_TRUNC)) (os (proc ?d)) = (Inl 13, sample_posix\<lparr>sched := [], names := [(''/p'', 0)]\<rparr>)"
    by (simp add: sys_open_def next_outcome.simps)
  from log_failure_leaves_pidfile [OF _ this, of "no_conf\<lparr>log_path := Some ''/l''\<rparr>" sample_libfuse sample_fs "[]" "''/p''"]
  show ?thesis by auto
qed



end
