(* ===== verification/Json_Facts.thy ===== *)
theory Json_Facts
  imports Json
begin

text \<open>
  The safety of the parser. A section of the loop body is specified by what holds on each of
  its four exits; the loop is then handled once, for any invariant that the body keeps and
  any rank that it lowers. The first pass is shown to read and write only what exists and to
  come to an end within the fuel of the model.
\<close>

section \<open>Exits\<close>

fun exits :: "(jst \<Rightarrow> bool) \<Rightarrow> (jst \<Rightarrow> bool) \<Rightarrow> (jst \<Rightarrow> bool) \<Rightarrow> (json_error \<Rightarrow> bool) \<Rightarrow> ctl \<Rightarrow> bool"
where
  "exits F C B E (Fall s) = F s"
| "exits F C B E (Continue s) = C s"
| "exits F C B E (Break s) = B s"
| "exits F C B E (Failed e s) = E e"

lemma exits_then [simp]:
  "exits F C B E (then_section c f) = exits (\<lambda>s. exits F C B E (f s)) C B E c"
  by (cases c) simp_all

lemma exits_mono:
  assumes "exits F C B E c" "\<And>s. F s \<Longrightarrow> F' s" "\<And>s. C s \<Longrightarrow> C' s" "\<And>s. B s \<Longrightarrow> B' s" "\<And>e. E e \<Longrightarrow> E' e"
  shows "exits F' C' B' E' c"
  using assms by (cases c) simp_all

lemma exits_if [simp]: "exits F C B E (if p then c else d) = (if p then exits F C B E c else exits F C B E d)"
  by simp

text \<open>
  An error the text or the allocator is the cause of, as opposed to one that the parser
  must never make.
\<close>

definition clean :: "json_error \<Rightarrow> bool" where
  "clean e \<longleftrightarrow> e \<notin> {Out_of_bounds_read, Out_of_bounds_write, Null_dereference, Use_after_free, Out_of_fuel}"

lemma clean_simps [simp]:
  "clean Unexpected_EOF_in_string" "clean Invalid_character_value" "clean Unexpected_EOF_in_block_comment"
  "clean Comment_not_allowed_here" "clean EOF_unexpected" "clean Unexpected_in_comment_opening"
  "clean Trailing_garbage" "clean Unexpected_bracket" "clean Expected_comma" "clean Expected_colon"
  "clean Unexpected_when_seeking_value" "clean Expected_comma_before_quote" "clean Unexpected_in_object"
  "clean Unexpected_zero" "clean Expected_digit_before_dot" "clean Expected_digit_after_dot"
  "clean Expected_digit_after_e" "clean Unknown_value" "clean Memory_allocation_failure" "clean Too_long"
  by (simp_all add: clean_def)

section \<open>The loop\<close>

locale loop_body =
  fixes cfg :: json_settings and js :: string and inv :: "jst \<Rightarrow> bool"
    and rank :: "jst \<Rightarrow> nat" and post :: "jst \<Rightarrow> bool" and err :: "json_error \<Rightarrow> bool"
  assumes body: "inv s \<Longrightarrow>
    exits (\<lambda>s'. inv (advance 1 s') \<and> rank (advance 1 s') < rank s)
          (\<lambda>s'. inv (advance 1 s') \<and> rank (advance 1 s') < rank s) post err (json_body cfg js s)"
begin

lemma loop_ends:
  assumes "inv s" and "rank s < fuel"
  shows "exits (\<lambda>_. False) (\<lambda>_. False) post err (json_loop cfg js fuel s)"
  using assms
proof (induction fuel arbitrary: s)
  case (Suc fuel)
  show ?case
    using body [OF Suc.prems(1)] Suc.IH Suc.prems(2) by (cases "json_body cfg js s") auto
qed simp

end

section \<open>The text\<close>

lemma rd_some: "0 \<le> p \<Longrightarrow> p \<le> int (length js) \<Longrightarrow> \<exists>b. rd js p = Some b"
  by (auto simp: rd_def)

lemma rd_not_nul: "rd js p = Some b \<Longrightarrow> b \<noteq> NUL \<Longrightarrow> 0 \<le> p \<and> p < int (length js)"
  by (auto simp: rd_def split: if_splits)

lemma rd_range: "rd js p = Some b \<Longrightarrow> 0 \<le> p \<and> p \<le> int (length js)"
  by (auto simp: rd_def split: if_splits)

lemma hex_value_nul [simp]: "hex_value NUL = 0xFF"
  by (simp add: hex_value_def isdigit_def)

text \<open>
  After the length test the hex digits and the letters of a literal are read from the text
  or its NUL; a successful read stays before the NUL.
\<close>

lemma read_hex_safe:
  "0 \<le> p \<Longrightarrow> p + int k \<le> int (length js) \<Longrightarrow>
   (case read_hex k js p of Inl e \<Rightarrow> e = Invalid_character_value
    | Inr vs \<Rightarrow> length vs = k \<and> (k = 0 \<or> p + int k < int (length js)))"
proof (induction k arbitrary: p)
  case (Suc k)
  obtain c where c: "rd js (p + 1) = Some c" using rd_some [of "p + 1" js] Suc.prems by auto
  show ?case
  proof (cases "hex_value c = 0xFF")
    case False
    then have "p + 1 < int (length js)" using rd_not_nul [OF c] by (cases "c = NUL") auto
    with Suc.IH [of "p + 1"] Suc.prems c False show ?thesis
      by (auto split: sum.splits)
  qed (use c in simp)
qed simp

lemma match_chars_safe:
  "0 \<le> p \<Longrightarrow> p + int (length cs) \<le> int (length js) \<Longrightarrow> NUL \<notin> set cs \<Longrightarrow>
   (case match_chars err js p cs of Some e \<Rightarrow> e = err
    | None \<Rightarrow> cs = [] \<or> p + int (length cs) < int (length js))"
proof (induction cs arbitrary: p)
  case (Cons c cs)
  obtain d where d: "rd js (p + 1) = Some d" using rd_some [of "p + 1" js] Cons.prems by auto
  show ?case
  proof (cases "d = c")
    case True
    then have "p + 1 < int (length js)" using rd_not_nul [OF d] Cons.prems by (cases "d = NUL") auto
    with Cons.IH [of "p + 1"] Cons.prems d True show ?thesis
      by (auto split: option.splits)
  qed (use d in simp)
qed simp

section \<open>The store in the first pass\<close>

abbreviation container :: "json_type \<Rightarrow> bool" where
  "container ty \<equiv> ty = json_array \<or> ty = json_object"

abbreviation numeric :: "json_type \<Rightarrow> bool" where
  "numeric ty \<equiv> ty = json_integer \<or> ty = json_double"

abbreviation in_comment :: "jst \<Rightarrow> bool" where
  "in_comment s \<equiv> flag_line_comment (flags s) \<or> flag_block_comment (flags s)"

text \<open>
  The nodes are linked in the order of their allocation, the first is the root, and the
  parent of every other one is an array or object allocated before it.
\<close>

definition node_ok :: "json_node list \<Rightarrow> nat \<Rightarrow> bool" where
  "node_ok h i \<longleftrightarrow>
     (case jparent (h ! i) of None \<Rightarrow> i = 0 | Some p \<Rightarrow> p < i \<and> container (jtype (h ! p))) \<and>
     jnext_alloc (h ! i) = (if Suc i < length h then Some (Suc i) else None)"

definition heap_ok :: "jst \<Rightarrow> bool" where
  "heap_ok s \<longleftrightarrow>
     (\<forall>i < length (heap s). node_ok (heap s) i) \<and>
     s_alloc s = (if heap s = [] then None else Some (length (heap s) - 1)) \<and>
     s_root s = (if heap s = [] then None else Some 0)"

text \<open>What the node \<open>top\<close> is, by what the flags say the parser is doing.\<close>

definition top_fits :: "jst \<Rightarrow> bool" where
  "top_fits s \<longleftrightarrow>
     (case s_top s of
        None \<Rightarrow> heap s = [] \<and> flag_seek_value (flags s) \<and> \<not> flag_string (flags s) \<and> \<not> flag_done (flags s)
      | Some t \<Rightarrow>
          t < length (heap s) \<and>
          (let ty = jtype (heap s ! t) in
           if flag_done (flags s)
           then \<not> flag_seek_value (flags s) \<and> \<not> flag_string (flags s) \<and> jparent (heap s ! t) = None
           else if flag_string (flags s) then \<not> flag_seek_value (flags s) \<and> (ty = json_string \<or> ty = json_object)
           else if flag_seek_value (flags s) then container ty
           else ty = json_object \<or> numeric ty))"

definition inv1 :: "json_settings \<Rightarrow> string \<Rightarrow> jst \<Rightarrow> bool" where
  "inv1 cfg js s \<longleftrightarrow>
     first_pass s \<and> 0 \<le> ptr s \<and> ptr s \<le> int (length js) \<and> heap_ok s \<and> top_fits s \<and>
     \<not> flag_next (flags s) \<and> \<not> flag_reproc (flags s) \<and>
     (flag_string (flags s) \<longrightarrow> \<not> in_comment s) \<and> (in_comment s \<longrightarrow> enable_comments cfg)"

text \<open>
  An iteration that does not move on to a later character ends a line comment, starts a
  number or ends one.
\<close>

definition in_number :: "jst \<Rightarrow> bool" where
  "in_number s \<longleftrightarrow>
     \<not> flag_seek_value (flags s) \<and> \<not> flag_done (flags s) \<and> \<not> flag_string (flags s) \<and>
     (case s_top s of None \<Rightarrow> False | Some t \<Rightarrow> numeric (jtype (heap s ! t)))"

definition mode_rank :: "jst \<Rightarrow> nat" where
  "mode_rank s =
     (if flag_line_comment (flags s) then 1 else 0) +
     (if flag_seek_value (flags s) \<and> \<not> flag_need_comma (flags s) then 2
      else if in_number s then 1 else 0)"

definition rank1 :: "string \<Rightarrow> jst \<Rightarrow> nat" where
  "rank1 js s = 4 * nat (int (length js) - ptr s) + mode_rank s"

text \<open>The state after a first-pass \<open>new_value\<close>, up to the memory accounts.\<close>

definition link :: "json_node list \<Rightarrow> json_node list" where
  "link h = h[length h - 1 := (h ! (length h - 1))\<lparr>jnext_alloc := Some (length h)\<rparr>]"

definition grown :: "json_type \<Rightarrow> jst \<Rightarrow> jst" where
  "grown ty s =
     s\<lparr>heap := link (heap s) @ [json_calloc ty (s_top s)], s_root := Some 0,
       s_alloc := Some (length (heap s)), s_top := Some (length (heap s))\<rparr>"

lemma length_link [simp]: "length (link h) = length h"
  by (simp add: link_def)

lemma link_nth:
  "i < length h \<Longrightarrow> link h ! i = (if Suc i = length h then (h ! i)\<lparr>jnext_alloc := Some (length h)\<rparr> else h ! i)"
  by (auto simp: link_def nth_list_update)

lemma json_alloc_state:
  "json_alloc cfg n s = (ok, s') \<Longrightarrow> \<exists>u m. s' = s\<lparr>used_memory := u, s_mem := m\<rparr>"
  by (rule exI [of _ "used_memory s'"], rule exI [of _ "s_mem s'"])
     (auto simp: json_alloc_def Let_def split: if_splits prod.splits)

lemma new_value_first:
  assumes "first_pass s" "heap_ok s"
  shows "exits (\<lambda>s'. \<exists>u m. s' = (grown ty s)\<lparr>used_memory := u, s_mem := m\<rparr>) (\<lambda>_. False) (\<lambda>_. False)
           (\<lambda>e. e = Memory_allocation_failure) (new_value cfg ty s)"
proof -
  obtain ok s1 where a: "json_alloc cfg (sizeof_value + value_extra cfg) s = (ok, s1)" by fastforce
  from json_alloc_state [OF this] obtain u m where s1: "s1 = s\<lparr>used_memory := u, s_mem := m\<rparr>" by blast
  show ?thesis
    using assms a unfolding s1
    by (auto simp: new_value_def Let_def heap_ok_def upd_node_def grown_def link_def list_update_append nth_append
          intro!: exI [of _ u] exI [of _ m])
qed

lemma grown_ok:
  assumes "heap_ok s" and "heap s = [] \<longleftrightarrow> s_top s = None"
    and "\<And>t. s_top s = Some t \<Longrightarrow> t < length (heap s) \<and> container (jtype (heap s ! t))"
  shows "heap_ok (grown ty s)"
proof -
  have "node_ok (heap (grown ty s)) i" if "i < Suc (length (heap s))" for i
  proof (cases "i = length (heap s)")
    case True
    with assms(2,3) show ?thesis
      by (cases "s_top s")
         (auto simp: node_ok_def grown_def nth_append link_nth json_calloc_def)
  next
    case False
    with that assms(1) have "node_ok (heap s) i" by (simp add: heap_ok_def)
    with that False show ?thesis
      by (auto simp: node_ok_def grown_def nth_append link_nth split: option.splits if_splits)
  qed
  then show ?thesis by (simp add: heap_ok_def) (simp add: grown_def)
qed

text \<open>Changes to a node that the store's shape does not depend on.\<close>

definition keeps_shape :: "(json_node \<Rightarrow> json_node) \<Rightarrow> bool" where
  "keeps_shape f \<longleftrightarrow>
     (\<forall>n. jparent (f n) = jparent n \<and> jnext_alloc (f n) = jnext_alloc n \<and>
          (jtype (f n) = jtype n \<or> numeric (jtype n) \<and> numeric (jtype (f n))))"

lemma upd_node_ok_at:
  assumes "heap_ok s" "jparent (f (heap s ! t)) = jparent (heap s ! t)"
    "jnext_alloc (f (heap s ! t)) = jnext_alloc (heap s ! t)"
    "jtype (f (heap s ! t)) = jtype (heap s ! t) \<or> numeric (jtype (heap s ! t))"
  shows "heap_ok (upd_node t f s)"
proof -
  let ?h = "(heap s)[t := f (heap s ! t)]"
  have i: "?h ! i = (if i = t \<and> t < length (heap s) then f (heap s ! i) else heap s ! i)" for i
    by (cases "t < length (heap s)") (simp_all add: nth_list_update not_less list_update_beyond)
  have "jparent (?h ! i) = jparent (heap s ! i)" for i using assms(2) by (simp add: i)
  moreover have "jnext_alloc (?h ! i) = jnext_alloc (heap s ! i)" for i using assms(3) by (simp add: i)
  moreover have "container (jtype (?h ! i))" if "container (jtype (heap s ! i))" for i
    using assms(4) that by (auto simp: i)
  ultimately have "node_ok ?h i" if "node_ok (heap s) i" for i
    using that by (simp add: node_ok_def split: option.splits)
  then show ?thesis using assms(1) by (simp add: heap_ok_def upd_node_def)
qed

lemma upd_node_ok: "heap_ok s \<Longrightarrow> keeps_shape f \<Longrightarrow> heap_ok (upd_node t f s)"
  by (rule upd_node_ok_at) (auto simp: keeps_shape_def)

lemma to_double_ok: "heap_ok s \<Longrightarrow> numeric (jtype (heap s ! t)) \<Longrightarrow> heap_ok (upd_node t to_double s)"
  by (rule upd_node_ok_at) (auto simp: to_double_def)

lemma heap_ok_cong:
  "heap s' = heap s \<Longrightarrow> s_alloc s' = s_alloc s \<Longrightarrow> s_root s' = s_root s \<Longrightarrow> heap_ok s' = heap_ok s"
  by (simp add: heap_ok_def)

section \<open>The sections in the first pass\<close>

lemma mode_rank_advance [simp]: "mode_rank (advance k s) = mode_rank s"
  by (simp add: mode_rank_def in_number_def advance_def split: option.splits)

lemma heap_ok_fields [simp]:
  "heap_ok (s\<lparr>s_top := x\<rparr>) = heap_ok s" "heap_ok (s\<lparr>string_length := n\<rparr>) = heap_ok s"
  "heap_ok (s\<lparr>num_digits := n\<rparr>) = heap_ok s" "heap_ok (s\<lparr>num_e := w\<rparr>) = heap_ok s"
  "heap_ok (s\<lparr>num_fraction := w\<rparr>) = heap_ok s" "heap_ok (s\<lparr>cur_line := n, cur_col := n'\<rparr>) = heap_ok s"
  "heap_ok (s\<lparr>used_memory := n, s_mem := m\<rparr>) = heap_ok s" "heap_ok (s\<lparr>ptr := p\<rparr>) = heap_ok s"
  by (simp_all add: heap_ok_def)

lemma heap_ok_upd_flags [simp]: "heap_ok (upd_flags f s) = heap_ok s"
  by (simp add: upd_flags_def heap_ok_def)

lemma heap_ok_advance [simp]: "heap_ok (advance k s) = heap_ok s"
  by (simp add: advance_def heap_ok_def)

lemma upd_node_simps [simp]:
  "flags (upd_node t f s) = flags s" "ptr (upd_node t f s) = ptr s" "s_top (upd_node t f s) = s_top s"
  "first_pass (upd_node t f s) = first_pass s" "length (heap (upd_node t f s)) = length (heap s)"
  "string_length (upd_node t f s) = string_length s"
  by (simp_all add: upd_node_def)

lemma upd_flags_simps [simp]:
  "flags (upd_flags f s) = f (flags s)" "ptr (upd_flags f s) = ptr s" "s_top (upd_flags f s) = s_top s"
  "first_pass (upd_flags f s) = first_pass s" "heap (upd_flags f s) = heap s"
  "string_length (upd_flags f s) = string_length s"
  by (simp_all add: upd_flags_def)

lemma advance_simps [simp]:
  "flags (advance k s) = flags s" "ptr (advance k s) = ptr s + k" "s_top (advance k s) = s_top s"
  "first_pass (advance k s) = first_pass s" "heap (advance k s) = heap s"
  "string_length (advance k s) = string_length s"
  by (simp_all add: advance_def)

lemma advance_0 [simp]: "advance 0 s = s"
  by (simp add: advance_def)

lemma upd_node_nth:
  "t < length (heap s) \<Longrightarrow>
   heap (upd_node t f s) ! i = (if i = t then f (heap s ! t) else heap s ! i)"
  by (simp add: upd_node_def nth_list_update)

definition ended :: "string \<Rightarrow> jst \<Rightarrow> bool" where
  "ended js s \<longleftrightarrow>
     first_pass s \<and> heap_ok s \<and> (\<exists>t. s_top s = Some t \<and> t < length (heap s)) \<and>
     flag_next (flags s) \<and> \<not> flag_reproc (flags s) \<and> \<not> flag_seek_value (flags s) \<and>
     \<not> flag_done (flags s) \<and> \<not> flag_string (flags s) \<and> \<not> in_comment s \<and>
     - 1 \<le> ptr s \<and> ptr s < int (length js)"

lemma section_next_first:
  assumes "ended js s"
  shows "exits (\<lambda>_. False) (\<lambda>s'. inv1 cfg js (advance 1 s') \<and> mode_rank s' = 0 \<and> ptr s' = ptr s)
           (\<lambda>_. False) clean (section_next s)"
proof -
  from assms obtain t where t: "s_top s = Some t" "t < length (heap s)" by (auto simp: ended_def)
  have ok: "heap_ok s" using assms by (simp add: ended_def)
  then have n: "node_ok (heap s) t" using t(2) by (simp add: heap_ok_def)
  show ?thesis
  proof (cases "jparent (heap s ! t)")
    case None
    then show ?thesis using assms t
      by (auto simp: section_next_def ended_def inv1_def top_fits_def mode_rank_def in_number_def)
  next
    case (Some p)
    with n t(2) have p: "p < length (heap s)" "container (jtype (heap s ! p))"
      by (auto simp: node_ok_def)
    show ?thesis using assms t Some p
      by (auto simp: section_next_def attach_def Let_def ended_def inv1_def top_fits_def mode_rank_def
            in_number_def upd_node_nth upd_node_ok keeps_shape_def)
  qed
qed

definition progress :: "json_settings \<Rightarrow> string \<Rightarrow> jst \<Rightarrow> jst \<Rightarrow> bool" where
  "progress cfg js s s' \<longleftrightarrow> inv1 cfg js (advance 1 s') \<and> rank1 js (advance 1 s') < rank1 js s"

lemma mode_rank_le: "mode_rank s \<le> 3"
  by (simp add: mode_rank_def)

lemma rank_lower:
  assumes "ptr s \<le> ptr s'" "ptr s' < int (length js)"
  shows "rank1 js (advance 1 s') < rank1 js s"
proof -
  have "nat (int (length js) - (ptr s' + 1)) + 1 \<le> nat (int (length js) - ptr s)" using assms by linarith
  then show ?thesis using mode_rank_le [of s'] by (simp add: rank1_def)
qed

lemma string_adds_first: "first_pass s \<Longrightarrow> string_adds cs s = Fall (s\<lparr>string_length := string_length s + length cs\<rparr>)"
  by (induction cs arbitrary: s) (simp_all add: string_add_def)

text \<open>How far a section of a string may move: only the position and the length change.\<close>

definition within_string :: "string \<Rightarrow> jst \<Rightarrow> jst \<Rightarrow> bool" where
  "within_string js s s' \<longleftrightarrow>
     (\<exists>k n. s' = (advance k s)\<lparr>string_length := n\<rparr> \<and> 0 \<le> k \<and> ptr s + k < int (length js) \<and> string_length s \<le> n)"

lemma within_stringI:
  "0 \<le> k \<Longrightarrow> ptr s + k < int (length js) \<Longrightarrow> string_length s \<le> n \<Longrightarrow> within_string js s ((advance k s)\<lparr>string_length := n\<rparr>)"
  by (auto simp: within_string_def)

lemma string_unicode_first:
  assumes "first_pass s" "0 \<le> ptr s" "ptr s < int (length js)"
  shows "exits (within_string js s) (\<lambda>_. False) (\<lambda>_. False) clean (string_unicode js s)"
proof (cases "int (length js) - ptr s < 4")
  case False
  have hex: "case read_hex 4 js (ptr s) of Inl e \<Rightarrow> e = Invalid_character_value
      | Inr vs \<Rightarrow> length vs = 4 \<and> ptr s + 4 < int (length js)"
    using read_hex_safe [of "ptr s" 4 js] False assms by (simp split: sum.splits)
  have bs: "case match_chars Invalid_character_value js (ptr s + 4) (CHR 0x5C # ''u'') of
      Some e \<Rightarrow> e = Invalid_character_value | None \<Rightarrow> True" if "\<not> int (length js) - (ptr s + 4) < 6"
    using match_chars_safe [of "ptr s + 4" "CHR 0x5C # ''u''" js Invalid_character_value] that assms
    by (auto split: option.splits)
  have hex2: "case read_hex 4 js (ptr s + 4 + 2) of Inl e \<Rightarrow> e = Invalid_character_value
      | Inr vs \<Rightarrow> length vs = 4 \<and> ptr s + 4 + 6 < int (length js)" if "\<not> int (length js) - (ptr s + 4) < 6"
    using read_hex_safe [of "ptr s + 4 + 2" 4 js] that assms by (simp split: sum.splits)
  have "within_string js s ((advance 6 (advance 4 s))\<lparr>string_length := n\<rparr>)"
    if "ptr s + 4 + 6 < int (length js)" "string_length s \<le> n" for n
    using within_stringI [of 10 s js n] that by (simp add: advance_def algebra_simps)
  moreover have "within_string js s ((advance 4 s)\<lparr>string_length := n\<rparr>)"
    if "ptr s + 4 < int (length js)" "string_length s \<le> n" for n
    using within_stringI [of 4 s js n] that by simp
  ultimately show ?thesis
    using False hex bs hex2 assms
    by (auto simp: string_unicode_def Let_def string_adds_first
          simp del: match_chars.simps split: sum.splits option.splits)
qed (simp add: string_unicode_def)

lemma string_escape_first:
  assumes "first_pass s" "0 \<le> ptr s" "ptr s < int (length js)"
  shows "exits (within_string js s) (\<lambda>_. False) (\<lambda>_. False) clean (string_escape js b s)"
proof -
  have "within_string js s (s\<lparr>string_length := n\<rparr>)" if "string_length s \<le> n" for n
    using within_stringI [of 0 s js n] assms that by (simp add: advance_def)
  then show ?thesis
    using assms string_unicode_first [OF assms] by (simp add: string_escape_def string_add_def)
qed

lemma section_string_first:
  assumes "inv1 cfg js s" "rd js (ptr s) = Some b"
  shows "exits (\<lambda>s'. if flag_string (flags s)
                    then ended js s' \<and> ptr s' = ptr s \<and> b = CHR 0x22 \<and>
                         (\<exists>t. s_top s' = Some t \<and> jtype (heap s' ! t) = json_string)
                    else s' = s)
           (progress cfg js s) (\<lambda>_. False) clean (section_string js b s)"
proof (cases "flag_string (flags s) \<and> b \<noteq> NUL")
  case True
  then have p: "0 \<le> ptr s" "ptr s < int (length js)" using rd_not_nul [OF assms(2)] by auto
  from assms(1) True obtain t where t: "s_top s = Some t" "t < length (heap s)"
    "jtype (heap s ! t) = json_string \<or> jtype (heap s ! t) = json_object"
    "\<not> flag_seek_value (flags s)" "\<not> flag_done (flags s)"
    by (auto simp: inv1_def top_fits_def Let_def split: option.splits if_splits)
  have esc: "progress cfg js s s'" if "within_string js (upd_flags (\<lambda>f. f\<lparr>flag_escaped := e\<rparr>) s) s'" for s' e
    using that assms(1) p rank_lower [of s s' js]
    by (auto simp: within_string_def progress_def inv1_def top_fits_def Let_def split: option.splits if_splits)
  have "exits (progress cfg js s) (progress cfg js s) (\<lambda>_. False) clean
          (string_escape js b (upd_flags (\<lambda>f. f\<lparr>flag_escaped := False\<rparr>) s))"
    by (rule exits_mono [OF string_escape_first]) (use assms(1) p esc in \<open>simp_all add: inv1_def\<close>)
  moreover have "progress cfg js s (upd_flags (\<lambda>f. f\<lparr>flag_escaped := True\<rparr>) s)"
    using within_stringI [of 0 "upd_flags (\<lambda>f. f\<lparr>flag_escaped := True\<rparr>) s" js "string_length s"] p
    by (intro esc) (simp add: advance_def upd_flags_def)
  moreover have "progress cfg js s (s\<lparr>string_length := n\<rparr>)" if "string_length s \<le> n" for n
    using that within_stringI [of 0 "upd_flags (\<lambda>f. f\<lparr>flag_escaped := flag_escaped (flags s)\<rparr>) s" js n] p
    by (intro esc [where e = "flag_escaped (flags s)"]) (simp add: advance_def upd_flags_def)
  moreover have "exits (\<lambda>s'. ended js s' \<and> ptr s' = ptr s \<and>
                         (\<exists>t. s_top s' = Some t \<and> jtype (heap s' ! t) = json_string))
           (progress cfg js s) (\<lambda>_. False) clean (string_close s)"
    using assms(1) p t True rank_lower [of s _ js]
    by (auto simp: string_close_def Let_def ended_def progress_def inv1_def top_fits_def upd_node_nth
          upd_node_ok keeps_shape_def)
  ultimately show ?thesis
    using True assms(1) by (simp add: section_string_def string_add_def inv1_def)
qed (use assms in \<open>auto simp: section_string_def\<close>)

lemma top_fits_cong:
  "s_top s' = s_top s \<Longrightarrow> heap s' = heap s \<Longrightarrow> flag_seek_value (flags s') = flag_seek_value (flags s) \<Longrightarrow>
   flag_string (flags s') = flag_string (flags s) \<Longrightarrow> flag_done (flags s') = flag_done (flags s) \<Longrightarrow>
   top_fits s' = top_fits s"
  by (simp add: top_fits_def split: option.split)

lemma top_fits_advance [simp]: "top_fits (advance k s) = top_fits s"
  by (rule top_fits_cong) simp_all

lemma top_fits_upd_flags [simp]:
  "flag_seek_value (f (flags s)) = flag_seek_value (flags s) \<Longrightarrow>
   flag_string (f (flags s)) = flag_string (flags s) \<Longrightarrow> flag_done (f (flags s)) = flag_done (flags s) \<Longrightarrow>
   top_fits (upd_flags f s) = top_fits s"
  by (rule top_fits_cong) simp_all

lemma progress_stay:
  assumes "inv1 cfg js s" "ptr s \<le> ptr s'" "ptr s' < int (length js)"
    and "first_pass s' = first_pass s" "heap_ok s'" "top_fits s'"
    and "\<not> flag_next (flags s')" "\<not> flag_reproc (flags s')"
    and "flag_string (flags s') \<Longrightarrow> \<not> in_comment s'" "in_comment s' \<Longrightarrow> enable_comments cfg"
  shows "progress cfg js s s'"
  using assms rank_lower [OF assms(2,3)]
  by (simp add: progress_def inv1_def)

lemma comment_open_first:
  assumes "inv1 cfg js s" "rd js (ptr s) = Some (CHR ''/'')" "\<not> flag_string (flags s)" "enable_comments cfg"
  shows "exits (\<lambda>_. False) (progress cfg js s) (\<lambda>_. False) clean (comment_open js s)"
proof -
  have p: "0 \<le> ptr s" "ptr s < int (length js)" using rd_not_nul [OF assms(2)] by auto
  then obtain c where c: "rd js (ptr s + 1) = Some c" using rd_some [of "ptr s + 1" js] by auto
  have fit: "top_fits s" "heap_ok s" using assms(1) by (simp_all add: inv1_def)
  show ?thesis
    using p c assms fit
    by (auto simp: comment_open_def Let_def inv1_def intro!: progress_stay)
qed

lemma section_comments_first:
  assumes "inv1 cfg js s" "rd js (ptr s) = Some b" "\<not> flag_string (flags s)"
  shows "exits (\<lambda>s'. s' = s \<and> \<not> in_comment s) (progress cfg js s) (\<lambda>_. False) clean (section_comments cfg js b s)"
proof (cases "in_comment s")
  case True
  have p: "0 \<le> ptr s" "b \<noteq> NUL \<Longrightarrow> ptr s < int (length js)"
    using rd_not_nul [OF assms(2)] assms(1) by (auto simp: inv1_def)
  have en: "enable_comments cfg" using assms(1) True by (simp add: inv1_def)
  show ?thesis
  proof (cases "flag_line_comment (flags s)")
    case lc: True
    have "progress cfg js s (advance (- 1) (upd_flags (\<lambda>f. f\<lparr>flag_line_comment := False\<rparr>) s))"
      using assms lc
      by (auto simp: progress_def inv1_def rank1_def mode_rank_def in_number_def split: option.splits)
    moreover have "progress cfg js s s" if "b \<noteq> NUL"
      using assms p that en by (intro progress_stay) (auto simp: inv1_def)
    ultimately show ?thesis using lc en by (simp add: section_comments_def)
  next
    case lc: False
    have "rd js (ptr s + 1) = Some (CHR ''/'') \<Longrightarrow> ptr s + 1 < int (length js)"
      using rd_not_nul [of js "ptr s + 1" "CHR ''/''"] by auto
    then have "progress cfg js s (advance 1 (upd_flags (\<lambda>f. f\<lparr>flag_block_comment := False\<rparr>) s))"
      if "rd js (ptr s + 1) = Some (CHR ''/'')"
      using assms lc that by (intro progress_stay) (auto simp: inv1_def)
    moreover have "progress cfg js s s" if "b \<noteq> NUL"
      using assms p that en by (intro progress_stay) (auto simp: inv1_def)
    ultimately show ?thesis using lc en True by (simp add: section_comments_def)
  qed
next
  case False
  show ?thesis
  proof (cases "b = CHR ''/'' \<and> enable_comments cfg")
    case True
    then have "exits (\<lambda>s'. s' = s \<and> \<not> in_comment s) (progress cfg js s) (\<lambda>_. False) clean (comment_open js s)"
      using comment_open_first [of cfg js s] assms by (auto elim!: exits_mono)
    with assms(1) True False show ?thesis
      by (auto simp: section_comments_def inv1_def top_fits_def split: option.splits)
  next
    case F: False
    with assms False show ?thesis by (auto simp: section_comments_def)
  qed
qed

lemma count_line_simps [simp]:
  "flags (count_line b s) = flags s" "ptr (count_line b s) = ptr s" "s_top (count_line b s) = s_top s"
  "first_pass (count_line b s) = first_pass s" "heap (count_line b s) = heap s"
  "heap_ok (count_line b s) = heap_ok s" "top_fits (count_line b s) = top_fits s"
  by (simp_all add: count_line_def top_fits_cong [of "s\<lparr>cur_line := n, cur_col := 0\<rparr>" s for n])

lemma space_first:
  assumes "inv1 cfg js s" "rd js (ptr s) = Some b" "is_ws b"
  shows "progress cfg js s (count_line b s)"
proof -
  have "b \<noteq> NUL" using assms(3) by (auto simp: is_ws_def)
  with assms show ?thesis
    by (intro progress_stay) (auto simp: inv1_def dest: rd_not_nul)
qed

lemma section_done_first:
  assumes "inv1 cfg js s" "rd js (ptr s) = Some b"
  shows "exits (\<lambda>s'. s' = s \<and> \<not> flag_done (flags s)) (progress cfg js s) (\<lambda>s'. s' = s \<and> flag_done (flags s)) clean
           (section_done b s)"
  using space_first [OF assms] by (simp add: section_done_def)

definition section_tail :: "jst \<Rightarrow> ctl" where
  "section_tail s = then_section (section_reproc s) section_next"

lemma tail_ended:
  assumes "ended js s'" "ptr s \<le> ptr s'"
  shows "exits (progress cfg js s) (progress cfg js s) (\<lambda>_. False) clean (section_tail s')"
proof -
  have "exits (progress cfg js s) (progress cfg js s) (\<lambda>_. False) clean (section_next s')"
    by (rule exits_mono [OF section_next_first [OF assms(1)]])
       (use assms in \<open>auto simp: progress_def ended_def intro: rank_lower\<close>)
  with assms(1) show ?thesis by (simp add: section_tail_def section_reproc_def ended_def)
qed

lemma tail_number_end:
  assumes "ended js (advance (- 1) (upd_flags (\<lambda>f. f\<lparr>flag_reproc := False\<rparr>) s'))"
    and "flag_reproc (flags s')" "ptr s' = ptr s" "0 < mode_rank s"
  shows "exits (progress cfg js s) (progress cfg js s) (\<lambda>_. False) clean (section_tail s')"
proof -
  have "exits (progress cfg js s) (progress cfg js s) (\<lambda>_. False) clean
          (section_next (advance (- 1) (upd_flags (\<lambda>f. f\<lparr>flag_reproc := False\<rparr>) s')))"
    by (rule exits_mono [OF section_next_first [OF assms(1)]])
       (use assms(2-) in \<open>auto simp: progress_def rank1_def\<close>)
  with assms(2) show ?thesis by (simp add: section_tail_def section_reproc_def)
qed

lemma seek_close_first:
  assumes "inv1 cfg js s" "rd js (ptr s) = Some (CHR '']'')" "\<not> in_comment s"
    and "s_top s = Some t" "\<not> flag_done (flags s)" "flag_seek_value (flags s)"
  shows "exits (progress cfg js s) (progress cfg js s) (\<lambda>_. False) clean
           (section_tail (upd_flags (\<lambda>f. f\<lparr>flag_need_comma := False, flag_seek_value := False,
                                        flag_next := True\<rparr>) s))"
  using assms rd_not_nul [OF assms(2)]
  by (intro tail_ended) (auto simp: ended_def inv1_def top_fits_def Let_def split: if_splits)

lemma grown_simps [simp]:
  "flags (grown ty s) = flags s" "ptr (grown ty s) = ptr s" "first_pass (grown ty s) = first_pass s"
  "string_length (grown ty s) = string_length s" "s_top (grown ty s) = Some (length (heap s))"
  "length (heap (grown ty s)) = Suc (length (heap s))"
  "n = length (heap s) \<Longrightarrow> jtype (heap (grown ty s) ! n) = ty"
  by (simp_all add: grown_def nth_append json_calloc_def)

lemma new_value_exits:
  assumes "first_pass s" "heap_ok s" "E Memory_allocation_failure"
    and "\<And>u m. F ((grown ty s)\<lparr>used_memory := u, s_mem := m\<rparr>)"
  shows "exits F C B E (new_value cfg ty s)"
  by (rule exits_mono [OF new_value_first [OF assms(1,2)]]) (use assms(3,4) in auto)

text \<open>Seeking a value: before the first one, or below an array or object.\<close>

definition seeking :: "json_settings \<Rightarrow> string \<Rightarrow> jst \<Rightarrow> bool" where
  "seeking cfg js s \<longleftrightarrow>
     inv1 cfg js s \<and> \<not> in_comment s \<and> \<not> flag_done (flags s) \<and> flag_seek_value (flags s)"

abbreviation unseek :: "jst \<Rightarrow> jst" where
  "unseek \<equiv> upd_flags (\<lambda>f. f\<lparr>flag_seek_value := False\<rparr>)"

lemma seeking_grown:
  assumes "seeking cfg js s"
  shows "heap_ok (grown ty (advance k (unseek s)))"
  using assms
  by (intro grown_ok)
     (auto simp: seeking_def inv1_def top_fits_def Let_def split: option.splits if_splits)

lemma seeking_plain:
  assumes "seeking cfg js s"
  shows "first_pass s" "heap_ok s" "\<not> flag_string (flags s)" "\<not> flag_done (flags s)"
    "\<not> flag_next (flags s)" "\<not> flag_reproc (flags s)" "\<not> flag_line_comment (flags s)"
    "\<not> flag_block_comment (flags s)" "flag_seek_value (flags s)"
  using assms by (auto simp: seeking_def inv1_def top_fits_def Let_def split: option.splits if_splits)

lemma seeking_ptr: "seeking cfg js s \<Longrightarrow> 0 \<le> ptr s"
  by (simp add: seeking_def inv1_def)

lemma seek_literal_first:
  assumes "seeking cfg js s" "0 \<le> ptr s" "rest \<noteq> []" "NUL \<notin> set rest"
    and "\<And>u m. ptr s + int (length rest) < int (length js) \<Longrightarrow>
           F ((grown ty (advance (int (length rest)) (unseek s)))\<lparr>used_memory := u, s_mem := m\<rparr>)"
  shows "exits F C B clean (seek_literal cfg js rest ty (unseek s))"
proof (cases "int (length js) - ptr s < int (length rest)")
  case False
  then have "case match_chars Unknown_value js (ptr s) rest of Some e \<Rightarrow> e = Unknown_value
      | None \<Rightarrow> ptr s + int (length rest) < int (length js)"
    using match_chars_safe [of "ptr s" rest js Unknown_value] assms(2-4) by (auto split: option.splits)
  moreover have "exits F C B clean (new_value cfg ty (advance (int (length rest)) (unseek s)))"
    if "ptr s + int (length rest) < int (length js)"
    by (rule new_value_exits) (use seeking_plain [OF assms(1)] assms(5) [OF that] in simp_all)
  ultimately show ?thesis
    using False by (auto simp: seek_literal_def split: option.splits)
qed (simp add: seek_literal_def)

lemma upd_node_id: "upd_node i id s = s"
  by (simp add: upd_node_def)

lemma literal_ended:
  assumes "seeking cfg js s" "0 \<le> k" "ptr s + k < int (length js)"
    and "keeps_shape f"
  shows "ended js (upd_flags (\<lambda>f. f\<lparr>flag_next := True\<rparr>)
           (upd_node (length (heap s)) f ((grown ty (advance k (unseek s)))\<lparr>used_memory := u, s_mem := m\<rparr>)))"
  using assms(2-) seeking_grown [OF assms(1), of ty k] seeking_ptr [OF assms(1)] seeking_plain [OF assms(1)]
  by (auto simp: ended_def upd_node_ok)

text \<open>The first pass starts a number: at a sign it moves on, at a digit it stays.\<close>

definition number_node :: "jst \<Rightarrow> nat \<Rightarrow> mem \<Rightarrow> jst" where
  "number_node s u m =
     upd_flags (\<lambda>f. f\<lparr>flag_num_negative := False, flag_num_e := False, flag_num_e_got_sign := False,
                     flag_num_e_negative := False, flag_num_zero := False\<rparr>)
       ((grown json_integer (unseek s))\<lparr>used_memory := u, s_mem := m, num_digits := 0,
          num_fraction := 0, num_e := 0\<rparr>)"

lemma number_started:
  assumes "seeking cfg js s" "ptr s < int (length js)" "\<not> flag_need_comma (flags s)"
  shows "progress cfg js s (upd_flags (\<lambda>f. f\<lparr>flag_num_negative := True\<rparr>) (number_node s u m))"
    and "exits (progress cfg js s) (progress cfg js s) (\<lambda>_. False) clean
           (section_tail (upd_flags (\<lambda>f. f\<lparr>flag_reproc := True\<rparr>) (number_node s u m)))"
proof -
  have inv: "inv1 cfg js s" using assms(1) by (simp add: seeking_def)
  have ok: "heap_ok (grown ty (unseek s))" for ty
    using seeking_grown [OF assms(1), of ty 0] by simp
  note plain = seeking_plain [OF assms(1)] seeking_ptr [OF assms(1)]
  show "progress cfg js s (upd_flags (\<lambda>f. f\<lparr>flag_num_negative := True\<rparr>) (number_node s u m))"
    by (rule progress_stay [OF inv])
       (use plain ok assms(2) in \<open>simp_all add: number_node_def top_fits_def Let_def\<close>)
  show "exits (progress cfg js s) (progress cfg js s) (\<lambda>_. False) clean
           (section_tail (upd_flags (\<lambda>f. f\<lparr>flag_reproc := True\<rparr>) (number_node s u m)))"
    using plain ok assms(2,3)
    by (simp add: section_tail_def section_reproc_def section_next_def number_node_def progress_def
          inv1_def top_fits_def Let_def rank1_def mode_rank_def in_number_def)
qed

lemma seek_start_first:
  assumes "seeking cfg js s" "rd js (ptr s) = Some b" "\<not> flag_need_comma (flags s)"
  shows "exits (\<lambda>s'. exits (progress cfg js s) (progress cfg js s) (\<lambda>_. False) clean (section_tail s'))
           (progress cfg js s) (\<lambda>_. False) clean (seek_start cfg js b (unseek s))"
proof (cases "b = NUL")
  case False
  then have p: "0 \<le> ptr s" "ptr s < int (length js)" using rd_not_nul [OF assms(2)] by auto
  let ?P = "progress cfg js s"
  let ?T = "\<lambda>s'. exits ?P ?P (\<lambda>_. False) clean (section_tail s')"
  let ?g = "\<lambda>ty u m. (grown ty (unseek s))\<lparr>used_memory := u, s_mem := m\<rparr>"
  have ok: "heap_ok (grown ty (unseek s))" for ty
    using seeking_grown [OF assms(1), of ty 0] by simp
  have inv: "inv1 cfg js s" using assms(1) by (simp add: seeking_def)
  have new: "exits F C B clean (new_value cfg ty (unseek s))" if "\<And>u m. F (?g ty u m)" for F C B ty
    by (rule new_value_exits) (use seeking_plain [OF assms(1)] that in simp_all)
  have obj: "?P (?g json_object u m)" for u m
    by (rule progress_stay [OF inv]) (use seeking_plain [OF assms(1)] p ok in \<open>simp_all add: top_fits_def Let_def\<close>)
  have arr: "?P (upd_flags (\<lambda>f. f\<lparr>flag_seek_value := True\<rparr>) (?g json_array u m))" for u m
    by (rule progress_stay [OF inv]) (use seeking_plain [OF assms(1)] p ok in \<open>simp_all add: top_fits_def Let_def\<close>)
  have str: "?P (upd_flags (\<lambda>f. f\<lparr>flag_string := True\<rparr>) ((?g json_string u m)\<lparr>string_length := 0\<rparr>))" for u m
    by (rule progress_stay [OF inv]) (use seeking_plain [OF assms(1)] p ok in \<open>simp_all add: top_fits_def Let_def\<close>)
  have lit: "exits ?T ?P (\<lambda>_. False) clean (then_section (seek_literal cfg js rest ty (unseek s)) mark_next)"
    if "rest \<noteq> []" "NUL \<notin> set rest" for rest ty
    using tail_ended [where s = s and cfg = cfg, OF literal_ended [where f = id, OF assms(1)]] p
    by (auto simp: mark_next_def upd_node_id keeps_shape_def intro!: seek_literal_first [OF assms(1) p(1) that])
  have tr: "exits ?T ?P (\<lambda>_. False) clean
      (then_section (then_section (seek_literal cfg js ''rue'' json_boolean (unseek s)) set_boolean) mark_next)"
    using tail_ended [where s = s and cfg = cfg,
        OF literal_ended [where k = 3 and f = "\<lambda>n. n\<lparr>jboolean := True\<rparr>", OF assms(1)]] p
    by (auto simp: mark_next_def set_boolean_def keeps_shape_def intro!: seek_literal_first [OF assms(1) p(1)])
  have num: "exits ?T ?P (\<lambda>_. False) clean (seek_number cfg js b (unseek s))"
    using number_started [OF assms(1) p(2) assms(3)] seeking_plain(1) [OF assms(1)]
    by (auto simp: seek_number_def Let_def number_node_def intro!: new)
  show ?thesis
    using new obj arr str lit [of "''alse''"] lit [of "''ull''"] tr num by (simp add: seek_start_def)
qed (simp add: seek_start_def isdigit_def)

lemma tail_plain: "\<not> flag_next (flags s) \<Longrightarrow> \<not> flag_reproc (flags s) \<Longrightarrow> section_tail s = Fall s"
  by (simp add: section_tail_def section_reproc_def section_next_def)

lemma section_seek_first:
  assumes "seeking cfg js s" "rd js (ptr s) = Some b"
  shows "exits (\<lambda>s'. exits (progress cfg js s) (progress cfg js s) (\<lambda>_. False) clean (section_tail s'))
           (progress cfg js s) (\<lambda>_. False) clean (section_seek cfg js b s)"
proof -
  have inv: "inv1 cfg js s" using assms(1) by (simp add: seeking_def)
  have p: "ptr s < int (length js)" if "b \<noteq> NUL" using rd_not_nul [OF assms(2) that] by simp
  have close: "exits (progress cfg js s) (progress cfg js s) (\<lambda>_. False) clean
           (section_tail (upd_flags (\<lambda>f. f\<lparr>flag_need_comma := False, flag_seek_value := False,
                                        flag_next := True\<rparr>) s))"
    if "b = CHR '']''" "s_top s = Some t" for t
    by (rule seek_close_first [OF inv]) (use assms that in \<open>auto simp: seeking_def\<close>)
  have comma: "progress cfg js s (upd_flags (\<lambda>f. f\<lparr>flag_need_comma := False\<rparr>) s)" if "b \<noteq> NUL"
    by (rule progress_stay [OF inv]) (use seeking_plain [OF assms(1)] p [OF that] inv in \<open>simp_all add: inv1_def\<close>)
  have colon: "progress cfg js s (upd_flags (\<lambda>f. f\<lparr>flag_need_colon := False\<rparr>) s)" if "b \<noteq> NUL"
    by (rule progress_stay [OF inv]) (use seeking_plain [OF assms(1)] p [OF that] inv in \<open>simp_all add: inv1_def\<close>)
  show ?thesis
    using space_first [OF inv assms(2)] close comma colon seek_start_first [OF assms]
    by (simp add: section_seek_def split: option.split)
qed

text \<open>Inside an object or a number.\<close>

definition inside :: "json_settings \<Rightarrow> string \<Rightarrow> nat \<Rightarrow> jst \<Rightarrow> bool" where
  "inside cfg js t s \<longleftrightarrow>
     inv1 cfg js s \<and> \<not> in_comment s \<and> \<not> flag_done (flags s) \<and> \<not> flag_string (flags s) \<and>
     \<not> flag_seek_value (flags s) \<and> s_top s = Some t"

lemma inside_plain:
  assumes "inside cfg js t s"
  shows "first_pass s" "heap_ok s" "\<not> flag_string (flags s)" "\<not> flag_done (flags s)"
    "\<not> flag_next (flags s)" "\<not> flag_reproc (flags s)" "\<not> flag_line_comment (flags s)"
    "\<not> flag_block_comment (flags s)" "\<not> flag_seek_value (flags s)" "s_top s = Some t"
    "t < length (heap s)" "jtype (heap s ! t) = json_object \<or> numeric (jtype (heap s ! t))"
    "0 \<le> ptr s" "ptr s \<le> int (length js)"
  using assms by (auto simp: inside_def inv1_def top_fits_def Let_def)

lemma section_object_first:
  assumes "inside cfg js t s" "rd js (ptr s) = Some b" "jtype (heap s ! t) = json_object"
  shows "exits (\<lambda>s'. exits (progress cfg js s) (progress cfg js s) (\<lambda>_. False) clean (section_tail s'))
           (progress cfg js s) (\<lambda>_. False) clean (section_object b s)"
proof -
  have inv: "inv1 cfg js s" using assms(1) by (simp add: inside_def)
  note plain = inside_plain [OF assms(1)]
  have p: "ptr s < int (length js)" if "b \<noteq> NUL" using rd_not_nul [OF assms(2) that] by simp
  have quote: "progress cfg js s (upd_flags (\<lambda>f. f\<lparr>flag_string := True\<rparr>) (s\<lparr>string_length := 0\<rparr>))" if "b \<noteq> NUL"
    by (rule progress_stay [OF inv]) (use plain p [OF that] assms(3) in \<open>simp_all add: top_fits_def\<close>)
  have comma: "progress cfg js s (upd_flags (\<lambda>f. f\<lparr>flag_need_comma := False\<rparr>) s)" if "b \<noteq> NUL"
    by (rule progress_stay [OF inv]) (use plain p [OF that] assms(3) in \<open>simp_all add: top_fits_def\<close>)
  have close: "exits (progress cfg js s) (progress cfg js s) (\<lambda>_. False) clean
      (section_tail (upd_flags (\<lambda>f. f\<lparr>flag_need_comma := False, flag_next := True\<rparr>) s))" if "b \<noteq> NUL"
    by (rule tail_ended) (use plain p [OF that] in \<open>simp_all add: ended_def\<close>)
  show ?thesis
    using space_first [OF inv assms(2)] quote comma close plain by (simp add: section_object_def tail_plain)
qed

lemma number_end_first:
  assumes "inside cfg js t s" "numeric (jtype (heap s ! t))"
    and "s' = upd_node t f s" "keeps_shape f"
  shows "exits (\<lambda>s''. exits (progress cfg js s) (progress cfg js s) (\<lambda>_. False) clean (section_tail s''))
           (progress cfg js s) (\<lambda>_. False) clean (number_end t s')"
proof -
  note plain = inside_plain [OF assms(1)]
  have rank: "0 < mode_rank s" using plain assms(2) by (auto simp: mode_rank_def in_number_def)
  have ks: "keeps_shape (\<lambda>n. if jtype n = json_integer then n\<lparr>jinteger := - jinteger n\<rparr> else n\<lparr>jdbl := dneg (jdbl n)\<rparr>)"
    by (simp add: keeps_shape_def)
  have "exits (progress cfg js s) (progress cfg js s) (\<lambda>_. False) clean
      (section_tail (upd_flags (\<lambda>f. f\<lparr>flag_next := True, flag_reproc := True\<rparr>) x))"
    if "heap_ok x" "flags x = flags s" "ptr x = ptr s" "s_top x = Some t" "length (heap x) = length (heap s)"
      "first_pass x" for x
    by (rule tail_number_end) (use plain that rank in \<open>simp_all add: ended_def\<close>)
  with plain assms(3,4) ks show ?thesis
    by (simp add: number_end_def Let_def upd_node_ok)
qed

lemma number_move:
  assumes "inside cfg js t s" "ptr s < int (length js)"
    and "heap_ok s'" "ptr s' = ptr s" "first_pass s'" "s_top s' = Some t" "length (heap s') = length (heap s)"
    and "numeric (jtype (heap s' ! t))"
    and "flag_string (flags s') = flag_string (flags s)" "flag_done (flags s') = flag_done (flags s)"
      "flag_seek_value (flags s') = flag_seek_value (flags s)" "flag_next (flags s') = flag_next (flags s)"
      "flag_reproc (flags s') = flag_reproc (flags s)"
      "flag_line_comment (flags s') = flag_line_comment (flags s)"
      "flag_block_comment (flags s') = flag_block_comment (flags s)"
  shows "progress cfg js s s'"
proof (rule progress_stay)
  show "inv1 cfg js s" using assms(1) by (simp add: inside_def)
qed (use inside_plain [OF assms(1)] assms(2-) in \<open>simp_all add: top_fits_def\<close>)

lemma section_number_first:
  assumes "inside cfg js t s" "rd js (ptr s) = Some b" "numeric (jtype (heap s ! t))"
  shows "exits (\<lambda>s'. exits (progress cfg js s) (progress cfg js s) (\<lambda>_. False) clean (section_tail s'))
           (progress cfg js s) (\<lambda>_. False) clean (section_number t b s)"
proof -
  let ?P = "progress cfg js s"
  let ?T = "\<lambda>s'. exits ?P ?P (\<lambda>_. False) clean (section_tail s')"
  note plain = inside_plain [OF assms(1)]
  have p: "ptr s < int (length js)" if "b \<noteq> NUL" using rd_not_nul [OF assms(2) that] by simp
  have kd: "keeps_shape (\<lambda>n. n\<lparr>jinteger := g n\<rparr>)" "keeps_shape (\<lambda>n. n\<lparr>jdbl := h n\<rparr>)" for g h
    by (simp_all add: keeps_shape_def)
  have digit: "exits ?T ?P (\<lambda>_. False) clean (number_digit t b s)" if "isdigit b"
  proof -
    have "b \<noteq> NUL" using that by (auto simp: isdigit_def)
    from number_move [OF assms(1) p [OF this]] plain assms(3) kd show ?thesis
      by (auto simp: number_digit_def Let_def upd_node_ok upd_node_nth)
  qed
  have sign: "?P (upd_flags (\<lambda>f. f\<lparr>flag_num_e_got_sign := True,
                      flag_num_e_negative := flag_num_e_negative f \<or> b = CHR ''-''\<rparr>) s)" if "b \<noteq> NUL"
    using number_move [OF assms(1) p [OF that]] plain assms(3) by simp
  have dot: "?P (upd_node t to_double (s\<lparr>num_digits := 0\<rparr>))" if "b \<noteq> NUL"
    using number_move [OF assms(1) p [OF that(1)]] plain assms(3)
    by (auto simp: upd_node_nth to_double_ok to_double_def)
  have expo: "exits ?T ?P (\<lambda>_. False) clean (number_exponent_end t s)"
    using number_end_first [OF assms(1,3) refl] kd by (simp add: number_exponent_end_def)
  have mant: "exits ?T ?P (\<lambda>_. False) clean (number_mantissa_end t b s)"
  proof -
    let ?g = "\<lambda>f. f\<lparr>flag_num_e := True, flag_num_zero := False\<rparr>"
    have e: "?P (upd_flags ?g (x\<lparr>num_digits := 0\<rparr>))"
      if "b = CHR ''e'' \<or> b = CHR ''E''" "heap_ok x" "ptr x = ptr s" "first_pass x" "s_top x = Some t"
        "length (heap x) = length (heap s)" "numeric (jtype (heap x ! t))" "flags x = flags s" for x
      using that plain p by (intro number_move [OF assms(1)]) auto
    show ?thesis
      using e number_end_first [OF assms(1,3) refl] number_end_first [where f = id, OF assms(1,3)] kd plain assms(3)
      by (auto simp: number_mantissa_end_def upd_node_ok upd_node_nth upd_node_id to_double_ok keeps_shape_def
            to_double_def)
  qed
  show ?thesis
    using digit sign dot expo mant by (auto simp: section_number_def Let_def)
qed

section \<open>The first pass\<close>

lemma json_body_tail:
  "json_body cfg js s =
     (case rd js (ptr s) of
        None \<Rightarrow> Failed Out_of_bounds_read s
      | Some b \<Rightarrow>
          then_section (section_string js b s) (\<lambda>s.
          then_section (section_comments cfg js b s) (\<lambda>s.
          then_section (section_done b s) (\<lambda>s.
          then_section (if flag_seek_value (flags s) then section_seek cfg js b s else section_inside b s)
            section_tail))))"
proof -
  have "section_tail = (\<lambda>s. then_section (section_reproc s) section_next)"
    by (rule ext) (rule section_tail_def)
  then show ?thesis unfolding json_body_def by (rule ssubst) (rule refl)
qed

lemma string_ended_tail:
  assumes "ended js s'" "ptr s' = ptr s" "s_top s' = Some t" "jtype (heap s' ! t) = json_string"
  shows "exits (progress cfg js s) (progress cfg js s) B clean
           (then_section (section_comments cfg js (CHR 0x22) s') (\<lambda>s.
            then_section (section_done (CHR 0x22) s) (\<lambda>s.
            then_section (if flag_seek_value (flags s) then section_seek cfg js (CHR 0x22) s
                          else section_inside (CHR 0x22) s) section_tail)))"
proof -
  have "exits (progress cfg js s) (progress cfg js s) B clean (section_tail s')"
    by (rule exits_mono [OF tail_ended [OF assms(1)]]) (use assms(2) in auto)
  with assms show ?thesis
    by (auto simp: section_comments_def section_done_def section_inside_def ended_def)
qed

lemma json_body_first:
  assumes "inv1 cfg js s"
  shows "exits (progress cfg js s) (progress cfg js s) (\<lambda>s'. s' = s \<and> flag_done (flags s)) clean (json_body cfg js s)"
proof -
  let ?P = "progress cfg js s" and ?B = "\<lambda>s'. s' = s \<and> flag_done (flags s)"
  obtain b where b: "rd js (ptr s) = Some b"
    using rd_some [of "ptr s" js] assms by (auto simp: inv1_def)
  have vals: "exits ?P ?P ?B clean
      (then_section (if flag_seek_value (flags s) then section_seek cfg js b s else section_inside b s) section_tail)"
    if out: "\<not> in_comment s" "\<not> flag_done (flags s)" "\<not> flag_string (flags s)"
  proof (cases "flag_seek_value (flags s)")
    case True
    then have "seeking cfg js s" using assms out by (simp add: seeking_def)
    from section_seek_first [OF this b] show ?thesis using True by (auto elim!: exits_mono)
  next
    case False
    then have "s_top s \<noteq> None" using assms by (auto simp: inv1_def top_fits_def split: option.splits)
    with False obtain t where t: "inside cfg js t s"
      using assms out by (auto simp: inside_def)
    from inside_plain [OF this] section_object_first [OF t b] section_number_first [OF t b] False
    show ?thesis by (auto simp: section_inside_def elim!: exits_mono)
  qed
  have rest: "exits ?P ?P ?B clean
      (then_section (section_comments cfg js b s) (\<lambda>s.
       then_section (section_done b s) (\<lambda>s.
       then_section (if flag_seek_value (flags s) then section_seek cfg js b s else section_inside b s)
         section_tail)))" if no: "\<not> flag_string (flags s)"
  proof -
    have "exits (\<lambda>x. exits ?P ?P ?B clean (then_section (if flag_seek_value (flags x) then section_seek cfg js b x
        else section_inside b x) section_tail)) ?P ?B clean (section_done b s)" if "\<not> in_comment s"
      by (rule exits_mono [OF section_done_first [OF assms b]]) (use vals that no in auto)
    then show ?thesis
      unfolding exits_then by (intro exits_mono [OF section_comments_first [OF assms b no]]) auto
  qed
  show ?thesis
  proof (cases "flag_string (flags s)")
    case True
    show ?thesis unfolding json_body_tail b option.case exits_then [of _ _ _ _ "section_string js b s"]
      by (rule exits_mono [OF section_string_first [OF assms b]])
         (use True in \<open>auto simp del: exits_then exits_if intro: string_ended_tail\<close>)
  next
    case False
    with rest show ?thesis by (simp add: json_body_tail b section_string_def)
  qed
qed

interpretation first: loop_body cfg js "inv1 cfg js" "rank1 js" "\<lambda>s. inv1 cfg js s \<and> flag_done (flags s)" clean
  for cfg js
  by unfold_locales
     (use json_body_first in \<open>fastforce simp: progress_def elim!: exits_mono\<close>)

lemma pass1_inv: "inv1 cfg js (pass1_init m)"
  by (simp add: inv1_def pass1_init_def heap_ok_def top_fits_def flags_seek_def)

text \<open>The first pass ends within the fuel, without an error of its own making.\<close>

lemma pass1_ends:
  "exits (\<lambda>_. False) (\<lambda>_. False) (\<lambda>s. inv1 cfg js s \<and> flag_done (flags s)) clean
     (json_loop cfg js (json_fuel js) (pass1_init m))"
proof (rule first.loop_ends [OF pass1_inv])
  show "rank1 js (pass1_init m) < json_fuel js"
    using mode_rank_le [of "pass1_init m"] by (simp add: rank1_def json_fuel_def pass1_init_def)
qed

end
