(* ===== verification/Json_Passes.thy ===== *)
theory Json_Passes
  imports Json_Facts
begin

text \<open>
  The second pass repeats the first. The first pass only counts: how many members an array or
  object has, how many bytes a string or the names of an object need. The second pass allocates
  its buffers from the final counts. Shown is that the counts of a running first pass never
  exceed the final ones (\<open>fits\<close>), and that the second pass simulates the first (\<open>sim\<close>): it
  visits the same nodes in the same order and never writes outside a buffer. A number, which
  the first pass reads character by character, is skipped by the second in one step.
\<close>

section \<open>What a node still gets\<close>

definition child :: "json_node list \<Rightarrow> (nat \<times> nat) set" where
  "child h = {(i, t). t < length h \<and> jparent (h ! t) = Some i}"

definition below :: "json_node list \<Rightarrow> nat \<Rightarrow> nat \<Rightarrow> bool" where
  "below h i t \<longleftrightarrow> (i, t) \<in> (child h)\<^sup>+"

text \<open>
  A node gets one more member when the value the parser is working on is below it, or when it
  is an object whose name is being read or whose value is sought.
\<close>

definition pending :: "jst \<Rightarrow> nat \<Rightarrow> bool" where
  "pending s i \<longleftrightarrow>
     (case s_top s of
        None \<Rightarrow> False
      | Some t \<Rightarrow> below (heap s) i t \<or>
          i = t \<and> jtype (heap s ! t) = json_object \<and> (flag_string (flags s) \<or> flag_seek_value (flags s)))"

definition size_now :: "jst \<Rightarrow> nat \<Rightarrow> nat" where
  "size_now s i =
     (if jtype (heap s ! i) = json_string
      then (if flag_string (flags s) \<and> s_top s = Some i then string_length s else jlength (heap s ! i))
      else jlength (heap s ! i) + of_bool (pending s i))"

definition names_now :: "jst \<Rightarrow> nat \<Rightarrow> nat" where
  "names_now s i =
     jnames_size (heap s ! i) +
     (if flag_string (flags s) \<and> s_top s = Some i \<and> jtype (heap s ! i) = json_object
      then string_length s + 1 else 0)"

text \<open>From one state of the first pass to a later one.\<close>

definition node_grows :: "jst \<Rightarrow> jst \<Rightarrow> nat \<Rightarrow> bool" where
  "node_grows s s' i \<longleftrightarrow>
     jparent (heap s' ! i) = jparent (heap s ! i) \<and>
     (jtype (heap s' ! i) = jtype (heap s ! i) \<or> numeric (jtype (heap s' ! i)) \<and> numeric (jtype (heap s ! i))) \<and>
     size_now s i \<le> size_now s' i \<and> names_now s i \<le> names_now s' i"

definition grows :: "jst \<Rightarrow> jst \<Rightarrow> bool" where
  "grows s s' \<longleftrightarrow> length (heap s) \<le> length (heap s') \<and> (\<forall>i < length (heap s). node_grows s s' i)"

lemma grows_refl: "grows s s"
  by (simp add: grows_def node_grows_def)

lemma node_grows_trans: "node_grows s s' i \<Longrightarrow> node_grows s' s'' i \<Longrightarrow> node_grows s s'' i"
  by (auto simp: node_grows_def)

lemma grows_trans:
  assumes "grows s s'" "grows s' s''"
  shows "grows s s''"
proof -
  have "node_grows s s'' i" if "i < length (heap s)" for i
    using assms that by (intro node_grows_trans [of s s' i s'']) (simp_all add: grows_def)
  with assms show ?thesis by (simp add: grows_def)
qed

lemma below_cong:
  assumes "length h' = length h" "\<And>t. t < length h \<Longrightarrow> jparent (h' ! t) = jparent (h ! t)"
  shows "below h' = below h"
proof -
  have "child h' = child h" using assms by (auto simp: child_def)
  then show ?thesis by (simp add: below_def fun_eq_iff)
qed

lemma pending_cong:
  assumes "heap s' = heap s" "s_top s' = s_top s" "flag_string (flags s') = flag_string (flags s)"
    "flag_seek_value (flags s') = flag_seek_value (flags s)"
  shows "pending s' i = pending s i"
  using assms by (simp add: pending_def split: option.split)

lemma grows_key:
  assumes "heap s' = heap s" "s_top s' = s_top s" "flag_string (flags s') = flag_string (flags s)"
    "flag_seek_value (flags s') = flag_seek_value (flags s)" "string_length s \<le> string_length s'"
  shows "grows s s'"
  using assms pending_cong [OF assms(1-4)] by (simp add: grows_def node_grows_def size_now_def names_now_def)

text \<open>The nodes of a well-formed store lie below nodes allocated before them.\<close>

lemma below_less:
  assumes "heap_ok s" "below (heap s) i t"
  shows "i < t \<and> t < length (heap s)"
  using assms(2) unfolding below_def
proof (induction rule: trancl_induct)
  case (base t)
  then have "node_ok (heap s) t" "jparent (heap s ! t) = Some i" "t < length (heap s)"
    using assms(1) by (auto simp: child_def heap_ok_def)
  then show ?case by (simp add: node_ok_def)
next
  case (step t u)
  then have "node_ok (heap s) u" "jparent (heap s ! u) = Some t" "u < length (heap s)"
    using assms(1) by (auto simp: child_def heap_ok_def)
  then have "t < u" by (simp add: node_ok_def)
  with step.IH \<open>u < length (heap s)\<close> show ?case by simp
qed

lemma below_parent:
  assumes "t < length h" "jparent (h ! t) = Some p"
  shows "below h i t \<longleftrightarrow> i = p \<or> below h i p"
proof
  assume "below h i t"
  then show "i = p \<or> below h i p"
    unfolding below_def using assms by (cases rule: tranclE) (auto simp: child_def)
next
  have "(p, t) \<in> child h" using assms by (simp add: child_def)
  then show "i = p \<or> below h i p \<Longrightarrow> below h i t"
    unfolding below_def by (auto intro: trancl_into_trancl)
qed

lemma below_root: "jparent (h ! t) = None \<Longrightarrow> \<not> below h i t"
  unfolding below_def by (auto elim: tranclE simp: child_def)

lemma below_grown:
  assumes "heap_ok s" "\<And>t. s_top s = Some t \<Longrightarrow> t < length (heap s)"
  shows "below (heap (grown ty s)) i t \<longleftrightarrow>
    (if t = length (heap s) then (\<exists>p. s_top s = Some p \<and> (i = p \<or> below (heap s) i p)) else below (heap s) i t)"
proof -
  let ?h = "heap s" and ?n = "length (heap s)"
  have c: "child (heap (grown ty s)) = (case s_top s of None \<Rightarrow> child ?h | Some p \<Rightarrow> insert (p, ?n) (child ?h))"
    by (auto simp: child_def grown_def nth_append link_nth json_calloc_def less_Suc_eq split: option.splits if_splits)
  have none: "(?n, b) \<in> (child ?h)\<^sup>* \<longleftrightarrow> b = ?n" for b
  proof
    assume "(?n, b) \<in> (child ?h)\<^sup>*"
    then show "b = ?n"
      using below_less [OF assms(1), of ?n b] by (auto simp: below_def rtrancl_eq_or_trancl)
  qed simp
  have top: "\<not> (i, ?n) \<in> (child ?h)\<^sup>+"
    using below_less [OF assms(1), of i ?n] by (auto simp: below_def)
  show ?thesis
    using none top unfolding below_def c
    by (auto simp: trancl_insert rtrancl_eq_or_trancl split: option.split)
qed

section \<open>The counts grow\<close>

lemma grown_nth:
  "i < length (heap s) \<Longrightarrow>
   jparent (heap (grown ty s) ! i) = jparent (heap s ! i) \<and> jtype (heap (grown ty s) ! i) = jtype (heap s ! i) \<and>
   jlength (heap (grown ty s) ! i) = jlength (heap s ! i) \<and> jnames_size (heap (grown ty s) ! i) = jnames_size (heap s ! i)"
  by (simp add: grown_def nth_append link_nth)

lemma grows_new:
  assumes "heap_ok s" "\<And>t. s_top s = Some t \<Longrightarrow> t < length (heap s)" "\<not> flag_string (flags s)"
    and "heap s' = heap (grown ty s)" "s_top s' = Some (length (heap s))"
  shows "grows s s'"
proof -
  have "node_grows s s' i" if i: "i < length (heap s)" for i
  proof -
    have "pending s i \<Longrightarrow> pending s' i"
      using assms by (auto simp: pending_def below_grown split: option.splits)
    then show ?thesis
      using grown_nth [OF i, of ty] assms(3-5) i
      by (auto simp: node_grows_def size_now_def names_now_def)
  qed
  then show ?thesis using assms(4) by (simp add: grows_def)
qed

lemma below_upd_node: "keeps_shape f \<Longrightarrow> below (heap (upd_node t f s)) = below (heap s)"
proof (rule below_cong)
  show "jparent (heap (upd_node t f s) ! i) = jparent (heap s ! i)" if "keeps_shape f" "i < length (heap s)" for i
    using that by (cases "i = t") (simp_all add: upd_node_def keeps_shape_def)
qed simp

text \<open>The value at \<open>top\<close> is finished: its parent has one more member.\<close>

lemma grows_finish:
  assumes "heap_ok s" "s_top s = Some t" "t < length (heap s)" "jparent (heap s ! t) = Some p"
    and "\<not> flag_string (flags s)" "\<not> flag_seek_value (flags s)" "\<not> flag_string (flags s')"
    and "heap s' = heap (upd_node p (\<lambda>n. n\<lparr>jlength := jlength n + 1\<rparr>) s)" "s_top s' = Some p"
  shows "grows s s'"
proof -
  have p: "p < t" "container (jtype (heap s ! p))"
    using assms(1,3,4) by (auto simp: heap_ok_def node_ok_def)
  have b: "below (heap s') = below (heap s)"
    using assms(8) by (simp add: below_upd_node keeps_shape_def)
  have nth: "heap s' ! i = (if i = p then (heap s ! p)\<lparr>jlength := jlength (heap s ! p) + 1\<rparr> else heap s ! i)" for i
    using assms(3,8) p by (simp add: upd_node_nth)
  have "node_grows s s' i" for i
  proof -
    have "pending s i \<Longrightarrow> i \<noteq> p \<Longrightarrow> pending s' i"
      using assms(2,5,6,9) below_parent [OF assms(3,4), of i] by (simp add: pending_def b)
    then show ?thesis
      using assms(5,7) p by (auto simp: node_grows_def size_now_def names_now_def nth)
  qed
  then show ?thesis using assms(8) by (simp add: grows_def)
qed

lemma grows_close_value:
  assumes "s_top s = Some t" "t < length (heap s)" "jtype (heap s ! t) = json_string"
    "flag_string (flags s)" "\<not> flag_seek_value (flags s)"
    and "heap s' = heap (upd_node t (\<lambda>n. n\<lparr>jlength := string_length s\<rparr>) s)" "s_top s' = Some t"
      "\<not> flag_string (flags s')" "\<not> flag_seek_value (flags s')"
  shows "grows s s'"
proof -
  have b: "below (heap s') = below (heap s)"
    using assms(6) by (simp add: below_upd_node keeps_shape_def)
  have nth: "heap s' ! i = (if i = t then (heap s ! t)\<lparr>jlength := string_length s\<rparr> else heap s ! i)" for i
    using assms(2,6) by (simp add: upd_node_nth)
  have "pending s i = pending s' i" for i
    using assms(1-5,7-) by (auto simp: pending_def b nth)
  moreover have "length (heap s') = length (heap s)" using assms(6) by simp
  ultimately show ?thesis
    using assms(1-5,7-) by (auto simp: grows_def node_grows_def size_now_def names_now_def nth)
qed

lemma grows_close_name:
  assumes "s_top s = Some t" "t < length (heap s)" "jtype (heap s ! t) = json_object"
    "flag_string (flags s)"
    and "heap s' = heap (upd_node t (\<lambda>n. n\<lparr>jnames_size := jnames_size n + string_length s + 1\<rparr>) s)"
      "s_top s' = Some t" "\<not> flag_string (flags s')" "flag_seek_value (flags s')"
  shows "grows s s'"
proof -
  have b: "below (heap s') = below (heap s)"
    using assms(5) by (simp add: below_upd_node keeps_shape_def)
  have nth: "heap s' ! i = (if i = t then (heap s ! t)\<lparr>jnames_size := jnames_size (heap s ! t) + string_length s + 1\<rparr>
      else heap s ! i)" for i
    using assms(2,5) by (simp add: upd_node_nth)
  have "pending s i = pending s' i" for i
    using assms(1-4,6-) by (auto simp: pending_def b nth)
  moreover have "length (heap s') = length (heap s)" using assms(5) by simp
  ultimately show ?thesis
    using assms(1-4,6-) by (auto simp: grows_def node_grows_def size_now_def names_now_def nth)
qed

lemma grows_open_name:
  assumes "\<not> flag_string (flags s)" "heap s' = heap s" "s_top s' = s_top s" "\<not> flag_seek_value (flags s)"
    "s_top s = Some t" "jtype (heap s ! t) = json_object"
  shows "grows s s'"
proof -
  have "pending s i \<Longrightarrow> pending s' i" for i using assms by (simp add: pending_def)
  then show ?thesis using assms by (auto simp: grows_def node_grows_def size_now_def names_now_def)
qed

lemma grows_leave_array:
  assumes "\<not> flag_string (flags s)" "heap s' = heap s" "s_top s' = s_top s" "\<not> flag_string (flags s')"
    "s_top s = Some t" "jtype (heap s ! t) = json_array"
  shows "grows s s'"
proof -
  have "pending s i = pending s' i" for i using assms by (auto simp: pending_def)
  then show ?thesis using assms by (auto simp: grows_def node_grows_def size_now_def names_now_def)
qed

lemma grows_number:
  assumes "heap s' = (heap s)[t := n]" "s_top s' = s_top s" "\<not> flag_string (flags s)" "\<not> flag_string (flags s')"
    "flag_seek_value (flags s') = flag_seek_value (flags s)" "s_top s = Some t" "numeric (jtype (heap s ! t))"
    and "jparent n = jparent (heap s ! t)" "numeric (jtype n)" "jlength n = jlength (heap s ! t)"
      "jnames_size n = jnames_size (heap s ! t)"
  shows "grows s s'"
proof -
  have nth: "jparent (heap s' ! i) = jparent (heap s ! i)" if "i < length (heap s)" for i
    using assms(1,8) that by (cases "i = t") simp_all
  have b: "below (heap s') = below (heap s)"
    by (rule below_cong) (use assms(1) nth in simp_all)
  have "jtype (heap s ! t) \<noteq> json_object" "jtype (heap s' ! t) \<noteq> json_object"
    using assms(7,9) by (auto simp: assms(1)) (cases "t < length (heap s)"; auto simp: list_update_beyond)+
  then have "pending s i = pending s' i" for i using assms(2,6) by (simp add: pending_def b)
  moreover have "node_grows s s' i" if "i < length (heap s)" "pending s i = pending s' i" for i
    using assms(2-) that by (cases "i = t") (auto simp: node_grows_def size_now_def names_now_def assms(1))
  ultimately show ?thesis by (simp add: grows_def assms(1))
qed

lemma exits_conj:
  "exits F C B E c \<Longrightarrow> exits F' C' B' E' c \<Longrightarrow>
   exits (\<lambda>s. F s \<and> F' s) (\<lambda>s. C s \<and> C' s) (\<lambda>s. B s \<and> B' s) (\<lambda>e. E e \<and> E' e) c"
  by (cases c) simp_all

abbreviation ends_grown :: "jst \<Rightarrow> ctl \<Rightarrow> bool" where
  "ends_grown s \<equiv> exits (grows s) (grows s) (grows s) (\<lambda>_. True)"

text \<open>What the tail of the body starts from.\<close>

definition tail_ready :: "jst \<Rightarrow> bool" where
  "tail_ready s \<longleftrightarrow> heap_ok s \<and> first_pass s \<and>
     (flag_next (flags s) \<longrightarrow> \<not> flag_string (flags s) \<and> \<not> flag_seek_value (flags s) \<and>
        (\<exists>t. s_top s = Some t \<and> t < length (heap s)))"

lemma grows_next:
  assumes "tail_ready s"
  shows "ends_grown s (section_next s)"
proof (cases "flag_next (flags s)")
  case True
  then obtain t where t: "s_top s = Some t" "t < length (heap s)" and f: "\<not> flag_string (flags s)"
      "\<not> flag_seek_value (flags s)" "heap_ok s" "first_pass s"
    using assms by (auto simp: tail_ready_def)
  show ?thesis
  proof (cases "jparent (heap s ! t)")
    case None
    then show ?thesis using True t f by (auto simp: section_next_def intro!: grows_key)
  next
    case (Some p)
    then have "grows s s'" if "heap s' = heap (upd_node p (\<lambda>n. n\<lparr>jlength := jlength n + 1\<rparr>) s)" "s_top s' = Some p"
      "\<not> flag_string (flags s')" for s'
      using grows_finish [OF f(3) t _ f(1,2)] that by simp
    then show ?thesis using True t f Some
      by (auto simp: section_next_def Let_def attach_def upd_node_def)
  qed
qed (simp add: section_next_def grows_refl)

lemma grows_tail:
  assumes "tail_ready s"
  shows "ends_grown s (section_tail s)"
proof -
  let ?s = "advance (- 1) (upd_flags (\<lambda>f. f\<lparr>flag_reproc := False\<rparr>) s)"
  have "tail_ready ?s" using assms by (simp add: tail_ready_def)
  moreover have g: "grows s ?s" by (rule grows_key) simp_all
  ultimately have "ends_grown s (section_next ?s)"
    by (intro exits_mono [OF grows_next]) (auto intro: grows_trans)
  then show ?thesis
    using grows_next [OF assms] by (simp add: section_tail_def section_reproc_def)
qed

lemma heap_upd_node_flags: "heap (upd_node t f (upd_flags g s)) = heap (upd_node t f s)"
  by (simp add: upd_node_def)

lemma grows_string:
  assumes "inv1 cfg js s" "rd js (ptr s) = Some b" "flag_string (flags s)"
  shows "exits (\<lambda>s'. grows s s' \<and> tail_ready s') (grows s) (grows s) (\<lambda>_. True) (section_string js b s)"
proof (cases "b = NUL")
  case False
  then have p: "0 \<le> ptr s" "ptr s < int (length js)" using rd_not_nul [OF assms(2)] by auto
  from assms obtain t where t: "s_top s = Some t" "t < length (heap s)"
    "jtype (heap s ! t) = json_string \<or> jtype (heap s ! t) = json_object"
    "\<not> flag_seek_value (flags s)" "\<not> flag_done (flags s)" "first_pass s" "heap_ok s"
    by (auto simp: inv1_def top_fits_def Let_def split: option.splits if_splits)
  have esc: "exits (grows s) (grows s) (grows s) (\<lambda>_. True)
      (string_escape js b (upd_flags (\<lambda>f. f\<lparr>flag_escaped := False\<rparr>) s))"
    by (rule exits_mono [OF string_escape_first])
       (use t p in \<open>auto simp: within_string_def intro!: grows_key\<close>)
  have close: "exits (\<lambda>s'. grows s s' \<and> tail_ready s') (grows s) (grows s) (\<lambda>_. True) (string_close s)"
  proof (cases "jtype (heap s ! t) = json_string")
    case True
    then have "grows s (upd_flags g (upd_node t (\<lambda>n. n\<lparr>jlength := string_length s\<rparr>)
        (upd_flags (\<lambda>f. f\<lparr>flag_string := False\<rparr>) s)))" if "\<And>f. flag_string (g f) = flag_string f \<and>
        flag_seek_value (g f) = flag_seek_value f" for g
      using t that by (intro grows_close_value [OF t(1,2) True assms(3)]) (simp_all add: heap_upd_node_flags)
    with t True show ?thesis
      by (simp add: string_close_def Let_def tail_ready_def upd_node_ok keeps_shape_def)
  next
    case False
    with t have obj: "jtype (heap s ! t) = json_object" by simp
    have "grows s (upd_node t (\<lambda>n. n\<lparr>jnames_size := jnames_size n + string_length s + 1\<rparr>)
        (upd_flags (\<lambda>f. f\<lparr>flag_seek_value := True, flag_need_colon := True\<rparr>)
           (upd_flags (\<lambda>f. f\<lparr>flag_string := False\<rparr>) s)))"
      using t by (intro grows_close_name [OF t(1,2) obj assms(3)]) (simp_all add: heap_upd_node_flags)
    with t obj show ?thesis by (simp add: string_close_def Let_def)
  qed
  show ?thesis
    using assms(3) False t esc close
    by (auto simp: section_string_def string_add_def intro!: grows_key)
qed (use assms in \<open>simp add: section_string_def\<close>)

lemma grows_space: "grows s (count_line b s)"
  by (rule grows_key) (simp_all add: count_line_def)

lemma grown_cong: "heap s' = heap s \<Longrightarrow> s_top s' = s_top s \<Longrightarrow> heap (grown ty s') = heap (grown ty s)"
  by (simp add: grown_def)

lemma seeking_top: "seeking cfg js s \<Longrightarrow> s_top s = Some t \<Longrightarrow> t < length (heap s)"
  by (auto simp: seeking_def inv1_def top_fits_def)

lemma grows_seek_new:
  assumes "seeking cfg js s" "heap s' = heap (grown ty (advance k (unseek s)))" "s_top s' = Some (length (heap s))"
  shows "grows s s'"
proof (rule grows_new)
  show "heap s' = heap (grown ty s)" using assms(2) grown_cong [of "advance k (unseek s)" s ty] by simp
qed (use assms seeking_plain [OF assms(1)] seeking_top [OF assms(1)] in auto)

lemma grows_literal:
  assumes "seeking cfg js s" "keeps_shape f" "\<And>n. jlength (f n) = jlength n \<and> jnames_size (f n) = jnames_size n"
    and "ty \<noteq> json_object" "ty \<noteq> json_string"
  shows "grows s (upd_flags (\<lambda>f. f\<lparr>flag_next := True\<rparr>)
           (upd_node (length (heap s)) f ((grown ty (advance k (unseek s)))\<lparr>used_memory := u, s_mem := m\<rparr>)))"
proof -
  let ?g = "(grown ty (advance k (unseek s)))\<lparr>used_memory := u, s_mem := m\<rparr>"
  let ?s = "upd_flags (\<lambda>f. f\<lparr>flag_next := True\<rparr>) (upd_node (length (heap s)) f ?g)"
  have b: "below (heap ?s) = below (heap ?g)" using assms(2) by (simp add: below_upd_node)
  have nth: "heap ?s ! i = heap ?g ! i" if "i < length (heap s)" for i
    using that by (simp add: upd_node_def)
  have "pending ?g i = pending ?s i" if "i < length (heap s)" for i
    using that b by (simp add: pending_def)
  then have "grows s ?s \<longleftrightarrow> grows s ?g"
    using nth by (simp add: grows_def node_grows_def size_now_def names_now_def)
  then show ?thesis using grows_seek_new [OF assms(1), of ?g ty k] by simp
qed

lemma literal_tail_ready:
  assumes "seeking cfg js s" "0 \<le> k" "ptr s + k < int (length js)" "keeps_shape f"
  shows "tail_ready (upd_flags (\<lambda>f. f\<lparr>flag_next := True\<rparr>)
           (upd_node (length (heap s)) f ((grown ty (advance k (unseek s)))\<lparr>used_memory := u, s_mem := m\<rparr>)))"
  using literal_ended [OF assms, where ty = ty and u = u and m = m] by (simp add: tail_ready_def ended_def)

lemma grows_seek_start:
  assumes "seeking cfg js s"
  shows "exits (\<lambda>s'. grows s s' \<and> tail_ready s') (grows s) (grows s) (\<lambda>_. True) (seek_start cfg js b (unseek s))"
proof -
  let ?T = "\<lambda>s'. grows s s' \<and> tail_ready s'"
  let ?g = "\<lambda>ty u m. (grown ty (unseek s))\<lparr>used_memory := u, s_mem := m\<rparr>"
  note plain = seeking_plain [OF assms] seeking_ptr [OF assms]
  have ok: "heap_ok (grown ty (unseek s))" for ty using seeking_grown [OF assms, of ty 0] by simp
  have g: "grows s s'" if "heap s' = heap (grown ty (unseek s))" "s_top s' = Some (length (heap s))" for s' ty
    using grows_seek_new [OF assms, of s' ty 0] that by simp
  have new: "exits F C B (\<lambda>_. True) (new_value cfg ty (unseek s))" if "\<And>u m. F (?g ty u m)" for F C B ty
    by (rule new_value_exits) (use plain that in simp_all)
  have lit: "exits ?T C B (\<lambda>_. True) (then_section (seek_literal cfg js rest ty (unseek s)) mark_next)"
    if "rest \<noteq> []" "NUL \<notin> set rest" "ty \<noteq> json_object" "ty \<noteq> json_string" for rest ty C B
  proof -
    have "exits (\<lambda>s. exits ?T C B (\<lambda>_. True) (mark_next s)) C B clean (seek_literal cfg js rest ty (unseek s))"
      by (rule seek_literal_first [OF assms plain(10) that(1,2)])
         (use that(3,4) grows_literal [where f = id, OF assms] literal_tail_ready [where f = id, OF assms] in
           \<open>auto simp: mark_next_def upd_node_id keeps_shape_def\<close>)
    then show ?thesis unfolding exits_then by (rule exits_mono) auto
  qed
  have tr: "exits ?T C B (\<lambda>_. True)
      (then_section (then_section (seek_literal cfg js ''rue'' json_boolean (unseek s)) set_boolean) mark_next)" for C B
  proof -
    let ?f = "\<lambda>n. n\<lparr>jboolean := True\<rparr>"
    have "exits (\<lambda>s. exits ?T C B (\<lambda>_. True) (then_section (set_boolean s) mark_next)) C B clean
        (seek_literal cfg js ''rue'' json_boolean (unseek s))"
      by (rule seek_literal_first [OF assms plain(10)])
         (use grows_literal [where f = ?f, OF assms] literal_tail_ready [where f = ?f, OF assms] in
           \<open>auto simp: mark_next_def set_boolean_def keeps_shape_def\<close>)
    then show ?thesis unfolding exits_then by (rule exits_mono) auto
  qed
  have num: "exits ?T (grows s) (grows s) (\<lambda>_. True) (seek_number cfg js b (unseek s))"
    unfolding seek_number_def exits_then
    by (rule new) (use plain ok in \<open>simp add: Let_def tail_ready_def g [where ty = json_integer]\<close>)
  have "grows s (?g json_object u m)"
    "grows s (upd_flags (\<lambda>f. f\<lparr>flag_seek_value := True\<rparr>) (?g json_array u m))"
    "grows s (upd_flags (\<lambda>f. f\<lparr>flag_string := True\<rparr>) ((?g json_string u m)\<lparr>string_length := 0\<rparr>))" for u m
    by (rule g; simp)+
  then show ?thesis
    using new lit [of "''alse''" json_boolean] lit [of "''ull''" json_null] tr num
    by (simp add: seek_start_def)
qed

lemma grows_seek:
  assumes "seeking cfg js s"
  shows "exits (\<lambda>s'. grows s s' \<and> tail_ready s') (grows s) (grows s) (\<lambda>_. True) (section_seek cfg js b s)"
proof -
  note plain = seeking_plain [OF assms]
  have close: "grows s (upd_flags (\<lambda>f. f\<lparr>flag_need_comma := False, flag_seek_value := False, flag_next := True\<rparr>) s)"
    if "s_top s = Some t" "jtype (heap s ! t) = json_array" for t
    by (rule grows_leave_array [where t = t]) (use plain that in simp_all)
  show ?thesis
    using grows_space [of s b] close grows_seek_start [OF assms, of b] plain seeking_top [OF assms]
    by (auto simp: section_seek_def tail_ready_def split: option.split intro: grows_key)
qed

lemma grows_object:
  assumes "inside cfg js t s" "jtype (heap s ! t) = json_object"
  shows "exits (\<lambda>s'. grows s s' \<and> tail_ready s') (grows s) (grows s) (\<lambda>_. True) (section_object b s)"
proof -
  note plain = inside_plain [OF assms(1)]
  have "grows s (upd_flags (\<lambda>f. f\<lparr>flag_string := True\<rparr>) (s\<lparr>string_length := 0\<rparr>))"
    by (rule grows_open_name [where t = t]) (use plain assms(2) in simp_all)
  then show ?thesis
    using grows_space [of s b] plain by (auto simp: section_object_def tail_ready_def intro: grows_key)
qed

text \<open>A number changes nothing but its own node.\<close>

definition same_mode :: "jst \<Rightarrow> jst \<Rightarrow> bool" where
  "same_mode s s' \<longleftrightarrow>
     s_top s' = s_top s \<and> first_pass s' = first_pass s \<and> ptr s' = ptr s \<and> string_length s' = string_length s \<and>
     s_alloc s' = s_alloc s \<and> s_root s' = s_root s \<and>
     flag_string (flags s') = flag_string (flags s) \<and> flag_seek_value (flags s') = flag_seek_value (flags s) \<and>
     flag_done (flags s') = flag_done (flags s) \<and> flag_escaped (flags s') = flag_escaped (flags s) \<and>
     flag_need_comma (flags s') = flag_need_comma (flags s) \<and> flag_need_colon (flags s') = flag_need_colon (flags s) \<and>
     flag_line_comment (flags s') = flag_line_comment (flags s) \<and>
     flag_block_comment (flags s') = flag_block_comment (flags s)"

definition number_change :: "nat \<Rightarrow> jst \<Rightarrow> jst \<Rightarrow> bool" where
  "number_change t s s' \<longleftrightarrow>
     same_mode s s' \<and>
     (\<exists>n. heap s' = (heap s)[t := n] \<and> jparent n = jparent (heap s ! t) \<and> numeric (jtype n) \<and>
          jnext_alloc n = jnext_alloc (heap s ! t) \<and>
          jlength n = jlength (heap s ! t) \<and> jnames_size n = jnames_size (heap s ! t))"

lemma number_change_refl: "numeric (jtype (heap s ! t)) \<Longrightarrow> number_change t s s"
  by (auto simp: number_change_def same_mode_def intro!: exI [of _ "heap s ! t"])

lemma number_change_fields [simp]:
  "number_change t s (s'\<lparr>num_digits := n\<rparr>) = number_change t s s'"
  "number_change t s (s'\<lparr>num_e := w\<rparr>) = number_change t s s'"
  "number_change t s (s'\<lparr>num_fraction := w\<rparr>) = number_change t s s'"
  by (simp_all add: number_change_def same_mode_def)

lemma number_change_flags [simp]:
  "number_change t s (upd_flags (\<lambda>f. f\<lparr>flag_next := x, flag_reproc := y\<rparr>) s') = number_change t s s'"
  "number_change t s (upd_flags (\<lambda>f. f\<lparr>flag_num_e_got_sign := x\<rparr>) s') = number_change t s s'"
  "number_change t s (upd_flags (\<lambda>f. f\<lparr>flag_num_e_got_sign := x, flag_num_e_negative := h f\<rparr>) s') = number_change t s s'"
  "number_change t s (upd_flags (\<lambda>f. f\<lparr>flag_num_zero := x\<rparr>) s') = number_change t s s'"
  "number_change t s (upd_flags (\<lambda>f. f\<lparr>flag_num_e := x, flag_num_zero := y\<rparr>) s') = number_change t s s'"
  by (simp_all add: number_change_def same_mode_def upd_flags_def)

lemma number_change_node:
  assumes "number_change t s s'" "t < length (heap s)"
    and "\<And>n. numeric (jtype n) \<Longrightarrow> jparent (f n) = jparent n \<and> numeric (jtype (f n)) \<and> jnext_alloc (f n) = jnext_alloc n \<and>
           jlength (f n) = jlength n \<and> jnames_size (f n) = jnames_size n"
  shows "number_change t s (upd_node t f s')"
proof -
  from assms(1) obtain n where n: "heap s' = (heap s)[t := n]" "jparent n = jparent (heap s ! t)" "numeric (jtype n)"
    "jnext_alloc n = jnext_alloc (heap s ! t)" "jlength n = jlength (heap s ! t)"
    "jnames_size n = jnames_size (heap s ! t)" and m: "same_mode s s'"
    by (auto simp: number_change_def)
  show ?thesis
    unfolding number_change_def
  proof (intro conjI exI [of _ "f n"])
    show "same_mode s (upd_node t f s')" using m by (simp add: same_mode_def upd_node_def)
  qed (use n assms(2) assms(3) [OF n(3)] in \<open>simp_all add: upd_node_def\<close>)
qed

lemma number_change_nodes [simp]:
  assumes "number_change t s s'" "t < length (heap s)"
  shows "number_change t s (upd_node t (\<lambda>n. n\<lparr>jinteger := g n\<rparr>) s')"
    "number_change t s (upd_node t (\<lambda>n. n\<lparr>jdbl := h n\<rparr>) s')"
    "number_change t s (upd_node t to_double s')"
    "number_change t s (upd_node t (\<lambda>n. if jtype n = json_integer then n\<lparr>jinteger := g n\<rparr> else n\<lparr>jdbl := h n\<rparr>) s')"
  by (rule number_change_node [OF assms]; auto simp: to_double_def)+

lemma section_number_change:
  assumes "inside cfg js t s" "numeric (jtype (heap s ! t))"
  shows "exits (\<lambda>s'. number_change t s s' \<and> flag_next (flags s') \<and> flag_reproc (flags s'))
           (\<lambda>s'. number_change t s s' \<and> \<not> flag_next (flags s') \<and> \<not> flag_reproc (flags s') \<and> is_num_char b)
           (\<lambda>_. False) (\<lambda>_. True) (section_number t b s)"
proof -
  note plain = inside_plain [OF assms(1)]
  have digit: "exits F (\<lambda>s'. number_change t s s' \<and> \<not> flag_next (flags s') \<and> \<not> flag_reproc (flags s') \<and> is_num_char b)
      (\<lambda>_. False) (\<lambda>_. True) (number_digit t b s)" if "isdigit b" for F
    using plain assms(2) that
    by (auto simp: number_digit_def Let_def is_num_char_def number_change_refl)
  have stop: "exits (\<lambda>s'. number_change t s s' \<and> flag_next (flags s') \<and> flag_reproc (flags s')) C (\<lambda>_. False) (\<lambda>_. True)
      (number_end t (upd_node t (\<lambda>n. n\<lparr>jdbl := d n\<rparr>) s))"
    "exits (\<lambda>s'. number_change t s s' \<and> flag_next (flags s') \<and> flag_reproc (flags s')) C (\<lambda>_. False) (\<lambda>_. True)
      (number_end t s)" for d C
    using plain assms(2)
    by (auto simp: number_end_def Let_def number_change_refl)
  have mant: "exits (\<lambda>s'. number_change t s s' \<and> flag_next (flags s') \<and> flag_reproc (flags s'))
      (\<lambda>s'. number_change t s s' \<and> \<not> flag_next (flags s') \<and> \<not> flag_reproc (flags s') \<and> is_num_char b)
      (\<lambda>_. False) (\<lambda>_. True) (number_mantissa_end t b s)"
    using plain assms(2) stop
    by (auto simp: number_mantissa_end_def is_num_char_def number_change_refl)
  show ?thesis
    using plain assms(2) digit stop mant
    by (auto simp: section_number_def Let_def number_exponent_end_def is_num_char_def number_change_refl)
qed

lemma grows_number_change:
  assumes "number_change t s s'" "inside cfg js t s" "numeric (jtype (heap s ! t))"
  shows "grows s s'" "heap_ok s'"
proof -
  note plain = inside_plain [OF assms(2)]
  from assms(1) obtain n where n: "heap s' = (heap s)[t := n]" "jparent n = jparent (heap s ! t)" "numeric (jtype n)"
    "jnext_alloc n = jnext_alloc (heap s ! t)" "jlength n = jlength (heap s ! t)"
    "jnames_size n = jnames_size (heap s ! t)" and m: "same_mode s s'"
    by (auto simp: number_change_def)
  show "grows s s'"
    by (rule grows_number [OF n(1)]) (use n m plain assms(3) in \<open>simp_all add: same_mode_def\<close>)
  have "heap_ok (upd_node t (\<lambda>_. n) s)"
    by (rule upd_node_ok_at) (use n plain assms(3) in simp_all)
  then show "heap_ok s'" using n(1) m by (simp add: heap_ok_def upd_node_def same_mode_def)
qed

lemma grows_inside:
  assumes "inside cfg js t s"
  shows "exits (\<lambda>s'. grows s s' \<and> tail_ready s') (grows s) (grows s) (\<lambda>_. True) (section_inside b s)"
proof (cases "jtype (heap s ! t) = json_object")
  case True
  then show ?thesis using grows_object [OF assms True] inside_plain [OF assms] by (simp add: section_inside_def)
next
  case False
  note plain = inside_plain [OF assms]
  with False have num: "numeric (jtype (heap s ! t))" by simp
  have "exits (\<lambda>s'. grows s s' \<and> tail_ready s') (grows s) (grows s) (\<lambda>_. True) (section_number t b s)"
    by (rule exits_mono [OF section_number_change [OF assms num]])
       (use grows_number_change [OF _ assms num] plain in
         \<open>auto simp: tail_ready_def number_change_def same_mode_def\<close>)
  then show ?thesis using num plain by (auto simp: section_inside_def)
qed

lemma grows_comments: "exits (\<lambda>s'. s' = s) (grows s) (grows s) (\<lambda>_. True) (section_comments cfg js b s)"
proof -
  have "grows s s'" if "heap s' = heap s" "s_top s' = s_top s" "flag_string (flags s') = flag_string (flags s)"
    "flag_seek_value (flags s') = flag_seek_value (flags s)" "string_length s' = string_length s" for s'
    by (rule grows_key) (use that in simp_all)
  then show ?thesis
    by (simp add: section_comments_def comment_open_def Let_def split: option.split)
qed

lemma grows_body:
  assumes "inv1 cfg js s"
  shows "ends_grown s (json_body cfg js s)"
proof -
  obtain b where b: "rd js (ptr s) = Some b"
    using rd_some [of "ptr s" js] assms by (auto simp: inv1_def)
  let ?G = "ends_grown s"
  have tail: "?G (section_tail s')" if "grows s s'" "tail_ready s'" for s'
    by (rule exits_mono [OF grows_tail [OF that(2)]]) (use that(1) in \<open>auto intro: grows_trans\<close>)
  have vals: "?G (then_section (if flag_seek_value (flags s) then section_seek cfg js b s else section_inside b s) section_tail)"
    if out: "\<not> in_comment s" "\<not> flag_done (flags s)" "\<not> flag_string (flags s)"
  proof (cases "flag_seek_value (flags s)")
    case True
    then have "seeking cfg js s" using assms out by (simp add: seeking_def)
    from grows_seek [OF this, of b] show ?thesis using True tail by (auto elim!: exits_mono)
  next
    case False
    then have "s_top s \<noteq> None" using assms by (auto simp: inv1_def top_fits_def split: option.splits)
    with False obtain t where t: "inside cfg js t s"
      using assms out by (auto simp: inside_def)
    from grows_inside [OF t, of b] show ?thesis using False tail by (auto elim!: exits_mono)
  qed
  have rest: "?G (then_section (section_comments cfg js b s) (\<lambda>s. then_section (section_done b s) (\<lambda>s.
       then_section (if flag_seek_value (flags s) then section_seek cfg js b s else section_inside b s) section_tail)))"
    if no: "\<not> flag_string (flags s)"
  proof -
    have "exits (\<lambda>x. ?G (then_section (if flag_seek_value (flags x) then section_seek cfg js b x
        else section_inside b x) section_tail)) (grows s) (grows s) (\<lambda>_. True) (section_done b s)" if "\<not> in_comment s"
      using vals that no grows_space [of s b] by (simp add: section_done_def grows_refl del: exits_then)
    then show ?thesis
      unfolding exits_then
      by (intro exits_mono [OF exits_conj [OF section_comments_first [OF assms b no] grows_comments]]) auto
  qed
  show ?thesis
  proof (cases "flag_string (flags s)")
    case True
    show ?thesis unfolding json_body_tail b option.case exits_then [of _ _ _ _ "section_string js b s"]
      by (rule exits_mono [OF exits_conj [OF section_string_first [OF assms b] grows_string [OF assms b True]]])
         (use True tail in \<open>auto simp: section_comments_def section_done_def section_inside_def ended_def\<close>)
  next
    case False
    with rest show ?thesis by (simp add: json_body_tail b section_string_def)
  qed
qed

text \<open>A first pass that ends well has counted at least what any of its states had.\<close>

lemma grows_loop:
  assumes "inv1 cfg js s" "json_loop cfg js fuel s = Break sf"
  shows "grows s sf \<and> inv1 cfg js sf \<and> flag_done (flags sf)"
  using assms
proof (induction fuel arbitrary: s)
  case (Suc fuel)
  show ?case
  proof (cases "json_body cfg js s")
    case (Fall s')
    then show ?thesis
      using Suc json_body_first [OF Suc.prems(1)] grows_body [OF Suc.prems(1)] grows_key [of "advance 1 s'" s']
      by (auto simp: progress_def intro: grows_trans)
  next
    case (Continue s')
    then show ?thesis
      using Suc json_body_first [OF Suc.prems(1)] grows_body [OF Suc.prems(1)] grows_key [of "advance 1 s'" s']
      by (auto simp: progress_def intro: grows_trans)
  qed (use Suc.prems json_body_first [OF Suc.prems(1)] in \<open>auto simp: grows_refl\<close>)
qed simp

end
