(* ===== verification/Json_Second.thy ===== *)
theory Json_Second
  imports Json_Passes
begin

text \<open>
  The second pass. Against the final store \<open>H\<close> of a first pass that ended well, a state of the
  second pass is related to the state of the first pass that has read as much of the text.
  The relation is kept by every iteration, so the second pass writes only inside its buffers,
  finds every node it needs, and ends; only the allocator can make it fail. The store it leaves
  is a tree in which every member of an array or object is present.
\<close>

section \<open>The final counts\<close>

definition node_fits :: "json_node list \<Rightarrow> jst \<Rightarrow> nat \<Rightarrow> bool" where
  "node_fits H s i \<longleftrightarrow>
     jparent (H ! i) = jparent (heap s ! i) \<and>
     (jtype (H ! i) = jtype (heap s ! i) \<or> numeric (jtype (H ! i)) \<and> numeric (jtype (heap s ! i))) \<and>
     size_now s i \<le> jlength (H ! i) \<and> names_now s i \<le> jnames_size (H ! i)"

definition fits :: "json_node list \<Rightarrow> jst \<Rightarrow> bool" where
  "fits H s \<longleftrightarrow> length (heap s) \<le> length H \<and> (\<forall>i < length (heap s). node_fits H s i)"

lemma fits_grows:
  assumes "grows s s'" "fits H s'"
  shows "fits H s"
proof -
  have "node_fits H s i" if "i < length (heap s)" for i
  proof -
    have "node_grows s s' i" "node_fits H s' i" using assms that by (auto simp: grows_def fits_def)
    then show ?thesis by (auto simp: node_grows_def node_fits_def)
  qed
  with assms show ?thesis by (simp add: grows_def fits_def)
qed

lemma fits_done:
  assumes "inv1 cfg js s" "flag_done (flags s)"
  shows "fits (heap s) s"
proof -
  have "\<not> pending s i" for i
    using assms below_root [of "heap s"]
    by (auto simp: inv1_def top_fits_def pending_def Let_def split: option.splits)
  moreover have "\<not> flag_string (flags s)"
    using assms by (auto simp: inv1_def top_fits_def Let_def split: option.splits)
  ultimately show ?thesis
    by (simp add: fits_def node_fits_def size_now_def names_now_def)
qed

lemma fits_loop:
  "inv1 cfg js s \<Longrightarrow> json_loop cfg js fuel s = Break sf \<Longrightarrow> fits (heap sf) s"
  using grows_loop fits_done fits_grows by blast

section \<open>The relation\<close>

lemma pointer_simps [simp]:
  "s_root (upd_node t f s) = s_root s" "s_root (upd_flags g s) = s_root s" "s_root (advance k s) = s_root s"
  "s_alloc (upd_node t f s) = s_alloc s" "s_alloc (upd_flags g s) = s_alloc s" "s_alloc (advance k s) = s_alloc s"
  by (simp_all add: upd_defs)

text \<open>An object whose next member has its name.\<close>

definition named :: "jst \<Rightarrow> nat \<Rightarrow> bool" where
  "named s i \<longleftrightarrow> pending s i \<and> \<not> (flag_string (flags s) \<and> s_top s = Some i)"

definition array_sim :: "json_node list \<Rightarrow> jst \<Rightarrow> nat \<Rightarrow> json_node \<Rightarrow> bool" where
  "array_sim H s i n \<longleftrightarrow>
     jlength n = jlength (heap s ! i) \<and>
     (jlength (H ! i) \<noteq> 0 \<longrightarrow> length (jvalues n) = jlength (H ! i)) \<and>
     (\<forall>k < jlength n. \<exists>c. jvalues n ! k = Some c \<and> i < c \<and> c < length H)"

definition object_sim :: "json_node list \<Rightarrow> jst \<Rightarrow> nat \<Rightarrow> json_node \<Rightarrow> bool" where
  "object_sim H s i n \<longleftrightarrow>
     jlength n = jlength (heap s ! i) \<and>
     (jlength (H ! i) \<noteq> 0 \<longrightarrow>
        length (jentries n) = jlength (H ! i) \<and> length (jobject_mem n) = jnames_size (H ! i) \<and>
        jobject_pos n = jnames_size (heap s ! i)) \<and>
     (\<forall>k < jlength n. ename (jentries n ! k) \<noteq> None \<and>
        (\<exists>c. evalue (jentries n ! k) = Some c \<and> i < c \<and> c < length H)) \<and>
     (named s i \<longrightarrow> ename (jentries n ! jlength n) \<noteq> None)"

definition node_sim :: "json_node list \<Rightarrow> jst \<Rightarrow> nat \<Rightarrow> json_node \<Rightarrow> bool" where
  "node_sim H s i n \<longleftrightarrow>
     (case jtype (H ! i) of
        json_array \<Rightarrow> array_sim H s i n
      | json_object \<Rightarrow> object_sim H s i n
      | json_string \<Rightarrow> length (jptr n) = jlength (H ! i) + 1
      | _ \<Rightarrow> True)"

text \<open>The two passes are at the same place of the text, in the same mode.\<close>

definition in_step :: "jst \<Rightarrow> jst \<Rightarrow> bool" where
  "in_step s s2 \<longleftrightarrow>
     \<not> first_pass s2 \<and> s_top s2 = s_top s \<and> s_root s2 = s_root s \<and> ptr s2 = ptr s \<and>
     string_length s2 = string_length s \<and>
     flag_next (flags s2) = flag_next (flags s) \<and> flag_reproc (flags s2) = flag_reproc (flags s) \<and>
     flag_string (flags s2) = flag_string (flags s) \<and> flag_seek_value (flags s2) = flag_seek_value (flags s) \<and>
     flag_done (flags s2) = flag_done (flags s) \<and> flag_escaped (flags s2) = flag_escaped (flags s) \<and>
     flag_need_comma (flags s2) = flag_need_comma (flags s) \<and> flag_need_colon (flags s2) = flag_need_colon (flags s) \<and>
     flag_line_comment (flags s2) = flag_line_comment (flags s) \<and>
     flag_block_comment (flags s2) = flag_block_comment (flags s)"

definition same_shape :: "json_node \<Rightarrow> json_node \<Rightarrow> bool" where
  "same_shape n n' \<longleftrightarrow> jparent n' = jparent n \<and> jtype n' = jtype n \<and> jnext_alloc n' = jnext_alloc n"

definition sim_heap :: "json_node list \<Rightarrow> jst \<Rightarrow> json_node list \<Rightarrow> bool" where
  "sim_heap H s h \<longleftrightarrow>
     length h = length H \<and>
     (\<forall>i < length H. same_shape (H ! i) (h ! i) \<and>
        (if i < length (heap s) then node_sim H s i (h ! i) else h ! i = H ! i))"

definition sim :: "json_node list \<Rightarrow> jst \<Rightarrow> jst \<Rightarrow> bool" where
  "sim H s s2 \<longleftrightarrow>
     in_step s s2 \<and> sim_heap H s (heap s2) \<and>
     s_alloc s2 = (if length (heap s) < length H then Some (length (heap s)) else None)"

lemma simD:
  assumes "sim H s s2"
  shows "\<not> first_pass s2" "s_top s2 = s_top s" "s_root s2 = s_root s" "ptr s2 = ptr s"
    "string_length s2 = string_length s"
    "flag_next (flags s2) = flag_next (flags s)" "flag_reproc (flags s2) = flag_reproc (flags s)"
    "flag_string (flags s2) = flag_string (flags s)" "flag_seek_value (flags s2) = flag_seek_value (flags s)"
    "flag_done (flags s2) = flag_done (flags s)" "flag_escaped (flags s2) = flag_escaped (flags s)"
    "flag_need_comma (flags s2) = flag_need_comma (flags s)" "flag_need_colon (flags s2) = flag_need_colon (flags s)"
    "flag_line_comment (flags s2) = flag_line_comment (flags s)"
    "flag_block_comment (flags s2) = flag_block_comment (flags s)"
    "length (heap s2) = length H"
  using assms by (auto simp: sim_def in_step_def sim_heap_def)

lemma sim_node:
  assumes "sim H s s2" "i < length (heap s)" "fits H s"
  shows "jtype (heap s2 ! i) = jtype (H ! i)" "jparent (heap s2 ! i) = jparent (heap s ! i)"
    "node_sim H s i (heap s2 ! i)" "node_fits H s i" "i < length H"
proof -
  show "i < length H" "node_fits H s i" using assms by (auto simp: fits_def)
  then show "jtype (heap s2 ! i) = jtype (H ! i)" "jparent (heap s2 ! i) = jparent (heap s ! i)"
    "node_sim H s i (heap s2 ! i)"
    using assms by (auto simp: sim_def sim_heap_def same_shape_def node_fits_def)
qed

text \<open>Changes that the relation does not see.\<close>

lemma named_cong:
  assumes "heap s' = heap s" "s_top s' = s_top s" "flag_string (flags s') = flag_string (flags s)"
    "flag_seek_value (flags s') = flag_seek_value (flags s)"
  shows "named s' i = named s i"
  using pending_cong [OF assms] assms by (simp add: named_def)

lemma sim_heap_cong:
  assumes "heap s' = heap s" "s_top s' = s_top s" "flag_string (flags s') = flag_string (flags s)"
    "flag_seek_value (flags s') = flag_seek_value (flags s)"
  shows "sim_heap H s' h = sim_heap H s h"
  using named_cong [OF assms] assms(1)
  by (simp add: sim_heap_def node_sim_def array_sim_def object_sim_def cong: json_type.case_cong)

lemma sim_key:
  assumes "sim H s s2" "in_step s' s2'" "heap s' = heap s" "heap s2' = heap s2" "s_alloc s2' = s_alloc s2"
    and "s_top s' = s_top s" "flag_string (flags s') = flag_string (flags s)"
      "flag_seek_value (flags s') = flag_seek_value (flags s)"
  shows "sim H s' s2'"
  using assms sim_heap_cong [OF assms(3,6-8)] by (simp add: sim_def)

text \<open>A change of one node of the second pass.\<close>

lemma sim_node_change:
  assumes "sim H s s2" "in_step s' s2'" "length (heap s') = length (heap s)" "s_alloc s2' = s_alloc s2"
    and "heap s2' = (heap s2)[t := n]" "t < length (heap s)" "t < length H"
    and "same_shape (heap s2 ! t) n" "node_sim H s' t n"
    and "\<And>i. i < length (heap s) \<Longrightarrow> i \<noteq> t \<Longrightarrow> node_sim H s i (heap s2 ! i) \<Longrightarrow> node_sim H s' i (heap s2 ! i)"
  shows "sim H s' s2'"
proof -
  have l: "length (heap s2) = length H" and h: "i < length H \<Longrightarrow> same_shape (H ! i) (heap s2 ! i) \<and>
      (if i < length (heap s) then node_sim H s i (heap s2 ! i) else heap s2 ! i = H ! i)" for i
    using assms(1) by (auto simp: sim_def sim_heap_def)
  have "same_shape (H ! i) (heap s2' ! i) \<and>
      (if i < length (heap s') then node_sim H s' i (heap s2' ! i) else heap s2' ! i = H ! i)" if "i < length H" for i
    using h [OF that] assms that l by (cases "i = t") (auto simp: same_shape_def)
  moreover have "length (heap s2') = length H" using l assms(5) by simp
  ultimately have "sim_heap H s' (heap s2')" unfolding sim_heap_def by blast
  then show ?thesis using assms(1-4) by (simp add: sim_def)
qed

section \<open>Strings\<close>

text \<open>Room for what is written, from the counts of the first pass.\<close>

definition string_room :: "json_node list \<Rightarrow> nat \<Rightarrow> jst \<Rightarrow> nat \<Rightarrow> bool" where
  "string_room H t s2 k \<longleftrightarrow>
     (if jtype (heap s2 ! t) = json_string then string_length s2 + k < length (jptr (heap s2 ! t))
      else jobject_pos (heap s2 ! t) + string_length s2 + k < length (jobject_mem (heap s2 ! t)))"

lemma pending_top: "s_top s = Some t \<Longrightarrow> jtype (heap s ! t) = json_object \<Longrightarrow> flag_string (flags s) \<Longrightarrow> pending s t"
  by (simp add: pending_def)

lemma sim_string_room:
  assumes "sim H s s2" "fits H (s\<lparr>string_length := string_length s + k\<rparr>)" "s_top s = Some t" "t < length (heap s)"
    "jtype (heap s ! t) = json_string \<or> jtype (heap s ! t) = json_object" "flag_string (flags s)"
  shows "string_room H t s2 k"
proof -
  let ?s = "s\<lparr>string_length := string_length s + k\<rparr>"
  have nf: "node_fits H ?s t" and l: "t < length H" using assms by (auto simp: fits_def)
  have ty: "jtype (H ! t) = jtype (heap s ! t)" using nf assms(5) by (auto simp: node_fits_def)
  have ns: "node_sim H s t (heap s2 ! t)" and sh: "jtype (heap s2 ! t) = jtype (H ! t)"
    using assms(1,4) l by (auto simp: sim_def sim_heap_def same_shape_def)
  note sl = simD(5) [OF assms(1)]
  show ?thesis
  proof (cases "jtype (heap s ! t) = json_string")
    case True
    then have "string_length s + k \<le> jlength (H ! t)"
      using nf assms(3,6) by (simp add: node_fits_def size_now_def)
    with True ns ty sh sl show ?thesis by (simp add: string_room_def node_sim_def)
  next
    case False
    then have obj: "jtype (heap s ! t) = json_object" using assms(5) by simp
    then have p: "pending ?s t" using assms(3,6) by (intro pending_top) simp_all
    with obj nf assms(3,6) have "jlength (H ! t) \<noteq> 0"
      "jnames_size (heap s ! t) + string_length s + k + 1 \<le> jnames_size (H ! t)"
      by (simp_all add: node_fits_def size_now_def names_now_def)
    with obj ns ty sh sl show ?thesis by (simp add: string_room_def node_sim_def object_sim_def)
  qed
qed

text \<open>A write into a buffer.\<close>

lemma node_sim_buffer:
  "jlength n' = jlength n \<Longrightarrow> jvalues n' = jvalues n \<Longrightarrow> jentries n' = jentries n \<Longrightarrow>
   length (jobject_mem n') = length (jobject_mem n) \<Longrightarrow> jobject_pos n' = jobject_pos n \<Longrightarrow>
   length (jptr n') = length (jptr n) \<Longrightarrow> node_sim H s i n' = node_sim H s i n"
  by (simp add: node_sim_def array_sim_def object_sim_def cong: json_type.case_cong)

lemma string_write_second:
  assumes "sim H s s2" "s_top s = Some t" "t < length (heap s)" "t < length H" "string_room H t s2 0"
  shows "\<exists>s2'. string_write c s2 = Fall s2' \<and> sim H s s2' \<and> (\<forall>k. string_room H t s2' k = string_room H t s2 k) \<and>
    same_shape (heap s2 ! t) (heap s2' ! t) \<and> jlength (heap s2' ! t) = jlength (heap s2 ! t) \<and>
    jentries (heap s2' ! t) = jentries (heap s2 ! t) \<and> jobject_pos (heap s2' ! t) = jobject_pos (heap s2 ! t)"
proof -
  let ?n = "heap s2 ! t"
  define n' where "n' = (if jtype ?n = json_string then ?n\<lparr>jptr := (jptr ?n)[string_length s2 := Some c]\<rparr>
    else ?n\<lparr>jobject_mem := (jobject_mem ?n)[jobject_pos ?n + string_length s2 := Some c]\<rparr>)"
  have n': "jlength n' = jlength ?n" "jvalues n' = jvalues ?n" "jentries n' = jentries ?n" "length (jobject_mem n') = length (jobject_mem ?n)"
    "jobject_pos n' = jobject_pos ?n" "length (jptr n') = length (jptr ?n)" "same_shape ?n n'"
    by (simp_all add: n'_def same_shape_def)
  let ?s = "s2\<lparr>heap := (heap s2)[t := n']\<rparr>"
  note d = simD [OF assms(1)]
  have w: "string_write c s2 = Fall ?s"
    using assms(2,5) d(2) by (simp add: string_write_def string_room_def Let_def upd_node_def n'_def split: if_splits)
  have "node_sim H s t ?n" using assms(1,3,4) by (auto simp: sim_def sim_heap_def)
  then have "node_sim H s t n'" using node_sim_buffer [OF n'(1-6)] by simp
  moreover have "in_step s ?s" using assms(1) by (simp add: sim_def in_step_def)
  ultimately have "sim H s ?s"
    by (intro sim_node_change [OF assms(1)]) (use assms(3,4) n'(7) in simp_all)
  moreover have "string_room H t ?s k = string_room H t s2 k" for k
    using assms(4) d(16) n' by (simp add: string_room_def same_shape_def)
  ultimately show ?thesis using w assms(4) d(16) n' by (intro exI [of _ ?s]) simp
qed

lemma string_room_less: "string_room H t s2 k \<Longrightarrow> j \<le> k \<Longrightarrow> string_room H t s2 j"
  by (auto simp: string_room_def split: if_splits)

lemma sim_string_length: "sim H s s2 \<Longrightarrow> sim H (s\<lparr>string_length := n\<rparr>) (s2\<lparr>string_length := n\<rparr>)"
  by (frule sim_key [of H s s2 "s\<lparr>string_length := n\<rparr>" "s2\<lparr>string_length := n\<rparr>"])
     (simp_all add: sim_def in_step_def)

lemma string_adds_second:
  assumes "sim H s s2" "s_top s = Some t" "t < length (heap s)" "t < length H" "string_room H t s2 (length cs)"
  shows "\<exists>s2'. string_adds cs s2 = Fall s2' \<and> sim H (s\<lparr>string_length := string_length s + length cs\<rparr>) s2'"
  using assms
proof (induction cs arbitrary: s s2)
  case Nil
  then show ?case by simp
next
  case (Cons c cs)
  from string_write_second [OF Cons.prems(1-4) string_room_less [OF Cons.prems(5)], of c]
  obtain x where x: "string_write c s2 = Fall x" "sim H s x" "string_room H t x (length (c # cs))"
    using Cons.prems(5) by auto
  let ?x = "x\<lparr>string_length := string_length x + 1\<rparr>"
  have add: "string_add c s2 = Fall ?x" using x(1) simD(1) [OF Cons.prems(1)] by (simp add: string_add_def)
  have len: "string_length x = string_length s" using simD(5) [OF x(2)] .
  have "sim H (s\<lparr>string_length := string_length s + 1\<rparr>) ?x"
    using sim_string_length [OF x(2), of "string_length s + 1"] len by simp
  moreover have "string_room H t ?x (length cs)" using x(3) by (auto simp: string_room_def)
  ultimately show ?case using Cons.IH [of "s\<lparr>string_length := string_length s + 1\<rparr>" ?x] Cons.prems add by simp
qed

text \<open>In a string, with the node it goes to.\<close>

definition in_string :: "nat \<Rightarrow> jst \<Rightarrow> bool" where
  "in_string t s \<longleftrightarrow> first_pass s \<and> s_top s = Some t \<and> t < length (heap s) \<and>
     (jtype (heap s ! t) = json_string \<or> jtype (heap s ! t) = json_object) \<and> flag_string (flags s)"

definition follows :: "json_node list \<Rightarrow> ctl \<Rightarrow> ctl \<Rightarrow> bool" where
  "follows H c c2 \<longleftrightarrow>
     (case c of
        Fall s \<Rightarrow> fits H s \<longrightarrow> (\<exists>s2. c2 = Fall s2 \<and> sim H s s2) \<or> (\<exists>s2. c2 = Failed Memory_allocation_failure s2)
      | Continue s \<Rightarrow> fits H s \<longrightarrow> (\<exists>s2. c2 = Continue s2 \<and> sim H s s2) \<or> (\<exists>s2. c2 = Failed Memory_allocation_failure s2)
      | Break s \<Rightarrow> fits H s \<longrightarrow> (\<exists>s2. c2 = Break s2 \<and> sim H s s2) \<or> (\<exists>s2. c2 = Failed Memory_allocation_failure s2)
      | Failed e s \<Rightarrow> True)"

lemma follows_simps [simp]:
  "follows H (Failed e s) c2"
  "follows H c (Failed Memory_allocation_failure s2)"
  by (simp_all add: follows_def split: ctl.split)

lemma follows_FallI: "(fits H s \<Longrightarrow> \<exists>s2. c2 = Fall s2 \<and> sim H s s2) \<Longrightarrow> follows H (Fall s) c2"
  by (simp add: follows_def)

lemma follows_ContinueI: "(fits H s \<Longrightarrow> \<exists>s2. c2 = Continue s2 \<and> sim H s s2) \<Longrightarrow> follows H (Continue s) c2"
  by (simp add: follows_def)

lemma follows_same [intro]:
  "sim H s s2 \<Longrightarrow> follows H (Fall s) (Fall s2)" "sim H s s2 \<Longrightarrow> follows H (Continue s) (Continue s2)"
  "sim H s s2 \<Longrightarrow> follows H (Break s) (Break s2)"
  by (simp_all add: follows_def)

lemma follows_then:
  assumes "follows H c c2" "\<And>s. c = Fall s \<Longrightarrow> ends_grown s (f s)"
    and "\<And>s s2. c = Fall s \<Longrightarrow> fits H s \<Longrightarrow> sim H s s2 \<Longrightarrow> follows H (f s) (f2 s2)"
  shows "follows H (then_section c f) (then_section c2 f2)"
proof (cases c)
  case (Fall s)
  then have g: "ends_grown s (f s)" and c: "follows H (Fall s) c2" using assms by auto
  show ?thesis
  proof (cases "fits H s")
    case True
    then consider s2 where "c2 = Fall s2" "sim H s s2" | s2 where "c2 = Failed Memory_allocation_failure s2"
      using c by (auto simp: follows_def)
    then show ?thesis by cases (use Fall True assms(3) in auto)
  next
    case False
    then have "\<not> fits H s'" if "grows s s'" for s' using that fits_grows by blast
    with g Fall show ?thesis by (cases "f s") (auto simp: follows_def)
  qed
qed (use assms(1) in \<open>auto simp: follows_def\<close>)

lemma adds_second:
  assumes "sim H s s2" "in_string t s"
  shows "follows H (string_adds cs s) (string_adds cs s2)"
proof -
  let ?s = "s\<lparr>string_length := string_length s + length cs\<rparr>"
  have "\<exists>s2'. string_adds cs s2 = Fall s2' \<and> sim H ?s s2'" if "fits H ?s"
  proof (rule string_adds_second [OF assms(1)])
    show "t < length H" using that assms(2) by (auto simp: fits_def in_string_def)
    show "string_room H t s2 (length cs)"
      using assms that by (intro sim_string_room [OF assms(1)]) (auto simp: in_string_def)
  qed (use assms(2) in \<open>auto simp: in_string_def\<close>)
  then show ?thesis using assms(2) by (auto simp: string_adds_first in_string_def intro: follows_FallI)
qed

lemma then_Fall [simp]: "then_section c Fall = c"
  by (cases c) simp_all

lemma string_add_adds: "string_add c s = string_adds [c] s"
proof -
  have "string_adds [] = Fall" by (rule ext) simp
  then show ?thesis by simp
qed

lemma sim_advance: "sim H s s2 \<Longrightarrow> sim H (advance k s) (advance k s2)"
  by (frule sim_key [of H s s2 "advance k s" "advance k s2"]) (simp_all add: sim_def in_step_def advance_def)

lemma unicode_second:
  assumes "sim H s s2" "in_string t s"
  shows "follows H (string_unicode js s) (string_unicode js s2)"
proof -
  note p = simD(4) [OF assms(1)]
  have a: "follows H (string_adds cs (advance k s)) (string_adds cs (advance k s2))" for cs k
    by (rule adds_second [where t = t, OF sim_advance [OF assms(1)]]) (use assms(2) in \<open>simp add: in_string_def\<close>)
  have b: "follows H (string_adds cs (advance k (advance j s))) (string_adds cs (advance k (advance j s2)))" for cs k j
    by (rule adds_second [where t = t, OF sim_advance [OF sim_advance [OF assms(1)]]]) (use assms(2) in \<open>simp add: in_string_def\<close>)
  show ?thesis
    using p a b by (simp add: string_unicode_def Let_def del: match_chars.simps split: sum.split option.split)
qed

lemma escape_second:
  assumes "sim H s s2" "in_string t s"
  shows "follows H (string_escape js b s) (string_escape js b s2)"
  using adds_second [OF assms] unicode_second [OF assms] by (simp add: string_escape_def string_add_adds del: string_adds.simps)

lemma fits_fits: "fits H s \<Longrightarrow> i < length (heap s) \<Longrightarrow> node_fits H s i \<and> i < length H"
  by (auto simp: fits_def)

text \<open>The closing quote.\<close>

lemma named_other:
  assumes "s_top s = Some t" "s_top s' = Some t" "below (heap s') = below (heap s)" "i \<noteq> t"
  shows "named s' i = named s i"
  using assms by (simp add: named_def pending_def)

lemma node_sim_named:
  assumes "node_sim H s i n" "jlength (heap s' ! i) = jlength (heap s ! i)"
    "jnames_size (heap s' ! i) = jnames_size (heap s ! i)"
    and "jtype (H ! i) = json_object \<Longrightarrow> named s' i \<Longrightarrow> named s i"
  shows "node_sim H s' i n"
  using assms by (auto simp: node_sim_def array_sim_def object_sim_def split: json_type.splits)

lemma string_nul_second:
  assumes "sim H s s2" "in_string t s" "fits H s"
  obtains x where "string_write NUL s2 = Fall x" "sim H s x" "t < length H" "t < length (heap s)"
    "s_top s = Some t" "jtype (H ! t) = jtype (heap s ! t)" "jtype (heap x ! t) = jtype (heap s ! t)"
    "node_sim H s t (heap x ! t)" "node_fits H s t"
proof -
  have t: "t < length (heap s)" "s_top s = Some t" using assms(2) by (auto simp: in_string_def)
  with assms(3) have f: "node_fits H s t" "t < length H" by (auto simp: fits_def)
  have "string_room H t s2 0"
    by (rule sim_string_room [OF assms(1)]) (use assms in \<open>auto simp: in_string_def\<close>)
  from string_write_second [OF assms(1) t(2,1) f(2) this, of NUL]
  obtain x where x: "string_write NUL s2 = Fall x" "sim H s x" by blast
  have ty: "jtype (H ! t) = jtype (heap s ! t)"
    using f(1) assms(2) by (auto simp: node_fits_def in_string_def)
  from sim_node [OF x(2) t(1) assms(3)] ty have "jtype (heap x ! t) = jtype (heap s ! t)" "node_sim H s t (heap x ! t)"
    by simp_all
  with that x t f ty show ?thesis by blast
qed

lemma close_value_second:
  assumes "sim H s s2" "in_string t s" "jtype (heap s ! t) = json_string" "fits H s"
  shows "follows H (string_close s) (string_close s2)"
proof -
  from string_nul_second [OF assms(1,2,4)] obtain x where x: "string_write NUL s2 = Fall x" "sim H s x" "t < length H"
    "t < length (heap s)" "s_top s = Some t" "jtype (H ! t) = jtype (heap s ! t)" "jtype (heap x ! t) = jtype (heap s ! t)"
    "node_sim H s t (heap x ! t)" by blast
  let ?c = "\<lambda>s. upd_flags (\<lambda>f. f\<lparr>flag_next := True\<rparr>)
     (upd_node t (\<lambda>n. n\<lparr>jlength := string_length s\<rparr>) (upd_flags (\<lambda>f. f\<lparr>flag_string := False\<rparr>) s))"
  have b: "below (heap (?c s)) = below (heap s)"
    by (simp add: heap_upd_node_flags below_upd_node keeps_shape_def)
  have "sim H (?c s) (?c x)"
  proof (rule sim_node_change [OF x(2) _ _ _ _ x(4,3)])
    show "in_step (?c s) (?c x)" using x(2) by (simp add: sim_def in_step_def)
    show "heap (?c x) = (heap x)[t := (heap x ! t)\<lparr>jlength := string_length x\<rparr>]" by (simp add: upd_node_def)
    show "s_alloc (?c x) = s_alloc x" by (simp add: upd_defs)
    show "node_sim H (?c s) t ((heap x ! t)\<lparr>jlength := string_length x\<rparr>)"
      using x(6,8) assms(3) by (simp add: node_sim_def)
    show "node_sim H (?c s) i (heap x ! i)" if "i < length (heap s)" "i \<noteq> t" "node_sim H s i (heap x ! i)" for i
      using that(2) named_other [OF x(5) _ b that(2)] x(5)
      by (intro node_sim_named [OF that(3)]) (simp_all add: upd_node_def)
  qed (simp_all add: same_shape_def)
  moreover have "string_close s = Fall (?c s)"
    using assms(2,3) by (simp add: string_close_def in_string_def Let_def)
  moreover have "string_close s2 = Fall (?c x)"
    using x(1,5,7) simD(1,2) [OF x(2)] simD(1) [OF assms(1)] assms(3) by (simp add: string_close_def Let_def)
  ultimately show ?thesis by auto
qed

lemma close_name_second:
  assumes "sim H s s2" "in_string t s" "jtype (heap s ! t) = json_object" "fits H s"
  shows "follows H (string_close s) (string_close s2)"
proof -
  from string_nul_second [OF assms(1,2,4)] obtain x where x: "string_write NUL s2 = Fall x" "sim H s x" "t < length H"
    "t < length (heap s)" "s_top s = Some t" "jtype (H ! t) = jtype (heap s ! t)" "jtype (heap x ! t) = jtype (heap s ! t)"
    "node_sim H s t (heap x ! t)" "node_fits H s t" by blast
  let ?f = "\<lambda>s. upd_flags (\<lambda>f. f\<lparr>flag_seek_value := True, flag_need_colon := True\<rparr>)
     (upd_flags (\<lambda>f. f\<lparr>flag_string := False\<rparr>) s)"
  let ?c = "upd_node t (\<lambda>n. n\<lparr>jnames_size := jnames_size n + string_length s + 1\<rparr>) (?f s)"
  let ?g = "\<lambda>n. n\<lparr>jentries := (jentries n)[jlength n := (jentries n ! jlength n)\<lparr>ename := Some (jobject_pos n),
              ename_length := string_length x\<rparr>], jobject_pos := jobject_pos n + string_length x + 1\<rparr>"
  let ?x = "upd_node t ?g (?f x)"
  have "pending s t" using assms(2,3) by (intro pending_top) (auto simp: in_string_def)
  then have room: "jlength (heap s ! t) < jlength (H ! t)" using x(9) assms(3) by (simp add: node_fits_def size_now_def)
  have o: "object_sim H s t (heap x ! t)" using x(6,8) assms(3) by (simp add: node_sim_def)
  have b: "below (heap ?c) = below (heap s)"
    by (simp add: heap_upd_node_flags below_upd_node keeps_shape_def)
  note sl = simD(5) [OF x(2)]
  have "sim H ?c ?x"
  proof (rule sim_node_change [OF x(2) _ _ _ _ x(4,3)])
    show "in_step ?c ?x" using x(2) by (simp add: sim_def in_step_def)
    show "heap ?x = (heap x)[t := ?g (heap x ! t)]" by (simp add: upd_node_def)
    show "s_alloc ?x = s_alloc x" by (simp add: upd_defs)
    show "node_sim H ?c t (?g (heap x ! t))"
      using o room x(3,4,6) assms(3) sl
      by (simp add: node_sim_def object_sim_def upd_node_nth)
    show "node_sim H ?c i (heap x ! i)" if "i < length (heap s)" "i \<noteq> t" "node_sim H s i (heap x ! i)" for i
      using that(2) named_other [OF x(5) _ b that(2)] x(5)
      by (intro node_sim_named [OF that(3)]) (simp_all add: upd_node_def)
  qed (simp_all add: same_shape_def)
  moreover have "string_close s = Continue ?c"
    using assms(2,3) by (simp add: string_close_def in_string_def Let_def)
  moreover have "string_close s2 = Continue ?x"
    using x(1,5,7) simD(1,2) [OF x(2)] simD(1) [OF assms(1)] assms(3) o room
    by (simp add: string_close_def Let_def object_sim_def)
  ultimately show ?thesis by auto
qed

lemma follows_fits:
  assumes "ends_grown s c" "fits H s \<Longrightarrow> follows H c c2"
  shows "follows H c c2"
proof (cases "fits H s")
  case False
  then have "\<not> fits H s'" if "grows s s'" for s' using that fits_grows by blast
  with assms(1) show ?thesis by (cases c) (auto simp: follows_def)
qed (use assms in simp)

lemma section_string_second:
  assumes "sim H s s2" "inv1 cfg js s" "rd js (ptr s) = Some b" "fits H s"
  shows "follows H (section_string js b s) (section_string js b s2)"
proof (cases "flag_string (flags s)")
  case True
  note d = simD [OF assms(1)]
  from True assms(2) obtain t where t: "in_string t s"
    by (auto simp: inv1_def top_fits_def in_string_def Let_def split: option.splits if_splits)
  let ?e = "upd_flags (\<lambda>f. f\<lparr>flag_escaped := False\<rparr>)"
  have e: "sim H (upd_flags (\<lambda>f. f\<lparr>flag_escaped := x\<rparr>) s) (upd_flags (\<lambda>f. f\<lparr>flag_escaped := x\<rparr>) s2)" for x
    by (rule sim_key [OF assms(1)]) (use assms(1) in \<open>simp_all add: sim_def in_step_def\<close>)
  have esc: "follows H (then_section (string_escape js b (?e s)) Continue) (then_section (string_escape js b (?e s2)) Continue)"
    by (rule follows_then [OF escape_second [where t = t, OF e]]) (use t in \<open>simp_all add: in_string_def grows_refl follows_same\<close>)
  have add: "follows H (then_section (string_add b s) Continue) (then_section (string_add b s2) Continue)"
    unfolding string_add_adds
    by (rule follows_then [OF adds_second [OF assms(1) t]]) (simp_all add: grows_refl follows_same)
  have "follows H (string_close s) (string_close s2)"
    using t close_value_second [OF assms(1) t _ assms(4)] close_name_second [OF assms(1) t _ assms(4)]
    by (auto simp: in_string_def)
  with esc add e d True show ?thesis by (simp add: section_string_def follows_same)
next
  case False
  then show ?thesis using assms(1) simD(8) [OF assms(1)] by (auto simp: section_string_def)
qed

section \<open>The end of a value\<close>

text \<open>The member \<open>t\<close> is stored in its parent.\<close>

definition attached :: "nat \<Rightarrow> json_node \<Rightarrow> json_node" where
  "attached t n =
     (if jtype n = json_object
      then n\<lparr>jentries := (jentries n)[jlength n := (jentries n ! jlength n)\<lparr>evalue := Some t\<rparr>]\<rparr>
      else n\<lparr>jvalues := (jvalues n)[jlength n := Some t]\<rparr>)\<lparr>jlength := jlength n + 1\<rparr>"

lemma attached_sim:
  assumes "node_sim H s p n" "jtype n = jtype (H ! p)" "container (jtype n)" "jlength (heap s ! p) < jlength (H ! p)"
    and "named s p" "p < t" "t < length H"
    and "jlength (heap s' ! p) = jlength (heap s ! p) + 1" "jnames_size (heap s' ! p) = jnames_size (heap s ! p)"
    and "jtype n = json_object \<Longrightarrow> \<not> named s' p"
  shows "node_sim H s' p (attached t n)"
proof (cases "jtype n = json_object")
  case True
  with assms(1,2,4) have o: "object_sim H s p n" "jlength n < length (jentries n)"
    by (auto simp: node_sim_def object_sim_def)
  have "ename (jentries (attached t n) ! k) \<noteq> None \<and> (\<exists>c. evalue (jentries (attached t n) ! k) = Some c \<and> p < c \<and> c < length H)"
    if "k < jlength n + 1" for k
    using o assms(5-7) that True by (cases "k = jlength n") (auto simp: object_sim_def attached_def)
  moreover have "jlength (attached t n) = jlength n + 1" "length (jentries (attached t n)) = length (jentries n)"
    "jobject_mem (attached t n) = jobject_mem n" "jobject_pos (attached t n) = jobject_pos n"
    using True by (simp_all add: attached_def)
  ultimately have "object_sim H s' p (attached t n)"
    using o(1) assms(8,9) assms(10) [OF True] by (simp add: object_sim_def)
  then show ?thesis using True assms(2) by (simp add: node_sim_def)
next
  case False
  with assms have ty: "jtype (H ! p) = json_array" by simp
  with assms(1,4) have o: "array_sim H s p n" "jlength n < length (jvalues n)"
    by (auto simp: node_sim_def array_sim_def)
  have "\<exists>c. jvalues (attached t n) ! k = Some c \<and> p < c \<and> c < length H" if "k < jlength n + 1" for k
    using o assms(6,7) that False by (cases "k = jlength n") (simp_all add: array_sim_def attached_def)
  moreover have "jlength (attached t n) = jlength n + 1" "length (jvalues (attached t n)) = length (jvalues n)"
    using False by (simp_all add: attached_def)
  ultimately have "array_sim H s' p (attached t n)"
    using o(1) assms(8) by (simp add: array_sim_def)
  then show ?thesis using ty by (simp add: node_sim_def)
qed

lemma section_next_attach:
  assumes "\<not> first_pass s" "flag_next (flags s)" "s_top s = Some t" "jparent (heap s ! t) = Some p" "p < length (heap s)"
    "container (jtype (heap s ! p))" "\<not> uint_max < jlength (heap s ! p) + 1"
    and "jtype (heap s ! p) = json_object \<Longrightarrow> jlength (heap s ! p) < length (jentries (heap s ! p))"
      "jtype (heap s ! p) = json_array \<Longrightarrow> jlength (heap s ! p) < length (jvalues (heap s ! p))"
  shows "section_next s =
    Continue ((if jtype (heap s ! p) = json_array
        then upd_flags (\<lambda>f. f\<lparr>flag_seek_value := True\<rparr>) (upd_flags (\<lambda>f. f\<lparr>flag_next := False, flag_need_comma := True\<rparr>) s)
        else upd_flags (\<lambda>f. f\<lparr>flag_next := False, flag_need_comma := True\<rparr>) s)
      \<lparr>heap := (heap s)[p := attached t (heap s ! p)], s_top := Some p\<rparr>)"
proof (cases "jtype (heap s ! p) = json_array")
  case True
  with assms show ?thesis
    by (simp add: section_next_def attach_def Let_def upd_node_def attached_def)
next
  case False
  with assms(6) have "jtype (heap s ! p) = json_object" by simp
  with assms show ?thesis
    by (simp add: section_next_def attach_def Let_def upd_node_def attached_def)
qed

lemma next_steps:
  assumes "sim H s s2" "tail_ready s" "fits H s"
  shows "(\<exists>e z. section_next s = Failed e z) \<or> section_next s = Fall s \<and> section_next s2 = Fall s2 \<or>
    (\<exists>z z2. section_next s = Continue z \<and> section_next s2 = Continue z2 \<and> sim H z z2)"
proof (cases "flag_next (flags s)")
  case True
  note d = simD [OF assms(1)]
  let ?f = "\<lambda>f. f\<lparr>flag_next := False, flag_need_comma := True\<rparr>"
  from True assms(2) obtain t where t: "s_top s = Some t" "t < length (heap s)" and r: "\<not> flag_string (flags s)"
    "\<not> flag_seek_value (flags s)" "heap_ok s" "first_pass s" by (auto simp: tail_ready_def)
  from sim_node [OF assms(1) t(2) assms(3)] have par: "jparent (heap s2 ! t) = jparent (heap s ! t)" "t < length H"
    by auto
  show ?thesis
  proof (cases "jparent (heap s ! t)")
    case None
    have "sim H (upd_flags (\<lambda>f. f\<lparr>flag_done := True\<rparr>) (upd_flags ?f s)) (upd_flags (\<lambda>f. f\<lparr>flag_done := True\<rparr>) (upd_flags ?f s2))"
      by (rule sim_key [OF assms(1)]) (use assms(1) in \<open>simp_all add: sim_def in_step_def\<close>)
    then show ?thesis using True None t par d by (auto simp: section_next_def)
  next
    case (Some p)
    then have p: "p < t" "container (jtype (heap s ! p))" "p < length (heap s)"
      using r(3) t(2) by (auto simp: heap_ok_def node_ok_def)
    note n = sim_node [OF assms(1) p(3) assms(3)]
    have ty: "jtype (heap s2 ! p) = jtype (heap s ! p)" "jtype (heap s2 ! p) = jtype (H ! p)"
      using n(1,4) p(2) by (auto simp: node_fits_def)
    have b: "below (heap s) p t" using below_parent [OF t(2) Some] by simp
    then have "pending s p" using t by (simp add: pending_def)
    then have nm: "named s p" and room: "jlength (heap s ! p) < jlength (H ! p)"
      using n(4) p r(1) by (auto simp: named_def node_fits_def size_now_def)
    define y where "y = (\<lambda>z. if jtype (heap s ! p) = json_array
        then upd_flags (\<lambda>f. f\<lparr>flag_seek_value := True\<rparr>) (upd_flags ?f z) else upd_flags ?f z)"
    have y: "heap (y z) = heap z" "s_alloc (y z) = s_alloc z" "first_pass (y z) = first_pass z"
      "flag_string (flags (y z)) = flag_string (flags z)"
      "flag_seek_value (flags (y z)) = (flag_seek_value (flags z) \<or> jtype (heap s ! p) = json_array)" for z
      by (simp_all add: y_def)
    define z1 where "z1 = (upd_node p (\<lambda>n. n\<lparr>jlength := jlength n + 1\<rparr>) (y s))\<lparr>s_top := Some p\<rparr>"
    define z2 where "z2 = (y s2)\<lparr>heap := (heap s2)[p := attached t (heap s2 ! p)], s_top := Some p\<rparr>"
    have z1: "heap z1 = heap (upd_node p (\<lambda>n. n\<lparr>jlength := jlength n + 1\<rparr>) s)" "s_top z1 = Some p"
      "length (heap z1) = length (heap s)" "\<not> flag_string (flags z1)"
      "flag_seek_value (flags z1) \<longleftrightarrow> jtype (heap s ! p) = json_array"
      using r by (simp_all add: z1_def y_def upd_node_def)
    have nth: "heap z1 ! i = (if i = p then (heap s ! p)\<lparr>jlength := jlength (heap s ! p) + 1\<rparr> else heap s ! i)" for i
      using p(3) by (simp add: z1(1) upd_node_nth)
    have bz: "below (heap z1) = below (heap s)" by (simp add: z1(1) below_upd_node keeps_shape_def)
    have nz: "named z1 i \<Longrightarrow> named s i" if "i \<noteq> p" for i
      using that z1(2-) below_parent [OF t(2) Some, of i] t(1) r(1) by (auto simp: named_def pending_def bz)
    have "sim H z1 z2"
    proof (rule sim_node_change [OF assms(1) _ z1(3) _ _ p(3)])
      show "in_step z1 z2" using assms(1) by (simp add: sim_def in_step_def z1_def z2_def y_def)
      show "node_sim H z1 p (attached t (heap s2 ! p))"
      proof (rule attached_sim [OF n(3) ty(2) _ room nm p(1) par(2)])
        show "\<not> named z1 p" if "jtype (heap s2 ! p) = json_object"
          using that z1(2-) ty below_less [OF r(3), of p p] by (auto simp: named_def pending_def bz)
      qed (use p ty nth in simp_all)
      show "node_sim H z1 i (heap s2 ! i)" if "i \<noteq> p" "node_sim H s i (heap s2 ! i)" for i
        by (rule node_sim_named [OF that(2)]) (use that nth nz in simp_all)
    qed (use n y in \<open>simp_all add: z2_def same_shape_def attached_def\<close>)
    moreover have "section_next s = (if uint_max < jlength (heap s ! p) + 1 then Failed Too_long (z1\<lparr>s_top := Some t\<rparr>) else Continue z1)"
      using True t Some r p by (simp add: section_next_def attach_def Let_def z1_def y_def upd_node_nth upd_node_def)
    moreover have "section_next s2 = Continue z2" if "\<not> uint_max < jlength (heap s ! p) + 1"
    proof -
      have a: "jlength (heap s2 ! p) = jlength (heap s ! p)" "jtype (heap s2 ! p) = json_object \<Longrightarrow> jlength (heap s2 ! p) < length (jentries (heap s2 ! p))"
        "jtype (heap s2 ! p) = json_array \<Longrightarrow> jlength (heap s2 ! p) < length (jvalues (heap s2 ! p))"
        using n(3) room ty p(2) by (auto simp: node_sim_def array_sim_def object_sim_def)
      have c: "jparent (heap s2 ! t) = Some p" "s_top s2 = Some t" "flag_next (flags s2)" "\<not> first_pass s2"
        "p < length (heap s2)" "container (jtype (heap s2 ! p))"
        using par Some d t True n(5) p(2) ty by simp_all
      have "\<not> uint_max < jlength (heap s2 ! p) + 1" using that a(1) by simp
      from section_next_attach [OF c(4,3,2,1,5,6) this a(2,3)] show ?thesis by (simp add: z2_def y_def ty)
    qed
    ultimately show ?thesis by auto
  qed
next
  case False
  then show ?thesis using assms(1) simD(6) [OF assms(1)] by (auto simp: section_next_def)
qed

lemma next_second:
  assumes "sim H s s2" "tail_ready s" "fits H s"
  shows "follows H (section_next s) (section_next s2)"
  using next_steps [OF assms] assms(1) by auto

lemma tail_second:
  assumes "sim H s s2" "tail_ready s" "fits H s"
  shows "follows H (section_tail s) (section_tail s2)"
proof -
  let ?r = "\<lambda>s. advance (- 1) (upd_flags (\<lambda>f. f\<lparr>flag_reproc := False\<rparr>) s)"
  have r: "sim H (?r s) (?r s2)"
    by (rule sim_key [OF assms(1)]) (use assms(1) in \<open>simp_all add: sim_def in_step_def\<close>)
  have "grows (?r s) s" by (rule grows_key) simp_all
  then have "follows H (section_next (?r s)) (section_next (?r s2))"
    using assms by (intro next_second [OF r] fits_grows [of "?r s" s]) (simp_all add: tail_ready_def)
  then show ?thesis
    using next_second [OF assms] simD(7) [OF assms(1)] by (simp add: section_tail_def section_reproc_def)
qed

section \<open>A new value\<close>

text \<open>The node with the buffers that the second pass gives it.\<close>

definition fresh :: "json_node \<Rightarrow> json_node" where
  "fresh n =
     (case jtype n of
        json_array \<Rightarrow> if jlength n = 0 then n else n\<lparr>jvalues := replicate (jlength n) None, jlength := 0\<rparr>
      | json_object \<Rightarrow> if jlength n = 0 then n
          else n\<lparr>jentries := replicate (jlength n) json_entry_uninit, jobject_mem := replicate (jnames_size n) None,
                 jobject_pos := 0, jlength := 0\<rparr>
      | json_string \<Rightarrow> n\<lparr>jptr := replicate (jlength n + 1) None, jlength := 0\<rparr>
      | _ \<Rightarrow> n)"

definition opened :: "nat \<Rightarrow> jst \<Rightarrow> jst" where
  "opened v s = s\<lparr>heap := (heap s)[v := fresh (heap s ! v)], s_top := Some v, s_alloc := jnext_alloc (heap s ! v),
                  s_root := (if s_root s = None then Some v else s_root s)\<rparr>"

lemma new_value_opened:
  assumes "\<not> first_pass s" "s_alloc s = Some v" "v < length (heap s)"
  shows "exits (\<lambda>x. \<exists>u m. x = (opened v s)\<lparr>used_memory := u, s_mem := m\<rparr>) (\<lambda>_. False) (\<lambda>_. False)
           (\<lambda>e. e = Memory_allocation_failure) (new_value cfg ty s)"
proof -
  let ?n = "heap s ! v"
  obtain x where x: "x = s\<lparr>s_top := Some v, s_alloc := jnext_alloc ?n, s_root := (if s_root s = None then Some v else s_root s)\<rparr>"
    by simp
  have fill: "\<exists>u m. upd_node v f y = (opened v s)\<lparr>used_memory := u, s_mem := m\<rparr>"
    if "json_alloc cfg k x = (True, y)" "f ?n = fresh ?n" for k y f
  proof -
    from json_alloc_state [OF that(1)] obtain u m where "y = x\<lparr>used_memory := u, s_mem := m\<rparr>" by blast
    then show ?thesis using that(2) by (intro exI [of _ u] exI [of _ m]) (simp add: x upd_node_def opened_def)
  qed
  have same: "\<exists>u m. x = (opened v s)\<lparr>used_memory := u, s_mem := m\<rparr>" if "fresh ?n = ?n"
    using that by (intro exI [of _ "used_memory s"] exI [of _ "s_mem s"]) (simp add: x opened_def)
  have alloc: "exits (\<lambda>x. \<exists>u m. x = (opened v s)\<lparr>used_memory := u, s_mem := m\<rparr>) (\<lambda>_. False) (\<lambda>_. False)
      (\<lambda>e. e = Memory_allocation_failure)
      (case json_alloc cfg k x of (ok, y) \<Rightarrow> if ok then Fall (upd_node v f y) else Failed Memory_allocation_failure y)"
    if "f ?n = fresh ?n" for k f
    using fill [where f = f and k = k] that by (cases "json_alloc cfg k x") auto
  have "new_value cfg ty s =
     (case jtype ?n of
        json_array \<Rightarrow>
          if jlength ?n = 0 then Fall x
          else (case json_alloc cfg (jlength ?n * sizeof_pointer) x of (ok, y) \<Rightarrow>
            if ok then Fall (upd_node v (\<lambda>n. n\<lparr>jvalues := replicate (jlength ?n) None, jlength := 0\<rparr>) y)
            else Failed Memory_allocation_failure y)
      | json_object \<Rightarrow>
          if jlength ?n = 0 then Fall x
          else (case json_alloc cfg (sizeof_entry * jlength ?n + jnames_size ?n) x of (ok, y) \<Rightarrow>
            if ok then Fall (upd_node v (\<lambda>n. n\<lparr>jentries := replicate (jlength ?n) json_entry_uninit,
                 jobject_mem := replicate (jnames_size ?n) None, jobject_pos := 0, jlength := 0\<rparr>) y)
            else Failed Memory_allocation_failure y)
      | json_string \<Rightarrow>
          (case json_alloc cfg (jlength ?n + 1) x of (ok, y) \<Rightarrow>
            if ok then Fall (upd_node v (\<lambda>n. n\<lparr>jptr := replicate (jlength ?n + 1) None, jlength := 0\<rparr>) y)
            else Failed Memory_allocation_failure y)
      | _ \<Rightarrow> Fall x)"
    unfolding new_value_def assms(2) option.case Let_def x using assms(1) by (simp only: if_True simp_thms)
  then show ?thesis
    using same alloc by (cases "jtype ?n") (simp_all add: fresh_def)
qed

text \<open>In the final store the nodes are linked in order.\<close>

definition linked :: "json_node list \<Rightarrow> bool" where
  "linked H \<longleftrightarrow> (\<forall>i < length H. jnext_alloc (H ! i) = (if Suc i < length H then Some (Suc i) else None))"

lemma heap_ok_linked: "heap_ok s \<Longrightarrow> linked (heap s)"
  by (simp add: heap_ok_def linked_def node_ok_def)

lemma fresh_sim:
  assumes "jlength (heap s ! v) = 0" "jnames_size (heap s ! v) = 0" "jtype (H ! v) = json_object \<Longrightarrow> \<not> named s v"
  shows "node_sim H s v (fresh (H ! v))"
  using assms
  by (cases "jtype (H ! v)") (simp_all add: node_sim_def fresh_def array_sim_def object_sim_def)

lemma same_shape_refl [simp]: "same_shape n n"
  by (simp add: same_shape_def)

lemma fresh_shape: "same_shape n (fresh n)"
  by (simp add: same_shape_def fresh_def split: json_type.split)

lemma grown_last: "jlength (heap (grown ty s) ! length (heap s)) = 0 \<and> jnames_size (heap (grown ty s) ! length (heap s)) = 0"
  by (simp add: grown_def nth_append json_calloc_def)

lemma sim_new:
  assumes "sim H s s2" "heap_ok s" "\<And>t. s_top s = Some t \<Longrightarrow> t < length (heap s)" "\<not> flag_string (flags s)"
    "flag_seek_value (flags s)" "v = length (heap s)" "linked H"
    and "heap s' = heap (grown ty s)" "s_top s' = Some v" "fits H s'"
    and "heap s2' = (heap s2)[v := fresh (heap s2 ! v)]" "s_alloc s2' = jnext_alloc (heap s2 ! v)" "in_step s' s2'"
    and "ty = json_object \<Longrightarrow> \<not> flag_string (flags s') \<and> \<not> flag_seek_value (flags s')"
  shows "sim H s' s2'"
proof -
  have l: "length (heap s') = Suc v" using assms(6,8) by simp
  have v: "v < length H" and nf: "node_fits H s' v" using assms(10) l by (auto simp: fits_def)
  have tv: "jtype (heap s' ! v) = ty" using assms(6,8) by simp
  have h: "length (heap s2) = length H" "heap s2 ! v = H ! v"
    "\<And>i. i < v \<Longrightarrow> node_sim H s i (heap s2 ! i)" "\<And>i. i < length H \<Longrightarrow> same_shape (H ! i) (heap s2 ! i)"
    "\<And>i. v < i \<Longrightarrow> i < length H \<Longrightarrow> heap s2 ! i = H ! i"
    using assms(1,6) v by (auto simp: sim_def sim_heap_def)
  have b: "below (heap s') i v \<longleftrightarrow> (\<exists>p. s_top s = Some p \<and> (i = p \<or> below (heap s) i p))" for i
    using below_grown [OF assms(2,3), of ty i v] assms(6,8) by simp
  have nv: "\<not> named s' v" if "jtype (H ! v) = json_object"
  proof -
    have "ty = json_object" using that nf tv by (auto simp: node_fits_def)
    moreover have "\<not> below (heap s') v v"
      using b assms(3,6) below_less [OF assms(2)] by fastforce
    ultimately show ?thesis using assms(9,14) by (simp add: named_def pending_def)
  qed
  have "node_sim H s' i (heap s2 ! i)" if "i < v" for i
  proof (rule node_sim_named [OF h(3) [OF that]])
    show "jlength (heap s' ! i) = jlength (heap s ! i)" "jnames_size (heap s' ! i) = jnames_size (heap s ! i)"
      using grown_nth [of i s ty] that assms(6,8) by simp_all
    assume obj: "jtype (H ! i) = json_object" and "named s' i"
    then have "below (heap s') i v" using assms(9) that by (simp add: named_def pending_def)
    moreover have "jtype (heap s ! i) = json_object"
    proof -
      have "node_fits H s' i" using assms(10) that l by (simp add: fits_def)
      then show ?thesis using obj grown_nth [of i s ty] that assms(6,8) by (auto simp: node_fits_def)
    qed
    ultimately show "named s i" using b assms(4,5) by (auto simp: named_def pending_def)
  qed
  moreover have "node_sim H s' v (fresh (H ! v))"
    by (rule fresh_sim) (use grown_last [of ty s] assms(6,8) nv in simp_all)
  ultimately have "sim_heap H s' (heap s2')"
    using h fresh_shape [of "H ! v"] v unfolding sim_heap_def assms(11) l
    by (auto simp: nth_list_update less_Suc_eq)
  moreover have "s_alloc s2' = (if length (heap s') < length H then Some (length (heap s')) else None)"
    using assms(7,12) h(2) v l by (simp add: linked_def)
  ultimately show ?thesis using assms(13) by (simp add: sim_def)
qed

end
