(* ===== verification/Json_Safety.thy ===== *)
theory Json_Safety
  imports Json_Second
begin

text \<open>
  The parser as a whole: the second pass follows the first through the sections of the body and
  through the loop, and what this means for \<open>json_parse_ex\<close>: it ends, it makes no access of
  its own outside the text or a buffer, and when memory suffices it fails only on a text that
  the first pass rejects.
\<close>

section \<open>Seeking a value in both passes\<close>

definition new_pair :: "json_node list \<Rightarrow> json_type \<Rightarrow> int \<Rightarrow> jst \<Rightarrow> jst \<Rightarrow> jst \<Rightarrow> jst \<Rightarrow> bool" where
  "new_pair H ty j s s2 x1 x2 \<longleftrightarrow>
     in_step x1 x2 \<and> length (heap s) < length H \<and>
     heap x1 = heap (grown ty s) \<and> s_top x1 = Some (length (heap s)) \<and> flags x1 = flags (unseek s) \<and>
     ptr x1 = ptr s + j \<and> first_pass x1 \<and>
     heap x2 = (heap s2)[length (heap s) := fresh (heap s2 ! length (heap s))] \<and>
     s_alloc x2 = jnext_alloc (heap s2 ! length (heap s))"

lemma new_both:
  assumes "seeking cfg js s" "sim H s s2"
  obtains (failed) z where "new_value cfg ty (advance j (unseek s)) = Failed Memory_allocation_failure z"
  | (alone) x1 where "new_value cfg ty (advance j (unseek s)) = Fall x1" "length (heap x1) = Suc (length (heap s))"
      "\<not> length (heap s) < length H"
  | (failed2) x1 z where "new_value cfg ty (advance j (unseek s)) = Fall x1"
      "new_value cfg ty (advance j (unseek s2)) = Failed Memory_allocation_failure z"
  | (both) x1 x2 u m where "new_value cfg ty (advance j (unseek s)) = Fall x1" "new_value cfg ty (advance j (unseek s2)) = Fall x2"
      "new_pair H ty j s s2 x1 x2" "x1 = (grown ty (advance j (unseek s)))\<lparr>used_memory := u, s_mem := m\<rparr>"
proof -
  let ?v = "length (heap s)" and ?a = "\<lambda>s. advance j (unseek s)"
  note plain = seeking_plain [OF assms(1)] and d = simD [OF assms(2)]
  have one: "exits (\<lambda>x. \<exists>u m. x = (grown ty (?a s))\<lparr>used_memory := u, s_mem := m\<rparr>) (\<lambda>_. False) (\<lambda>_. False)
      (\<lambda>e. e = Memory_allocation_failure) (new_value cfg ty (?a s))"
    by (rule new_value_first) (use plain in simp_all)
  show ?thesis
  proof (cases "new_value cfg ty (?a s)")
    case (Fall x1)
    with one obtain u m where x1: "x1 = (grown ty (?a s))\<lparr>used_memory := u, s_mem := m\<rparr>" by auto
    then have len: "length (heap x1) = Suc ?v" by simp
    show ?thesis
    proof (cases "?v < length H")
      case True
      then have al: "s_alloc (?a s2) = Some ?v" "?v < length (heap (?a s2))"
        using assms(2) d by (auto simp: sim_def)
      have two: "exits (\<lambda>x. \<exists>u m. x = (opened ?v (?a s2))\<lparr>used_memory := u, s_mem := m\<rparr>) (\<lambda>_. False) (\<lambda>_. False)
          (\<lambda>e. e = Memory_allocation_failure) (new_value cfg ty (?a s2))"
        by (rule new_value_opened) (use al d in simp_all)
      show ?thesis
      proof (cases "new_value cfg ty (?a s2)")
        case F2: (Fall x2)
        with two obtain u2 m2 where x2: "x2 = (opened ?v (?a s2))\<lparr>used_memory := u2, s_mem := m2\<rparr>" by auto
        have "s_root s = (if ?v = 0 then None else Some 0)" using plain(2) by (simp add: heap_ok_def)
        then have "new_pair H ty j s s2 x1 x2"
          using True assms(2) plain d x1 x2 grown_cong [of "?a s" s ty]
          by (auto simp: new_pair_def in_step_def opened_def grown_def)
        from both [OF Fall F2 this x1] show ?thesis .
      qed (use two failed2 [OF Fall] in auto)
    qed (use alone [OF Fall len] in simp)
  qed (use one failed in auto)
qed

lemma new_second:
  assumes "seeking cfg js s" "sim H s s2"
    and "\<And>x1 x2. new_pair H ty j s s2 x1 x2 \<Longrightarrow> follows H (k1 x1) (k2 x2)"
    and "\<And>x1. length (heap x1) = Suc (length (heap s)) \<Longrightarrow>
       exits (\<lambda>y. length (heap y) = Suc (length (heap s))) (\<lambda>y. length (heap y) = Suc (length (heap s))) (\<lambda>_. False) (\<lambda>_. True) (k1 x1)"
  shows "follows H (then_section (new_value cfg ty (advance j (unseek s))) k1)
           (then_section (new_value cfg ty (advance j (unseek s2))) k2)"
  using assms(1,2)
proof (cases rule: new_both [of cfg js s H s2 ty j])
  case (alone x1)
  with assms(4) [OF alone(2)] show ?thesis by (cases "k1 x1") (auto simp: follows_def fits_def)
next
  case (both x1 x2)
  with assms(3) [OF both(3)] show ?thesis by simp
qed simp_all

lemma new_pair_sim:
  assumes "seeking cfg js s" "sim H s s2" "linked H" "new_pair H ty j s s2 x1 x2"
    and "in_step y1 y2" "heap y1 = heap x1" "heap y2 = heap x2" "s_top y1 = s_top x1" "s_alloc y2 = s_alloc x2" "fits H y1"
    and "ty = json_object \<Longrightarrow> \<not> flag_string (flags y1) \<and> \<not> flag_seek_value (flags y1)"
  shows "sim H y1 y2"
  by (rule sim_new [OF assms(2) seeking_plain(2) [OF assms(1)] seeking_top [OF assms(1)] seeking_plain(3) [OF assms(1)]
        seeking_plain(9) [OF assms(1)] refl assms(3)])
     (use assms in \<open>auto simp: new_pair_def\<close>)

lemma mild_upd_node:
  assumes "keeps_shape f" "\<And>n. jtype (f n) = jtype n \<and> jlength (f n) = jlength n \<and> jnames_size (f n) = jnames_size n"
  shows "jtype (heap (upd_node t f x) ! i) = jtype (heap x ! i)" "jlength (heap (upd_node t f x) ! i) = jlength (heap x ! i)"
    "jnames_size (heap (upd_node t f x) ! i) = jnames_size (heap x ! i)"
    "pending (upd_node t f x) i = pending x i" "named (upd_node t f x) i = named x i"
    "grows x (upd_node t f x)"
proof -
  let ?y = "upd_node t f x"
  have b: "below (heap ?y) = below (heap x)" using assms(1) by (simp add: below_upd_node)
  have n: "jtype (heap ?y ! i) = jtype (heap x ! i) \<and> jlength (heap ?y ! i) = jlength (heap x ! i) \<and>
      jnames_size (heap ?y ! i) = jnames_size (heap x ! i) \<and> jparent (heap ?y ! i) = jparent (heap x ! i)" for i
    using assms by (cases "t < length (heap x)"; cases "i = t")
      (auto simp: upd_node_def keeps_shape_def not_less list_update_beyond)
  have p: "pending ?y i = pending x i" for i using n by (simp add: pending_def b split: option.split)
  then have "grows x ?y" using n by (simp add: grows_def node_grows_def size_now_def names_now_def)
  with n p show "jtype (heap ?y ! i) = jtype (heap x ! i)" "jlength (heap ?y ! i) = jlength (heap x ! i)"
    "jnames_size (heap ?y ! i) = jnames_size (heap x ! i)" "pending ?y i = pending x i" "named ?y i = named x i" "grows x ?y"
    by (simp_all add: named_def)
qed

text \<open>A literal: the new node may be changed, then the value is at its end.\<close>

lemma literal_second:
  assumes "seeking cfg js s" "sim H s s2" "linked H" "new_pair H ty j s s2 x1 x2" "ty \<noteq> json_object"
    and "keeps_shape f" "\<And>n. jtype (f n) = jtype n \<and> jlength (f n) = jlength n \<and> jnames_size (f n) = jnames_size n"
    and "\<And>n H s i. node_sim H s i (f n) = node_sim H s i n"
  shows "follows H (mark_next (upd_node (length (heap s)) f x1)) (mark_next (upd_node (length (heap s)) f x2))"
  unfolding mark_next_def
proof (rule follows_FallI)
  let ?v = "length (heap s)" and ?m = "upd_flags (\<lambda>f. f\<lparr>flag_next := True\<rparr>)"
  let ?y1 = "upd_node ?v f x1" and ?y2 = "upd_node ?v f x2"
  note mild = mild_upd_node [OF assms(6,7)]
  assume fit: "fits H (?m ?y1)"
  have "grows ?y1 (?m ?y1)" by (rule grows_key) simp_all
  with mild(6) have g: "grows x1 (?m ?y1)" by (rule grows_trans)
  then have sim: "sim H x1 x2"
    using new_pair_sim [OF assms(1-4), of x1 x2] assms(4,5) fits_grows [OF g fit] by (simp add: new_pair_def)
  have v: "?v < length (heap x1)" "?v < length H" using assms(4) by (simp_all add: new_pair_def)
  have same: "node_sim H ?y1 i n" if "node_sim H x1 i n" for i n
    by (rule node_sim_named [OF that]) (simp_all add: mild)
  have "sim H ?y1 ?y2"
  proof (rule sim_node_change [OF sim _ _ _ _ v])
    show "heap ?y2 = (heap x2)[?v := f (heap x2 ! ?v)]" by (simp add: upd_node_def)
    show "in_step ?y1 ?y2" using sim by (simp add: sim_def in_step_def)
    have "node_sim H x1 ?v (heap x2 ! ?v)" using sim v by (auto simp: sim_def sim_heap_def)
    then show "node_sim H ?y1 ?v (f (heap x2 ! ?v))" using same assms(8) by simp
  qed (use assms(6,7) same in \<open>simp_all add: same_shape_def keeps_shape_def\<close>)
  then have "sim H (?m ?y1) (?m ?y2)"
    by (rule sim_key) (use \<open>sim H ?y1 ?y2\<close> in \<open>simp_all add: sim_def in_step_def\<close>)
  then show "\<exists>s2. Fall (?m ?y2) = Fall s2 \<and> sim H (?m ?y1) s2" by simp
qed

lemma seek_literal_second:
  assumes "seeking cfg js s" "sim H s s2"
    and "\<And>x1 x2. new_pair H ty (int (length rest)) s s2 x1 x2 \<Longrightarrow> follows H (k1 x1) (k2 x2)"
    and "\<And>x1. length (heap x1) = Suc (length (heap s)) \<Longrightarrow>
       exits (\<lambda>y. length (heap y) = Suc (length (heap s))) (\<lambda>y. length (heap y) = Suc (length (heap s))) (\<lambda>_. False) (\<lambda>_. True) (k1 x1)"
  shows "follows H (then_section (seek_literal cfg js rest ty (unseek s)) k1)
           (then_section (seek_literal cfg js rest ty (unseek s2)) k2)"
  using new_second [OF assms] simD(4) [OF assms(2)]
  by (simp add: seek_literal_def split: option.split)

definition starts_number :: "char \<Rightarrow> jst \<Rightarrow> bool" where
  "starts_number b s \<longleftrightarrow>
     flag_seek_value (flags s) \<and> \<not> flag_need_comma (flags s) \<and> \<not> flag_need_colon (flags s) \<and> (isdigit b \<or> b = CHR ''-'')"

lemma seek_start_second:
  assumes "seeking cfg js s" "sim H s s2" "linked H" "\<not> (isdigit b \<or> b = CHR ''-'')"
  shows "follows H (seek_start cfg js b (unseek s)) (seek_start cfg js b (unseek s2))"
proof -
  note new = new_second [OF assms(1,2), where j = 0, simplified]
  note pair = new_pair_sim [OF assms(1-3)]
  have seek: "follows H (Continue (upd_flags g (x1\<lparr>string_length := n\<rparr>))) (Continue (upd_flags g (x2\<lparr>string_length := n\<rparr>)))"
    if "new_pair H ty 0 s s2 x1 x2" "ty = json_object \<Longrightarrow> g = id" "g = id \<or> g = (\<lambda>f. f\<lparr>flag_seek_value := True\<rparr>) \<or> g = (\<lambda>f. f\<lparr>flag_string := True\<rparr>)"
    for ty x1 x2 g n
  proof (rule follows_ContinueI)
    assume fit: "fits H (upd_flags g (x1\<lparr>string_length := n\<rparr>))"
    have "in_step (upd_flags g (x1\<lparr>string_length := n\<rparr>)) (upd_flags g (x2\<lparr>string_length := n\<rparr>))"
      using that(1,3) by (elim disjE) (simp_all add: new_pair_def in_step_def)
    moreover have "flags x1 = flags (unseek s)" using that(1) by (simp add: new_pair_def)
    ultimately have "sim H (upd_flags g (x1\<lparr>string_length := n\<rparr>)) (upd_flags g (x2\<lparr>string_length := n\<rparr>))"
      using fit that(2) seeking_plain(3) [OF assms(1)] by (intro pair [OF that(1)]) simp_all
    then show "\<exists>y. Continue (upd_flags g (x2\<lparr>string_length := n\<rparr>)) = Continue y \<and> sim H (upd_flags g (x1\<lparr>string_length := n\<rparr>)) y"
      by simp
  qed
  have plain: "follows H (Continue (upd_flags g x1)) (Continue (upd_flags g x2))"
    if "new_pair H ty 0 s s2 x1 x2" "ty = json_object \<Longrightarrow> g = id" "g = id \<or> g = (\<lambda>f. f\<lparr>flag_seek_value := True\<rparr>)"
    for ty x1 x2 g
  proof -
    have l: "string_length x2 = string_length x1" using that(1) by (simp add: new_pair_def in_step_def)
    have "x2\<lparr>string_length := string_length x1\<rparr> = x2" unfolding l [symmetric] by simp
    with seek [OF that(1), of g "string_length x1"] that(2,3) show ?thesis by auto
  qed
  have lit: "follows H (then_section (seek_literal cfg js rest ty (unseek s)) mark_next)
      (then_section (seek_literal cfg js rest ty (unseek s2)) mark_next)" if "ty \<noteq> json_object" for rest ty
    by (rule seek_literal_second [OF assms(1,2)])
       (use literal_second [OF assms(1-3) _ that, where f = id] in \<open>simp_all add: upd_node_id keeps_shape_def mark_next_def\<close>)
  have tr: "follows H (then_section (then_section (seek_literal cfg js rest json_boolean (unseek s)) set_boolean) mark_next)
      (then_section (then_section (seek_literal cfg js rest json_boolean (unseek s2)) set_boolean) mark_next)" for rest
  proof -
    let ?k = "\<lambda>x. then_section (set_boolean x) mark_next" and ?f = "\<lambda>n. n\<lparr>jboolean := True\<rparr>"
    have assoc: "then_section (then_section c set_boolean) mark_next = then_section c ?k" for c by (cases c) simp_all
    have k: "s_top x = Some (length (heap s)) \<Longrightarrow> ?k x = mark_next (upd_node (length (heap s)) ?f x)" for x
      by (simp add: set_boolean_def)
    have nb: "node_sim H s i (?f n) = node_sim H s i n" for H s i n by (rule node_sim_buffer) simp_all
    have "follows H (then_section (seek_literal cfg js rest json_boolean (unseek s)) ?k)
        (then_section (seek_literal cfg js rest json_boolean (unseek s2)) ?k)"
    proof (rule seek_literal_second [OF assms(1,2)])
      fix x1 x2 assume p: "new_pair H json_boolean (int (length rest)) s s2 x1 x2"
      then have "s_top x1 = Some (length (heap s))" "s_top x2 = Some (length (heap s))"
        by (simp_all add: new_pair_def in_step_def)
      then show "follows H (?k x1) (?k x2)"
        using literal_second [OF assms(1-3) p, where f = ?f]
        by (simp add: k nb keeps_shape_def)
    qed (simp add: set_boolean_def mark_next_def split: option.split)
    then show ?thesis unfolding assoc .
  qed
  have "follows H (then_section (new_value cfg json_object (unseek s)) Continue) (then_section (new_value cfg json_object (unseek s2)) Continue)"
    by (rule new) (use plain [where ty = json_object and g = id] in \<open>simp_all add: upd_flags_def\<close>)
  moreover have "follows H (then_section (new_value cfg json_array (unseek s)) (\<lambda>s. Continue (upd_flags (\<lambda>f. f\<lparr>flag_seek_value := True\<rparr>) s)))
      (then_section (new_value cfg json_array (unseek s2)) (\<lambda>s. Continue (upd_flags (\<lambda>f. f\<lparr>flag_seek_value := True\<rparr>) s)))"
    by (rule new) (use plain [where ty = json_array] in simp_all)
  moreover have "follows H (then_section (new_value cfg json_string (unseek s)) (\<lambda>s. Continue (upd_flags (\<lambda>f. f\<lparr>flag_string := True\<rparr>) (s\<lparr>string_length := 0\<rparr>))))
      (then_section (new_value cfg json_string (unseek s2)) (\<lambda>s. Continue (upd_flags (\<lambda>f. f\<lparr>flag_string := True\<rparr>) (s\<lparr>string_length := 0\<rparr>))))"
    by (rule new) (use seek [where ty = json_string] in simp_all)
  ultimately show ?thesis
    using lit tr assms(4) by (simp add: seek_start_def)
qed

lemma sim_flags:
  assumes "sim H s s2" "in_step s' s2'" "heap s' = heap s" "heap s2' = heap s2" "s_alloc s2' = s_alloc s2"
    and "\<And>i. named s' i \<Longrightarrow> named s i"
  shows "sim H s' s2'"
proof -
  have "node_sim H s' i n" if "node_sim H s i n" for i n
    by (rule node_sim_named [OF that]) (use assms in simp_all)
  then have "sim_heap H s' (heap s2')"
    using assms(1,3,4) by (simp add: sim_def sim_heap_def)
  then show ?thesis using assms by (simp add: sim_def)
qed

lemma sim_type:
  assumes "sim H s s2" "fits H s" "t < length (heap s)"
  shows "jtype (heap s2 ! t) = json_array \<longleftrightarrow> jtype (heap s ! t) = json_array"
    "jtype (heap s2 ! t) = json_object \<longleftrightarrow> jtype (heap s ! t) = json_object"
    "jtype (heap s2 ! t) = json_string \<longleftrightarrow> jtype (heap s ! t) = json_string"
  using sim_node [OF assms(1,3,2)] by (auto simp: node_fits_def)

lemma sim_count_line: "sim H s s2 \<Longrightarrow> sim H (count_line b s) (count_line b s2)"
  by (frule sim_key [of H s s2 "count_line b s" "count_line b s2"]) (auto simp: sim_def in_step_def count_line_def)

lemma section_seek_second:
  assumes "seeking cfg js s" "sim H s s2" "linked H" "fits H s" "\<not> starts_number b s"
  shows "follows H (section_seek cfg js b s) (section_seek cfg js b s2)"
proof -
  note d = simD [OF assms(2)] and plain = seeking_plain [OF assms(1)]
  have close: "sim H (upd_flags (\<lambda>f. f\<lparr>flag_need_comma := False, flag_seek_value := False, flag_next := True\<rparr>) s)
      (upd_flags (\<lambda>f. f\<lparr>flag_need_comma := False, flag_seek_value := False, flag_next := True\<rparr>) s2)"
    by (rule sim_flags [OF assms(2)])
       (use assms(2) plain in \<open>auto simp: sim_def in_step_def named_def pending_def split: option.splits\<close>)
  have comma: "sim H (upd_flags (\<lambda>f. f\<lparr>flag_need_comma := False\<rparr>) s) (upd_flags (\<lambda>f. f\<lparr>flag_need_comma := False\<rparr>) s2)"
    "sim H (upd_flags (\<lambda>f. f\<lparr>flag_need_colon := False\<rparr>) s) (upd_flags (\<lambda>f. f\<lparr>flag_need_colon := False\<rparr>) s2)"
    by (rule sim_key [OF assms(2)]; use assms(2) in \<open>simp add: sim_def in_step_def\<close>)+
  have start: "follows H (seek_start cfg js b (unseek s)) (seek_start cfg js b (unseek s2))"
    if "\<not> flag_need_comma (flags s)" "\<not> flag_need_colon (flags s)"
    by (rule seek_start_second [OF assms(1-3)]) (use assms(5) plain that in \<open>auto simp: starts_number_def\<close>)
  have ty: "jtype (heap s2 ! t) = json_array \<longleftrightarrow> jtype (heap s ! t) = json_array" if "s_top s = Some t" for t
    by (rule sim_type(1) [OF assms(2,4) seeking_top [OF assms(1) that]])
  show ?thesis
    using d(2,12,13) ty sim_count_line [OF assms(2), of b] close comma start
    by (cases "s_top s") (simp_all add: section_seek_def follows_same)
qed

lemma object_second:
  assumes "inside cfg js t s" "jtype (heap s ! t) = json_object" "sim H s s2" "fits H s"
  shows "follows H (section_inside b s) (section_inside b s2)"
proof -
  note d = simD [OF assms(3)] and plain = inside_plain [OF assms(1)]
  have ty: "jtype (heap s2 ! t) = json_object" using sim_type(2) [OF assms(3,4) plain(11)] assms(2) by simp
  have quote: "sim H (upd_flags (\<lambda>f. f\<lparr>flag_string := True\<rparr>) (s\<lparr>string_length := 0\<rparr>))
      (upd_flags (\<lambda>f. f\<lparr>flag_string := True\<rparr>) (s2\<lparr>string_length := 0\<rparr>))"
    by (rule sim_flags [OF assms(3)])
       (use assms(3) plain in \<open>auto simp: sim_def in_step_def named_def pending_def\<close>)
  have other: "sim H (upd_flags (\<lambda>f. f\<lparr>flag_need_comma := False, flag_next := True\<rparr>) s)
      (upd_flags (\<lambda>f. f\<lparr>flag_need_comma := False, flag_next := True\<rparr>) s2)"
    "sim H (upd_flags (\<lambda>f. f\<lparr>flag_need_comma := False\<rparr>) s) (upd_flags (\<lambda>f. f\<lparr>flag_need_comma := False\<rparr>) s2)"
    by (rule sim_key [OF assms(3)]; use assms(3) in \<open>simp add: sim_def in_step_def\<close>)+
  show ?thesis
    using d plain ty assms(2) sim_count_line [OF assms(3), of b] quote other
    by (simp add: section_inside_def section_object_def follows_same)
qed

lemma comments_second:
  assumes "inv1 cfg js s" "sim H s s2" "fits H s"
  shows "follows H (section_comments cfg js b s) (section_comments cfg js b s2)"
proof -
  note d = simD [OF assms(2)]
  have c: "sim H (advance (- 1) (upd_flags (\<lambda>f. f\<lparr>flag_line_comment := False\<rparr>) s)) (advance (- 1) (upd_flags (\<lambda>f. f\<lparr>flag_line_comment := False\<rparr>) s2))"
    "sim H (advance 1 (upd_flags (\<lambda>f. f\<lparr>flag_block_comment := False\<rparr>) s)) (advance 1 (upd_flags (\<lambda>f. f\<lparr>flag_block_comment := False\<rparr>) s2))"
    "sim H (upd_flags (\<lambda>f. f\<lparr>flag_line_comment := True\<rparr>) (advance 1 s)) (upd_flags (\<lambda>f. f\<lparr>flag_line_comment := True\<rparr>) (advance 1 s2))"
    "sim H (upd_flags (\<lambda>f. f\<lparr>flag_block_comment := True\<rparr>) (advance 1 s)) (upd_flags (\<lambda>f. f\<lparr>flag_block_comment := True\<rparr>) (advance 1 s2))"
    by (rule sim_key [OF assms(2)]; use assms(2) in \<open>simp add: sim_def in_step_def\<close>)+
  have op: "follows H (comment_open js s) (comment_open js s2)"
    using d(4) c(3,4) by (simp add: comment_open_def Let_def follows_same split: option.split)
  have ty: "jtype (heap s2 ! t) = json_object \<longleftrightarrow> jtype (heap s ! t) = json_object" if "s_top s = Some t" for t
    by (rule sim_type(2) [OF assms(2,3)]) (use assms(1) that in \<open>auto simp: inv1_def top_fits_def\<close>)
  show ?thesis
    using d(2,4,9,10,14,15) assms(2) c(1,2) op ty
    by (cases "s_top s") (simp_all add: section_comments_def follows_same)
qed

lemma done_second:
  assumes "sim H s s2"
  shows "follows H (section_done b s) (section_done b s2)"
  using simD(10) [OF assms] assms sim_count_line [OF assms, of b] by (simp add: section_done_def follows_same)

section \<open>One iteration of both passes\<close>

definition number_ahead :: "string \<Rightarrow> jst \<Rightarrow> bool" where
  "number_ahead js s \<longleftrightarrow>
     \<not> flag_string (flags s) \<and> \<not> in_comment s \<and> \<not> flag_done (flags s) \<and>
     (in_number s \<or> (\<exists>b. rd js (ptr s) = Some b \<and> starts_number b s))"

lemma values_second:
  assumes "inv1 cfg js s" "sim H s s2" "linked H" "fits H s" "rd js (ptr s) = Some b" "\<not> number_ahead js s"
    and out: "\<not> in_comment s" "\<not> flag_done (flags s)" "\<not> flag_string (flags s)"
  shows "follows H
    (then_section (if flag_seek_value (flags s) then section_seek cfg js b s else section_inside b s) section_tail)
    (then_section (if flag_seek_value (flags s2) then section_seek cfg js b s2 else section_inside b s2) section_tail)"
proof -
  let ?v = "\<lambda>s. if flag_seek_value (flags s) then section_seek cfg js b s else section_inside b s"
  note d = simD [OF assms(2)]
  have "follows H (?v s) (?v s2) \<and> exits (\<lambda>s'. grows s s' \<and> tail_ready s') (grows s) (grows s) (\<lambda>_. True) (?v s)"
  proof (cases "flag_seek_value (flags s)")
    case True
    then have sk: "seeking cfg js s" using assms(1) out by (simp add: seeking_def)
    have "\<not> starts_number b s" using assms(5,6) out by (auto simp: number_ahead_def)
    from section_seek_second [OF sk assms(2-4) this] grows_seek [OF sk, of b] True d show ?thesis by simp
  next
    case False
    then have "s_top s \<noteq> None" using assms(1) by (auto simp: inv1_def top_fits_def split: option.splits)
    with False obtain t where t: "inside cfg js t s" using assms(1) out by (auto simp: inside_def)
    have "jtype (heap s ! t) = json_object"
      using inside_plain [OF t] assms(6) out False by (auto simp: number_ahead_def in_number_def)
    from object_second [OF t this assms(2,4)] grows_inside [OF t, of b] False d show ?thesis by simp
  qed
  then have f: "follows H (?v s) (?v s2)" and g: "?v s = Fall x \<Longrightarrow> tail_ready x" for x by auto
  show ?thesis
    by (rule follows_then [OF f]) (use g grows_tail tail_second in auto)
qed

lemma follows_FallE:
  assumes "follows H (Fall s) c2" "fits H s"
  obtains s2 where "c2 = Fall s2" "sim H s s2" | s2 where "c2 = Failed Memory_allocation_failure s2"
  using assms by (auto simp: follows_def)

text \<open>What follows a string in the body.\<close>

definition section_rest :: "json_settings \<Rightarrow> string \<Rightarrow> char \<Rightarrow> jst \<Rightarrow> ctl" where
  "section_rest cfg js b s =
     then_section (section_comments cfg js b s) (\<lambda>s.
     then_section (section_done b s) (\<lambda>s.
     then_section (if flag_seek_value (flags s) then section_seek cfg js b s else section_inside b s) section_tail))"

lemma json_body_rest:
  "rd js (ptr s) = Some b \<Longrightarrow> json_body cfg js s = then_section (section_string js b s) (section_rest cfg js b)"
proof -
  assume b: "rd js (ptr s) = Some b"
  have "section_rest cfg js b = (\<lambda>s. then_section (section_comments cfg js b s) (\<lambda>s.
     then_section (section_done b s) (\<lambda>s.
     then_section (if flag_seek_value (flags s) then section_seek cfg js b s else section_inside b s) section_tail)))"
    by (rule ext) (rule section_rest_def)
  then show ?thesis by (simp add: json_body_tail b)
qed

lemma rest_second:
  assumes "inv1 cfg js s" "sim H s s2" "linked H" "fits H s" "\<not> number_ahead js s" "rd js (ptr s) = Some b"
    and no: "\<not> flag_string (flags s)"
  shows "follows H (section_rest cfg js b s) (section_rest cfg js b s2)"
proof -
  have c: "follows H (section_comments cfg js b s) (section_comments cfg js b s2)"
    by (rule comments_second [OF assms(1,2,4)])
  show ?thesis
  proof (cases "section_comments cfg js b s")
    case (Fall x)
    then have x: "x = s" "\<not> in_comment s" using section_comments_first [OF assms(1,6) no] by auto
    have "follows H
        (then_section (section_done b s) (\<lambda>s. then_section (if flag_seek_value (flags s) then section_seek cfg js b s else section_inside b s) section_tail))
        (then_section (section_done b y) (\<lambda>s. then_section (if flag_seek_value (flags s) then section_seek cfg js b s else section_inside b s) section_tail))"
      if y: "sim H s y" for y
    proof (cases "section_done b s")
      case F: (Fall z)
      then have z: "z = s" "\<not> flag_done (flags s)" using section_done_first [OF assms(1,6)] by auto
      have "section_done b y = Fall y" using F simD(10) [OF y] z by (simp add: section_done_def)
      then show ?thesis
        using values_second [OF assms(1) y assms(3,4,6,5) x(2) z(2) no] F z by simp
    qed (use done_second [OF y, of b] in \<open>auto simp: follows_def\<close>)
    note rest = this
    from c Fall x have "follows H (Fall s) (section_comments cfg js b s2)" by simp
    from this assms(4) show ?thesis
      by (rule follows_FallE) (use rest Fall x in \<open>simp_all add: section_rest_def\<close>)
  qed (use c in \<open>auto simp: follows_def section_rest_def\<close>)
qed

lemma json_body_second:
  assumes "inv1 cfg js s" "sim H s s2" "linked H" "fits H s" "\<not> number_ahead js s"
  shows "follows H (json_body cfg js s) (json_body cfg js s2)"
proof -
  obtain b where b: "rd js (ptr s) = Some b"
    using rd_some [of "ptr s" js] assms by (auto simp: inv1_def)
  note d = simD [OF assms(2)]
  have b2: "rd js (ptr s2) = Some b" using b d by simp
  show ?thesis
  proof (cases "flag_string (flags s)")
    case False
    then show ?thesis
      using rest_second [OF assms b False] d by (simp add: json_body_rest b b2 section_string_def)
  next
    case True
    from section_string_second [OF assms(2,1) b assms(4)]
    have c: "follows H (section_string js b s) (section_string js b s2)" .
    show ?thesis
    proof (cases "section_string js b s")
      case (Fall x)
      with True section_string_first [OF assms(1) b] obtain t where
        x: "ended js x" "b = CHR 0x22" "s_top x = Some t" "jtype (heap x ! t) = json_string" by auto
      have r: "tail_ready x" using x by (auto simp: ended_def tail_ready_def)
      have rest: "section_rest cfg js b y = section_tail y"
        if "\<not> in_comment y" "\<not> flag_done (flags y)" "\<not> flag_seek_value (flags y)" "s_top y = Some t"
          "jtype (heap y ! t) = json_string" for y
        using that x(2) by (simp add: section_rest_def section_comments_def section_done_def section_inside_def)
      have rx: "section_rest cfg js b x = section_tail x"
        by (rule rest) (use x in \<open>auto simp: ended_def\<close>)
      have "follows H (section_tail x) (then_section (section_string js b s2) (section_rest cfg js b))"
      proof (rule follows_fits [OF grows_tail [OF r]])
        assume fit: "fits H x"
        from c Fall have "follows H (Fall x) (section_string js b s2)" by simp
        then show ?thesis using fit
        proof (rule follows_FallE)
          fix y assume y: "section_string js b s2 = Fall y" "sim H x y"
          have "section_rest cfg js b y = section_tail y"
            by (rule rest) (use x simD [OF y(2)] sim_type(3) [OF y(2) fit, of t] in \<open>auto simp: ended_def\<close>)
          then show "follows H (section_tail x) (then_section (section_string js b s2) (section_rest cfg js b))"
            using tail_second [OF y(2) r fit] y(1) by simp
        qed simp
      qed
      then show ?thesis by (simp add: json_body_rest b b2 Fall rx)
    qed (use c in \<open>auto simp: follows_def json_body_rest b b2\<close>)
  qed
qed

section \<open>Numbers\<close>

text \<open>The state of the first pass when the value at \<open>top\<close> has ended.\<close>

definition fin :: "jst \<Rightarrow> jst" where
  "fin s =
     (let s1 = upd_flags (\<lambda>f. f\<lparr>flag_next := False, flag_need_comma := True\<rparr>) s in
      case s_top s of
        None \<Rightarrow> s1
      | Some t \<Rightarrow>
          (case jparent (heap s ! t) of
             None \<Rightarrow> upd_flags (\<lambda>f. f\<lparr>flag_done := True\<rparr>) s1
           | Some p \<Rightarrow>
               (upd_node p (\<lambda>n. n\<lparr>jlength := jlength n + 1\<rparr>)
                  (if jtype (heap s ! p) = json_array then upd_flags (\<lambda>f. f\<lparr>flag_seek_value := True\<rparr>) s1 else s1))
                \<lparr>s_top := Some p\<rparr>))"

definition too_long :: "jst \<Rightarrow> bool" where
  "too_long s \<longleftrightarrow> (\<exists>t p. s_top s = Some t \<and> jparent (heap s ! t) = Some p \<and> uint_max < jlength (heap s ! p) + 1)"

lemma section_next_fin:
  assumes "first_pass s" "s_top s = Some t" "t < length (heap s)" "heap_ok s" "flag_next (flags s)"
  shows "section_next s = Continue (fin s) \<and> \<not> too_long s \<or> (\<exists>z. section_next s = Failed Too_long z) \<and> too_long s"
proof (cases "jparent (heap s ! t)")
  case (Some p)
  then have "p < length (heap s)" using assms(3,4) by (auto simp: heap_ok_def node_ok_def)
  with assms Some show ?thesis
    by (auto simp: section_next_def fin_def too_long_def attach_def Let_def upd_node_nth)
qed (use assms in \<open>simp add: section_next_def fin_def too_long_def Let_def\<close>)

text \<open>Two states of the first pass that differ in a number only.\<close>

definition shadow :: "nat \<Rightarrow> jst \<Rightarrow> jst \<Rightarrow> bool" where
  "shadow t s s' \<longleftrightarrow>
     s_top s = Some t \<and> s_top s' = Some t \<and> t < length (heap s) \<and>
     (\<exists>n. heap s' = (heap s)[t := n] \<and> jparent n = jparent (heap s ! t) \<and> jlength n = jlength (heap s ! t) \<and>
          jnames_size n = jnames_size (heap s ! t)) \<and>
     string_length s' = string_length s \<and> s_root s' = s_root s \<and>
     flag_string (flags s') = flag_string (flags s) \<and> flag_seek_value (flags s') = flag_seek_value (flags s) \<and>
     flag_done (flags s') = flag_done (flags s) \<and> flag_escaped (flags s') = flag_escaped (flags s) \<and>
     flag_need_comma (flags s') = flag_need_comma (flags s) \<and> flag_need_colon (flags s') = flag_need_colon (flags s) \<and>
     flag_line_comment (flags s') = flag_line_comment (flags s) \<and>
     flag_block_comment (flags s') = flag_block_comment (flags s) \<and> flag_reproc (flags s') = flag_reproc (flags s)"

lemma sim_shadow:
  assumes "sim H z y" "in_step z' y" "length (heap z') = length (heap z)"
    and "\<And>i. jlength (heap z' ! i) = jlength (heap z ! i)" "\<And>i. jnames_size (heap z' ! i) = jnames_size (heap z ! i)"
    and "\<And>i. named z' i \<Longrightarrow> named z i"
  shows "sim H z' y"
proof -
  have "node_sim H z' i n" if "node_sim H z i n" for i n
    by (rule node_sim_named [OF that]) (use assms in simp_all)
  then show ?thesis using assms by (simp add: sim_def sim_heap_def)
qed

lemma fin_root:
  assumes "s_top s = Some t" "jparent (heap s ! t) = None"
  shows "fin s = upd_flags (\<lambda>f. f\<lparr>flag_next := False, flag_need_comma := True, flag_done := True\<rparr>) s"
  using assms by (simp add: fin_def upd_flags_def)

lemma fin_member:
  assumes "s_top s = Some t" "jparent (heap s ! t) = Some p"
  shows "heap (fin s) = (heap s)[p := (heap s ! p)\<lparr>jlength := jlength (heap s ! p) + 1\<rparr>]" "s_top (fin s) = Some p"
    "flags (fin s) = (flags s)\<lparr>flag_next := False, flag_need_comma := True,
       flag_seek_value := flag_seek_value (flags s) \<or> jtype (heap s ! p) = json_array\<rparr>"
    "string_length (fin s) = string_length s" "s_root (fin s) = s_root s" "ptr (fin s) = ptr s"
  using assms by (simp_all add: fin_def Let_def upd_node_def)

lemma fin_below:
  assumes "heap_ok s" "s_top s = Some t" "t < length (heap s)" "jparent (heap s ! t) = Some p"
  shows "below (heap (fin s)) = below (heap s)" "p < length (heap s)" "p < t" "container (jtype (heap s ! p))"
proof -
  show "p < length (heap s)" "p < t" "container (jtype (heap s ! p))"
    using assms by (auto simp: heap_ok_def node_ok_def)
  have "heap (fin s) = heap (upd_node p (\<lambda>n. n\<lparr>jlength := jlength n + 1\<rparr>) s)"
    using fin_member(1) [OF assms(2,4)] by (simp add: upd_node_def)
  then show "below (heap (fin s)) = below (heap s)" by (simp add: below_upd_node keeps_shape_def)
qed

lemma sim_fin_shadow:
  assumes "shadow t s s'" "heap_ok s" "heap_ok s'" "sim H ((fin s)\<lparr>ptr := q\<rparr>) y"
    and "\<not> flag_string (flags s)" "\<not> flag_seek_value (flags s)"
  shows "sim H ((fin s')\<lparr>ptr := q\<rparr>) y"
proof -
  from assms(1) obtain n where n: "heap s' = (heap s)[t := n]" "jparent n = jparent (heap s ! t)"
    "jlength n = jlength (heap s ! t)" "jnames_size n = jnames_size (heap s ! t)"
    and t: "s_top s = Some t" "s_top s' = Some t" "t < length (heap s)" by (auto simp: shadow_def)
  have par: "jparent (heap s' ! i) = jparent (heap s ! i)" "jlength (heap s' ! i) = jlength (heap s ! i)"
    "jnames_size (heap s' ! i) = jnames_size (heap s ! i)" for i
    using n t(3) by (cases "i = t"; simp)+
  have b: "below (heap s') = below (heap s)" by (rule below_cong) (use n(1) par in simp_all)
  show ?thesis
  proof (cases "jparent (heap s ! t)")
    case None
    note fin = fin_root [OF t(1) None] fin_root [OF t(2)]
    have pn: "jparent (heap s' ! t) = None" using None par by simp
    show ?thesis
    proof (rule sim_shadow [OF assms(4)])
      show "in_step ((fin s')\<lparr>ptr := q\<rparr>) y"
        using assms(1,4) fin(1) fin(2) [OF pn] by (simp add: sim_def in_step_def shadow_def)
      show "named ((fin s)\<lparr>ptr := q\<rparr>) i" if "named ((fin s')\<lparr>ptr := q\<rparr>) i" for i
        using that fin(2) [OF pn] t assms(1,5,6) below_root [of "heap s'", OF pn]
        by (simp add: named_def pending_def shadow_def)
    qed (use n t par fin(1) fin(2) [OF pn] in simp_all)
  next
    case (Some p)
    then have Some': "jparent (heap s' ! t) = Some p" using par by simp
    have t': "t < length (heap s')" using t(3) n(1) by simp
    note f = fin_member [OF t(1) Some] and f' = fin_member [OF t(2) Some']
    note g = fin_below [OF assms(2) t(1,3) Some] and g' = fin_below [OF assms(3) t(2) t' Some']
    have p: "heap s' ! p = heap s ! p" using n(1) g(3) by simp
    have flags: "flag_seek_value (flags s') = flag_seek_value (flags s)" "flag_string (flags s') = flag_string (flags s)"
      using assms(1) by (simp_all add: shadow_def)
    show ?thesis
    proof (rule sim_shadow [OF assms(4)])
      show "in_step ((fin s')\<lparr>ptr := q\<rparr>) y"
        using assms(1,4) f f' p by (simp add: sim_def in_step_def shadow_def)
      show "named ((fin s)\<lparr>ptr := q\<rparr>) i" if "named ((fin s')\<lparr>ptr := q\<rparr>) i" for i
      proof -
        have "below (heap (fin s')) = below (heap (fin s))" using g(1) g'(1) b by simp
        moreover have "jtype (heap (fin s') ! p) = jtype (heap (fin s) ! p)" using f(1) f'(1) p g(2) g'(2) by simp
        ultimately show ?thesis
          using that f(2,3) f'(2,3) p flags by (simp add: named_def pending_def)
      qed
      show "jlength (heap ((fin s')\<lparr>ptr := q\<rparr>) ! i) = jlength (heap ((fin s)\<lparr>ptr := q\<rparr>) ! i)"
        "jnames_size (heap ((fin s')\<lparr>ptr := q\<rparr>) ! i) = jnames_size (heap ((fin s)\<lparr>ptr := q\<rparr>) ! i)" for i
        using f(1) f'(1) p par g(2) g'(2) by (cases "i = p"; simp)+
    qed (use f(1) f'(1) n(1) in simp)
  qed
qed

text \<open>A number is entered at its first character only.\<close>

definition no_number :: "jst \<Rightarrow> bool" where
  "no_number s \<longleftrightarrow> (case s_top s of None \<Rightarrow> True | Some t \<Rightarrow> flag_done (flags s) \<or> \<not> numeric (jtype (heap s ! t)))"

abbreviation ends_no_number :: "ctl \<Rightarrow> bool" where
  "ends_no_number \<equiv> exits no_number no_number (\<lambda>_. True) (\<lambda>_. True)"

lemma no_number_in_number: "no_number s \<Longrightarrow> \<not> in_number s"
  by (auto simp: no_number_def in_number_def split: option.splits)

lemma no_number_simps [simp]:
  "no_number (advance k s) = no_number s"
  "flag_done (g (flags s)) = flag_done (flags s) \<Longrightarrow> no_number (upd_flags g s) = no_number s"
  "no_number (s\<lparr>string_length := n\<rparr>) = no_number s"
  "no_number (count_line b s) = no_number s"
  by (auto simp: no_number_def upd_flags_def count_line_def split: option.splits)

definition tail_no_number :: "jst \<Rightarrow> bool" where
  "tail_no_number s \<longleftrightarrow> tail_ready s \<and> (flag_next (flags s) \<or> no_number s)"

lemma no_number_fin:
  assumes "heap_ok s" "s_top s = Some t" "t < length (heap s)"
  shows "no_number (fin s)"
proof (cases "jparent (heap s ! t)")
  case None
  then show ?thesis using assms by (simp add: no_number_def fin_root)
next
  case (Some p)
  then show ?thesis
    using fin_member [OF assms(2) Some] fin_below [OF assms Some] by (auto simp: no_number_def)
qed

lemma next_no_number:
  assumes "tail_no_number s"
  shows "ends_no_number (section_next s)"
proof (cases "flag_next (flags s)")
  case True
  then obtain t where t: "s_top s = Some t" "t < length (heap s)" "first_pass s" "heap_ok s"
    using assms by (auto simp: tail_no_number_def tail_ready_def)
  show ?thesis using no_number_fin [OF t(4,1,2)] section_next_fin [OF t(3,1,2,4) True] by auto
qed (use assms in \<open>simp add: section_next_def tail_no_number_def\<close>)

lemma tail_no_number:
  assumes "tail_no_number s"
  shows "ends_no_number (section_tail s)"
proof -
  let ?s = "advance (- 1) (upd_flags (\<lambda>f. f\<lparr>flag_reproc := False\<rparr>) s)"
  have "tail_no_number ?s" using assms by (simp add: tail_no_number_def tail_ready_def)
  from next_no_number [OF this] next_no_number [OF assms] show ?thesis
    by (simp add: section_tail_def section_reproc_def)
qed

lemma string_no_number:
  assumes "inv1 cfg js s" "rd js (ptr s) = Some b" "flag_string (flags s)"
  shows "exits (\<lambda>_. True) no_number (\<lambda>_. True) (\<lambda>_. True) (section_string js b s)"
proof (cases "b = NUL")
  case False
  then have p: "0 \<le> ptr s" "ptr s < int (length js)" using rd_not_nul [OF assms(2)] by auto
  from assms obtain t where t: "s_top s = Some t" "t < length (heap s)"
    "jtype (heap s ! t) = json_string \<or> jtype (heap s ! t) = json_object" "first_pass s"
    by (auto simp: inv1_def top_fits_def Let_def split: option.splits if_splits)
  then have n: "no_number s" by (auto simp: no_number_def)
  have esc: "exits no_number no_number (\<lambda>_. True) (\<lambda>_. True)
      (string_escape js b (upd_flags (\<lambda>f. f\<lparr>flag_escaped := False\<rparr>) s))"
    by (rule exits_mono [OF string_escape_first]) (use t p n in \<open>auto simp: within_string_def\<close>)
  have close: "exits (\<lambda>_. True) no_number (\<lambda>_. True) (\<lambda>_. True) (string_close s)"
    using t by (auto simp: string_close_def Let_def no_number_def upd_node_nth)
  show ?thesis
    using assms(3) False t n esc close by (simp add: section_string_def string_add_def)
qed (use assms in \<open>simp add: section_string_def\<close>)

lemma comments_no_number:
  "no_number s \<Longrightarrow> exits (\<lambda>s'. s' = s) no_number (\<lambda>_. True) (\<lambda>_. True) (section_comments cfg js b s)"
  by (simp add: section_comments_def comment_open_def Let_def split: option.split)

lemma object_no_number:
  assumes "inside cfg js t s" "jtype (heap s ! t) = json_object"
  shows "exits tail_no_number no_number (\<lambda>_. True) (\<lambda>_. True) (section_inside b s)"
proof -
  note plain = inside_plain [OF assms(1)]
  have "no_number s" using plain assms(2) by (simp add: no_number_def)
  then show ?thesis
    using plain assms(2) by (simp add: section_inside_def section_object_def tail_no_number_def tail_ready_def)
qed

lemma seek_no_number:
  assumes "seeking cfg js s" "\<not> starts_number b s" "no_number s"
  shows "exits tail_no_number no_number (\<lambda>_. True) (\<lambda>_. True) (section_seek cfg js b s)"
proof -
  note plain = seeking_plain [OF assms(1)] seeking_ptr [OF assms(1)]
  let ?T = "\<lambda>s'. flag_next (flags s') \<or> no_number s'"
  let ?g = "\<lambda>ty u m. (grown ty (unseek s))\<lparr>used_memory := u, s_mem := m\<rparr>"
  have new: "exits F C B (\<lambda>_. True) (new_value cfg ty (unseek s))" if "\<And>u m. F (?g ty u m)" for F C B ty
    by (rule new_value_exits) (use plain that in simp_all)
  have g: "no_number (?g ty u m)" "no_number ((?g ty u m)\<lparr>string_length := 0\<rparr>)" if "\<not> numeric ty" for ty u m
    using that by (simp_all add: no_number_def)
  have lit: "exits ?T no_number (\<lambda>_. True) (\<lambda>_. True) (then_section (seek_literal cfg js rest ty (unseek s)) k)"
    if "rest \<noteq> []" "NUL \<notin> set rest" "\<And>x. exits ?T no_number (\<lambda>_. True) (\<lambda>_. True) (k x)" for rest ty k
  proof -
    have "exits (\<lambda>x. exits ?T no_number (\<lambda>_. True) (\<lambda>_. True) (k x)) no_number (\<lambda>_. True) clean
        (seek_literal cfg js rest ty (unseek s))"
      by (rule seek_literal_first [OF assms(1) plain(10) that(1,2)]) (rule that(3))
    then show ?thesis unfolding exits_then by (rule exits_mono) auto
  qed
  have assoc: "then_section (then_section c f) k = then_section c (\<lambda>x. then_section (f x) k)" for c f k by (cases c) simp_all
  have "exits ?T no_number (\<lambda>_. True) (\<lambda>_. True) (then_section (seek_literal cfg js ''alse'' json_boolean (unseek s)) mark_next)"
    "exits ?T no_number (\<lambda>_. True) (\<lambda>_. True) (then_section (seek_literal cfg js ''ull'' json_null (unseek s)) mark_next)"
    by (rule lit; simp add: mark_next_def)+
  moreover have "exits ?T no_number (\<lambda>_. True) (\<lambda>_. True)
      (then_section (then_section (seek_literal cfg js ''rue'' json_boolean (unseek s)) set_boolean) mark_next)"
    unfolding assoc by (rule lit) (simp_all add: mark_next_def set_boolean_def split: option.split)
  moreover have "exits ?T no_number (\<lambda>_. True) (\<lambda>_. True) (then_section (new_value cfg json_object (unseek s)) Continue)"
    "exits ?T no_number (\<lambda>_. True) (\<lambda>_. True)
      (then_section (new_value cfg json_array (unseek s)) (\<lambda>s. Continue (upd_flags (\<lambda>f. f\<lparr>flag_seek_value := True\<rparr>) s)))"
    "exits ?T no_number (\<lambda>_. True) (\<lambda>_. True)
      (then_section (new_value cfg json_string (unseek s))
        (\<lambda>s. Continue (upd_flags (\<lambda>f. f\<lparr>flag_string := True\<rparr>) (s\<lparr>string_length := 0\<rparr>))))"
    unfolding exits_then by (rule new; simp add: g)+
  ultimately have start: "exits ?T no_number (\<lambda>_. True) (\<lambda>_. True) (seek_start cfg js b (unseek s))"
    if "\<not> (isdigit b \<or> b = CHR ''-'')"
    using that by (simp add: seek_start_def del: exits_then)
  have "exits ?T no_number (\<lambda>_. True) (\<lambda>_. True) (section_seek cfg js b s)"
  proof -
    have "exits ?T no_number (\<lambda>_. True) (\<lambda>_. True) (seek_start cfg js b (unseek s))"
      if "\<not> flag_need_comma (flags s)" "\<not> flag_need_colon (flags s)"
      by (rule start) (use assms(2) plain that in \<open>auto simp: starts_number_def\<close>)
    then show ?thesis using assms(3) by (simp add: section_seek_def split: option.split)
  qed
  from exits_conj [OF this grows_seek [OF assms(1), of b]] show ?thesis
    by (rule exits_mono) (auto simp: tail_no_number_def)
qed

lemma json_body_no_number:
  assumes "inv1 cfg js s" "\<not> number_ahead js s" "no_number s"
  shows "ends_no_number (json_body cfg js s)"
proof -
  obtain b where b: "rd js (ptr s) = Some b"
    using rd_some [of "ptr s" js] assms by (auto simp: inv1_def)
  have vals: "ends_no_number (then_section (if flag_seek_value (flags s) then section_seek cfg js b s else section_inside b s) section_tail)"
    if out: "\<not> in_comment s" "\<not> flag_done (flags s)" "\<not> flag_string (flags s)"
  proof -
    have "exits tail_no_number no_number (\<lambda>_. True) (\<lambda>_. True)
        (if flag_seek_value (flags s) then section_seek cfg js b s else section_inside b s)"
    proof (cases "flag_seek_value (flags s)")
      case True
      then have "seeking cfg js s" using assms(1) out by (simp add: seeking_def)
      moreover have "\<not> starts_number b s" using assms(2) b out by (auto simp: number_ahead_def)
      ultimately show ?thesis using seek_no_number assms(3) True by simp
    next
      case False
      then have "s_top s \<noteq> None" using assms(1) by (auto simp: inv1_def top_fits_def split: option.splits)
      with False obtain t where t: "inside cfg js t s" using assms(1) out by (auto simp: inside_def)
      then have "jtype (heap s ! t) = json_object"
        using inside_plain [OF t] assms(3) by (auto simp: no_number_def)
      from object_no_number [OF t this] False show ?thesis by simp
    qed
    then show ?thesis unfolding exits_then by (rule exits_mono) (use tail_no_number in auto)
  qed
  show ?thesis
  proof (cases "flag_string (flags s)")
    case True
    have "exits (\<lambda>x. ends_no_number (section_rest cfg js b x)) no_number (\<lambda>_. True) (\<lambda>_. True) (section_string js b s)"
    proof (rule exits_mono [OF exits_conj [OF section_string_first [OF assms(1) b] string_no_number [OF assms(1) b True]]])
      fix x assume "(if flag_string (flags s)
          then ended js x \<and> ptr x = ptr s \<and> b = CHR 0x22 \<and> (\<exists>t. s_top x = Some t \<and> jtype (heap x ! t) = json_string)
          else x = s) \<and> True"
      then obtain t where x: "ended js x" "b = CHR 0x22" "s_top x = Some t" "jtype (heap x ! t) = json_string"
        using True by auto
      then have "tail_no_number x" by (auto simp: tail_no_number_def tail_ready_def ended_def)
      moreover have "section_rest cfg js b x = section_tail x"
        using x by (auto simp: section_rest_def section_comments_def section_done_def section_inside_def ended_def)
      ultimately show "ends_no_number (section_rest cfg js b x)" using tail_no_number by simp
    qed auto
    then show ?thesis by (simp add: json_body_rest b)
  next
    case False
    have "exits (\<lambda>x. ends_no_number (then_section (section_done b x) (\<lambda>s. then_section
        (if flag_seek_value (flags s) then section_seek cfg js b s else section_inside b s) section_tail)))
        no_number (\<lambda>_. True) (\<lambda>_. True) (section_comments cfg js b s)"
      by (rule exits_mono [OF exits_conj [OF section_comments_first [OF assms(1) b False] comments_no_number [OF assms(3)]]])
         (use vals False assms(3) in \<open>auto simp: section_done_def simp del: exits_if\<close>)
    then show ?thesis using False by (simp add: json_body_rest b section_string_def section_rest_def)
  qed
qed

end
