(* ===== verification/Json_Parse.thy ===== *)
theory Json_Parse
  imports Json_Safety
begin

text \<open>
  The second pass through numbers and through the loop, and the contract of \<open>json_parse_ex\<close>.
\<close>

section \<open>Inside a number\<close>

lemma skip_number_num:
  assumes "rd js p = Some b" "is_num_char b"
  shows "skip_number js p = skip_number js (p + 1)" "0 \<le> p" "p < int (length js)"
proof -
  have "b \<noteq> NUL" using assms(2) by (auto simp: is_num_char_def isdigit_def)
  with assms(1) show p: "0 \<le> p" "p < int (length js)" by (auto dest: rd_not_nul)
  with assms have "is_num_char (js ! nat p)" by (simp add: rd_def)
  with p show "skip_number js p = skip_number js (p + 1)" by (simp add: skip_number.simps [of js p])
qed

lemma skip_number_stop:
  assumes "rd js p = Some b" "\<not> is_num_char b"
  shows "skip_number js p = p"
  using assms by (auto simp: rd_def skip_number.simps [of js p] split: if_splits)

lemma number_body:
  assumes "inside cfg js t s" "numeric (jtype (heap s ! t))" "rd js (ptr s) = Some b"
  shows "(\<exists>e z. json_body cfg js s = Failed e z) \<or>
    json_body cfg js s = then_section (section_number t b s) section_tail"
proof -
  note plain = inside_plain [OF assms(1)]
  have "section_inside b s = section_number t b s" using plain assms(2) by (auto simp: section_inside_def)
  then show ?thesis
    using plain assms(2,3)
    by (auto simp: json_body_rest section_string_def section_rest_def section_comments_def section_done_def)
qed

lemma number_change_shadow:
  assumes "number_change t s x" "inside cfg js t s" "\<not> flag_reproc (flags x)"
  shows "shadow t s x"
  using assms(1,3) inside_plain [OF assms(2)]
  by (auto simp: number_change_def same_mode_def shadow_def)

text \<open>
  A step inside a number: the first pass fails, stays in the number and moves on over a
  character of it, or ends the number and stays.
\<close>

lemma number_step:
  assumes "inside cfg js t s" "numeric (jtype (heap s ! t))" "rd js (ptr s) = Some b"
  obtains (failed) e z where "json_body cfg js s = Failed e z"
  | (more) x where "json_body cfg js s = Continue x" "number_change t s x" "\<not> flag_next (flags x)" "\<not> flag_reproc (flags x)" "is_num_char b"
  | (last) x where "json_body cfg js s = Continue (fin x)" "shadow t s x" "heap_ok x" "ptr x = ptr s - 1" "\<not> too_long x"
proof -
  note plain = inside_plain [OF assms(1)]
  note change = section_number_change [OF assms(1,2), of b]
  from number_body [OF assms] show ?thesis
  proof (elim disjE exE)
    assume body: "json_body cfg js s = then_section (section_number t b s) section_tail"
    show ?thesis
    proof (cases "section_number t b s")
      case (Fall x)
      then have x: "number_change t s x" "flag_next (flags x)" "flag_reproc (flags x)" using change by auto
      let ?w = "advance (- 1) (upd_flags (\<lambda>f. f\<lparr>flag_reproc := False\<rparr>) x)"
      have w: "shadow t s ?w" "heap_ok ?w" "ptr ?w = ptr s - 1" "first_pass ?w" "s_top ?w = Some t"
        "t < length (heap ?w)" "flag_next (flags ?w)"
        using x plain grows_number_change(2) [OF x(1) assms(1,2)]
        by (auto simp: number_change_def same_mode_def shadow_def)
      have tail: "json_body cfg js s = section_next ?w"
        using body Fall x(3) by (simp add: section_tail_def section_reproc_def)
      from section_next_fin [OF w(4,5,6,2,7)] show ?thesis
        using tail that(1) that(3) [OF _ w(1-3)] by auto
    next
      case (Continue x)
      with change that(2) body show ?thesis by auto
    qed (use change body that(1) in auto)
  qed (use that in auto)
qed

lemma inside_more:
  assumes "inside cfg js t s" "json_body cfg js s = Continue x" "number_change t s x" "\<not> flag_reproc (flags x)"
  shows "inside cfg js t (advance 1 x)" "numeric (jtype (heap (advance 1 x) ! t))" "shadow t s (advance 1 x)"
    "ptr (advance 1 x) = ptr s + 1"
proof -
  note plain = inside_plain [OF assms(1)]
  have "inv1 cfg js s" using assms(1) by (simp add: inside_def)
  from json_body_first [OF this] assms(2) have "inv1 cfg js (advance 1 x)" by (simp add: progress_def)
  moreover from assms(3) obtain n where n: "heap x = (heap s)[t := n]" "numeric (jtype n)" and m: "same_mode s x"
    by (auto simp: number_change_def)
  ultimately show "inside cfg js t (advance 1 x)"
    using plain by (simp add: inside_def same_mode_def)
  show "numeric (jtype (heap (advance 1 x) ! t))" using n plain(11) by simp
  show "ptr (advance 1 x) = ptr s + 1" using m by (simp add: same_mode_def)
  show "shadow t s (advance 1 x)"
    using number_change_shadow [OF assms(3,1,4)] unfolding shadow_def advance_simps pointer_simps .
qed

lemma too_long_shadow:
  assumes "shadow t s x" "heap_ok s"
  shows "too_long x = too_long s"
proof -
  from assms(1) obtain n where n: "heap x = (heap s)[t := n]" "jparent n = jparent (heap s ! t)"
    and t: "s_top s = Some t" "s_top x = Some t" "t < length (heap s)" by (auto simp: shadow_def)
  have "p \<noteq> t" if "jparent (heap s ! t) = Some p" for p
    using assms(2) t(3) that by (auto simp: heap_ok_def node_ok_def)
  with n t show ?thesis by (auto simp: too_long_def)
qed

lemma number_finishes:
  assumes "inside cfg js t s" "numeric (jtype (heap s ! t))" "json_loop cfg js fuel s = Break sf"
  shows "\<not> too_long s"
  using assms
proof (induction fuel arbitrary: s)
  case (Suc fuel)
  note plain = inside_plain [OF Suc.prems(1)]
  obtain b where b: "rd js (ptr s) = Some b" using rd_some [of "ptr s" js] plain by auto
  from Suc.prems(1,2) b show ?case
  proof (cases rule: number_step)
    case (more x)
    note m = inside_more [OF Suc.prems(1) more(1,2,4)]
    have "\<not> too_long (advance 1 x)"
      by (rule Suc.IH [OF m(1,2)]) (use Suc.prems(3) more(1) in simp)
    then show ?thesis using too_long_shadow [OF m(3) plain(2)] by simp
  next
    case (last x)
    then show ?thesis using too_long_shadow [OF last(2) plain(2)] by simp
  qed (use Suc.prems(3) in simp)
qed simp

text \<open>After a number no character of a number can follow.\<close>

lemma after_number:
  assumes "shadow t s x" "inside cfg js t s" "heap_ok x" "rd js (ptr s) = Some b" "is_num_char b" "ptr x = ptr s - 1"
  shows "\<exists>e z. json_body cfg js (advance 1 (fin x)) = Failed e z"
proof -
  note plain = inside_plain [OF assms(2)]
  have t: "s_top x = Some t" "t < length (heap x)" and f: "\<not> flag_string (flags x)" "\<not> flag_seek_value (flags x)"
    "\<not> in_comment x" "\<not> flag_done (flags x)"
    using assms(1) plain by (auto simp: shadow_def)
  let ?y = "advance 1 (fin x)"
  have b: "b \<noteq> NUL" "\<not> is_ws b" "b \<noteq> CHR ''/''" "b \<noteq> CHR '']''" "b \<noteq> CHR '',''" "b \<noteq> CHR 0x22" "b \<noteq> CHR 0x7D"
    using assms(5) by (auto simp: is_num_char_def is_ws_def isdigit_def)
  show ?thesis
  proof (cases "jparent (heap x ! t)")
    case None
    then have y: "fin x = upd_flags (\<lambda>f. f\<lparr>flag_next := False, flag_need_comma := True, flag_done := True\<rparr>) x"
      using t by (intro fin_root)
    show ?thesis
      using f b assms(4,6)
      by (simp add: y json_body_rest section_string_def section_rest_def section_comments_def section_done_def)
  next
    case (Some p)
    note m = fin_member [OF t(1) Some] and bl = fin_below [OF assms(3) t Some]
    have "jtype (heap (fin x) ! p) = jtype (heap x ! p)" using m(1) bl(2) by simp
    then show ?thesis
      using f b assms(4,6) m bl(4)
      by (auto simp: json_body_rest section_string_def section_rest_def section_comments_def section_done_def
            section_seek_def section_inside_def section_object_def)
  qed
qed

section \<open>The start of a number\<close>

lemma start_body:
  assumes "seeking cfg js s" "rd js (ptr s) = Some b" "starts_number b s"
  shows "json_body cfg js s = then_section (seek_number cfg js b (unseek s)) section_tail"
proof -
  have b: "\<not> is_ws b" "b \<noteq> CHR '']''" "b \<noteq> CHR ''/''" "b \<noteq> CHR 0x7B" "b \<noteq> CHR ''[''" "b \<noteq> CHR 0x22" "b \<noteq> CHR ''t''" "b \<noteq> CHR ''f''"
    "b \<noteq> CHR ''n''" "isdigit b \<or> b = CHR ''-''"
    using assms(3) by (auto simp: starts_number_def is_ws_def isdigit_def)
  show ?thesis
    using seeking_plain [OF assms(1)] assms(2,3) b
    by (simp add: json_body_rest section_string_def section_rest_def section_comments_def section_done_def
          section_seek_def seek_start_def starts_number_def)
qed

lemma start_body_second:
  assumes "seeking cfg js s" "sim H s s2" "rd js (ptr s) = Some b" "starts_number b s"
  shows "json_body cfg js s2 = then_section (seek_number cfg js b (unseek s2)) section_tail"
proof -
  have b: "\<not> is_ws b" "b \<noteq> CHR '']''" "b \<noteq> CHR ''/''" "b \<noteq> CHR 0x7B" "b \<noteq> CHR ''[''" "b \<noteq> CHR 0x22" "b \<noteq> CHR ''t''" "b \<noteq> CHR ''f''"
    "b \<noteq> CHR ''n''" "isdigit b \<or> b = CHR ''-''"
    using assms(4) by (auto simp: starts_number_def is_ws_def isdigit_def)
  show ?thesis
    using seeking_plain [OF assms(1)] simD [OF assms(2)] assms(3,4) b
    by (simp add: json_body_rest section_string_def section_rest_def section_comments_def section_done_def
          section_seek_def seek_start_def starts_number_def)
qed

text \<open>The state of the first pass at the start of a number, up to the fields a number uses.\<close>

definition entered :: "jst \<Rightarrow> jst \<Rightarrow> bool" where
  "entered x s' \<longleftrightarrow>
     heap s' = heap x \<and> s_top s' = s_top x \<and> string_length s' = string_length x \<and> s_root s' = s_root x \<and>
     flag_string (flags s') = flag_string (flags x) \<and> flag_seek_value (flags s') = flag_seek_value (flags x) \<and>
     flag_done (flags s') = flag_done (flags x) \<and> flag_escaped (flags s') = flag_escaped (flags x) \<and>
     flag_need_comma (flags s') = flag_need_comma (flags x) \<and> flag_need_colon (flags s') = flag_need_colon (flags x) \<and>
     flag_line_comment (flags s') = flag_line_comment (flags x) \<and>
     flag_block_comment (flags s') = flag_block_comment (flags x) \<and> \<not> flag_reproc (flags s')"

lemma start_first:
  assumes "seeking cfg js s" "rd js (ptr s) = Some b" "starts_number b s" "new_value cfg json_integer (unseek s) = Fall x"
    and "first_pass x" "flags x = flags (unseek s)" "ptr x = ptr s"
  shows "\<exists>s'. (json_body cfg js s = Fall s' \<or> json_body cfg js s = Continue s') \<and> entered x (advance 1 s') \<and>
    skip_number js (ptr (advance 1 s')) = skip_number js (ptr s)"
proof -
  have "is_num_char b" using assms(3) by (auto simp: starts_number_def is_num_char_def)
  note skip = skip_number_num [OF assms(2) this]
  note plain = seeking_plain [OF assms(1)]
  show ?thesis
  proof (cases "b = CHR ''-''")
    case True
    then show ?thesis
      using plain skip assms(4-7) unfolding start_body [OF assms(1-3)]
      by (auto simp: seek_number_def Let_def entered_def)
  next
    case False
    then show ?thesis
      using plain skip assms(4-7) unfolding start_body [OF assms(1-3)]
      by (auto simp: seek_number_def Let_def entered_def section_tail_def section_reproc_def section_next_def)
  qed
qed

lemma fin_ptr [simp]: "ptr (fin s) = ptr s"
  by (simp add: fin_def Let_def split: option.split)

lemma entered_shadow:
  assumes "entered x y" "s_top x = Some t" "t < length (heap x)"
    and "heap w = heap x" "s_top w = s_top x" "string_length w = string_length x" "s_root w = s_root x"
      "flags w = (flags x)\<lparr>flag_next := n, flag_reproc := False\<rparr>"
  shows "shadow t w y"
  using assms by (auto simp: entered_def shadow_def intro!: exI [of _ "heap x ! t"])

lemma start_second:
  assumes "seeking cfg js s" "sim H s s2" "linked H" "rd js (ptr s) = Some b" "starts_number b s"
    and x: "new_value cfg json_integer (unseek s) = Fall x1" "new_value cfg json_integer (unseek s2) = Fall x2"
      "new_pair H json_integer 0 s s2 x1 x2" "heap_ok x1"
    and y: "entered x1 y" "heap_ok y" "fits H y" "\<not> too_long y"
  shows "\<exists>z. json_body cfg js s2 = Continue z \<and> sim H ((fin y)\<lparr>ptr := skip_number js (ptr s)\<rparr>) (advance 1 z)"
proof -
  let ?q = "skip_number js (ptr s)" and ?v = "length (heap s)"
  let ?w1 = "(upd_flags (\<lambda>f. f\<lparr>flag_next := True, flag_reproc := False\<rparr>) x1)\<lparr>ptr := ?q - 1\<rparr>"
  let ?w2 = "advance (- 1) (upd_flags (\<lambda>f. f\<lparr>flag_reproc := False\<rparr>) (upd_flags (\<lambda>f. f\<lparr>flag_next := True, flag_reproc := True\<rparr>)
     (x2\<lparr>ptr := skip_number js (ptr x2)\<rparr>)))"
  note plain = seeking_plain [OF assms(1)] and d = simD [OF assms(2)]
  have p: "s_top x1 = Some ?v" "?v < length (heap x1)" "flags x1 = flags (unseek s)" "first_pass x1" "in_step x1 x2"
    "ptr x1 = ptr s" "\<not> first_pass x2"
    using x(3) by (auto simp: new_pair_def in_step_def)
  have st: "in_step ?w1 ?w2" using p(5,6) by (simp add: in_step_def)
  have sh: "shadow ?v ?w1 y"
    by (rule entered_shadow [OF y(1) p(1,2)]) simp_all
  have "grows ?w1 y"
    by (rule grows_key) (use y(1) in \<open>auto simp: entered_def\<close>)
  then have fit: "fits H ?w1" using y(3) by (rule fits_grows)
  have sim: "sim H ?w1 ?w2"
    by (rule new_pair_sim [OF assms(1-3) x(3) st]) (use fit in simp_all)
  have ok: "heap_ok ?w1" using x(4) by simp
  have ready: "tail_ready ?w1" using ok p plain by (auto simp: tail_ready_def)
  have long: "\<not> too_long ?w1" using y(4) too_long_shadow [OF sh ok] by simp
  have "section_next ?w1 = Continue (fin ?w1)"
    using section_next_fin [of ?w1 ?v] ok long p by auto
  with next_steps [OF sim ready fit] obtain z where z: "section_next ?w2 = Continue z" "sim H (fin ?w1) z" by auto
  have "json_body cfg js s2 = Continue z"
    using z(1) p(7) x(2) unfolding start_body_second [OF assms(1,2,4,5)]
    by (simp add: seek_number_def section_tail_def section_reproc_def)
  moreover have "(fin ?w1)\<lparr>ptr := ?q\<rparr> = advance 1 (fin ?w1)" by (simp add: advance_def)
  then have "sim H ((fin ?w1)\<lparr>ptr := ?q\<rparr>) (advance 1 z)" using sim_advance [OF z(2), of 1] by simp
  then have "sim H ((fin y)\<lparr>ptr := ?q\<rparr>) (advance 1 z)"
    by (rule sim_fin_shadow [OF sh ok y(2)]) (use p plain in simp_all)
  ultimately show ?thesis by blast
qed

section \<open>The second pass follows the first\<close>

definition related :: "json_settings \<Rightarrow> string \<Rightarrow> json_node list \<Rightarrow> jst \<Rightarrow> jst \<Rightarrow> bool" where
  "related cfg js H s s2 \<longleftrightarrow>
     sim H s s2 \<and> no_number s \<or>
     (\<exists>t. inside cfg js t s \<and> numeric (jtype (heap s ! t)) \<and> sim H ((fin s)\<lparr>ptr := skip_number js (ptr s)\<rparr>) s2)"

text \<open>A step of the first pass on its way to \<open>sf\<close>, and what the second pass does.\<close>

definition matched :: "json_settings \<Rightarrow> string \<Rightarrow> json_node list \<Rightarrow> jst \<Rightarrow> jst \<Rightarrow> bool" where
  "matched cfg js H s' s2 \<longleftrightarrow>
     related cfg js H s' s2 \<or> (\<exists>z. json_body cfg js s2 = Failed Memory_allocation_failure z) \<or>
     (\<exists>z. (json_body cfg js s2 = Fall z \<or> json_body cfg js s2 = Continue z) \<and> related cfg js H s' (advance 1 z))"

lemma matched_plain:
  assumes "inv1 cfg js s" "sim H s s2" "no_number s" "linked H" "fits H s" "\<not> number_ahead js s"
    and "json_body cfg js s = Fall s' \<or> json_body cfg js s = Continue s'" "fits H s'"
  shows "matched cfg js H (advance 1 s') s2"
proof -
  have "no_number (advance 1 s')" using json_body_no_number [OF assms(1,6,3)] assms(7) by auto
  moreover from json_body_second [OF assms(1,2,4,5,6)] assms(7,8)
  have "(\<exists>z. (json_body cfg js s2 = Fall z \<or> json_body cfg js s2 = Continue z) \<and> sim H s' z) \<or>
      (\<exists>z. json_body cfg js s2 = Failed Memory_allocation_failure z)"
    by (auto simp: follows_def)
  ultimately show ?thesis by (auto simp: matched_def related_def intro: sim_advance)
qed

lemma matched_start:
  assumes "inv1 cfg js s" "sim H s s2" "no_number s" "linked H" "number_ahead js s"
    and "json_body cfg js s = Fall s' \<or> json_body cfg js s = Continue s'"
    and "json_loop cfg js fuel (advance 1 s') = Break sf" "H = heap sf"
  shows "matched cfg js H (advance 1 s') s2"
proof -
  from assms(3,5) no_number_in_number obtain b where b: "rd js (ptr s) = Some b" "starts_number b s"
    and sk: "seeking cfg js s"
    using assms(1) by (auto simp: number_ahead_def seeking_def starts_number_def)
  note plain = seeking_plain [OF sk]
  let ?y = "advance 1 s'" and ?v = "length (heap s)"
  have inv: "inv1 cfg js ?y" using json_body_first [OF assms(1)] assms(6) by (auto simp: progress_def)
  have fit: "fits H ?y" using fits_loop [OF inv assms(7)] assms(8) by simp
  from sk assms(2) show ?thesis
  proof (cases rule: new_both [where ty = json_integer and j = 0])
    case (failed z)
    then show ?thesis using assms(6) start_body [OF sk b] by (simp add: seek_number_def)
  next
    case (alone x1)
    have "exits (\<lambda>x. first_pass x \<and> flags x = flags (unseek s) \<and> ptr x = ptr s) (\<lambda>_. False) (\<lambda>_. False)
        (\<lambda>_. True) (new_value cfg json_integer (unseek s))"
      by (rule new_value_exits) (use plain in simp_all)
    with alone(1) have "first_pass x1 \<and> flags x1 = flags (unseek s) \<and> ptr x1 = ptr s" by simp
    with start_first [OF sk b, of x1] alone(1) assms(6) have "entered x1 ?y" by auto
    with alone(2) have "length (heap ?y) = Suc ?v" by (simp add: entered_def)
    with fit alone(3) show ?thesis by (simp add: fits_def)
  next
    case (failed2 x1 z)
    then show ?thesis using start_body_second [OF sk assms(2) b] by (auto simp: seek_number_def matched_def)
  next
    case (both x1 x2 u m)
    then have new: "new_value cfg json_integer (unseek s) = Fall x1" "new_value cfg json_integer (unseek s2) = Fall x2"
      by simp_all
    have x1: "first_pass x1" "flags x1 = flags (unseek s)" "ptr x1 = ptr s" "s_top x1 = Some ?v" "?v < length (heap x1)"
      "heap x1 = heap (grown json_integer s)"
      using both(3) by (auto simp: new_pair_def)
    from start_first [OF sk b new(1) x1(1-3)] assms(6) have y: "entered x1 ?y" "skip_number js (ptr ?y) = skip_number js (ptr s)"
      by auto
    have ok: "heap_ok x1" using seeking_grown [OF sk, of json_integer 0] both(4) by simp
    have num: "numeric (jtype (heap ?y ! ?v))" using y(1) x1(6) by (simp add: entered_def grown_nth)
    have ins: "inside cfg js ?v ?y"
      using inv y(1) x1 plain by (auto simp: inside_def entered_def)
    have "\<not> too_long ?y" by (rule number_finishes [OF ins num assms(7)])
    with start_second [OF sk assms(2,4) b new both(3) ok y(1) _ fit] inside_plain(2) [OF ins] y(2) ins num
    show ?thesis by (auto simp: matched_def related_def)
  qed
qed

lemma matched_number:
  assumes "inside cfg js t s" "numeric (jtype (heap s ! t))" "sim H ((fin s)\<lparr>ptr := skip_number js (ptr s)\<rparr>) s2"
    and "json_body cfg js s = Fall s' \<or> json_body cfg js s = Continue s'"
    and "json_loop cfg js fuel (advance 1 s') = Break sf"
  shows "related cfg js H (advance 1 s') s2"
proof -
  note plain = inside_plain [OF assms(1)]
  obtain b where b: "rd js (ptr s) = Some b" using rd_some [of "ptr s" js] plain by auto
  from assms(1,2) b show ?thesis
  proof (cases rule: number_step)
    case (more x)
    then have x: "x = s'" using assms(4) by auto
    note m = inside_more [OF assms(1) more(1,2,4)] and skip = skip_number_num [OF b more(5)]
    have "sim H ((fin (advance 1 x))\<lparr>ptr := skip_number js (ptr s)\<rparr>) s2"
      using sim_fin_shadow [OF m(3) plain(2) inside_plain(2) [OF m(1)] assms(3)] plain by simp
    then show ?thesis using m skip x by (auto simp: related_def)
  next
    case (last x)
    then have x: "fin x = s'" using assms(4) by auto
    have "\<not> is_num_char b"
    proof
      assume "is_num_char b"
      from after_number [OF last(2) assms(1) last(3) b this last(4)] obtain e z
        where "json_body cfg js (advance 1 s') = Failed e z" using x by auto
      then show False using assms(5) by (cases fuel) simp_all
    qed
    then have skip: "skip_number js (ptr s) = ptr s" by (rule skip_number_stop [OF b])
    have "sim H ((fin x)\<lparr>ptr := ptr s\<rparr>) s2"
      by (rule sim_fin_shadow [OF last(2) plain(2) last(3)]) (use assms(3) plain skip in simp_all)
    moreover have "(fin x)\<lparr>ptr := ptr s\<rparr> = advance 1 s'" using x last(4) by (auto simp: advance_def)
    ultimately have "sim H (advance 1 s') s2" by simp
    moreover have "no_number s'"
      using no_number_fin [OF last(3)] last(2) x by (auto simp: shadow_def)
    ultimately show ?thesis by (simp add: related_def)
  qed (use assms(4) in auto)
qed

lemma matched_step:
  assumes "inv1 cfg js s" "related cfg js H s s2" "linked H" "H = heap sf"
    and "json_body cfg js s = Fall s' \<or> json_body cfg js s = Continue s'"
    and "json_loop cfg js fuel (advance 1 s') = Break sf"
  shows "matched cfg js H (advance 1 s') s2"
proof -
  have inv: "inv1 cfg js (advance 1 s')" using json_body_first [OF assms(1)] assms(5) by (auto simp: progress_def)
  have fit': "fits H (advance 1 s')" using fits_loop [OF inv assms(6)] assms(4) by simp
  have g: "grows s' (advance 1 s')" by (rule grows_key) simp_all
  have fit: "fits H s'" by (rule fits_grows [OF g fit'])
  have "exits (grows s) (grows s) (grows s) (\<lambda>_. True) (json_body cfg js s)" by (rule grows_body [OF assms(1)])
  then have "fits H s" using fit assms(5) fits_grows by auto
  from assms(2) consider (plain) "sim H s s2" "no_number s"
    | (number) t where "inside cfg js t s" "numeric (jtype (heap s ! t))" "sim H ((fin s)\<lparr>ptr := skip_number js (ptr s)\<rparr>) s2"
    by (auto simp: related_def)
  then show ?thesis
  proof cases
    case plain
    show ?thesis
    proof (cases "number_ahead js s")
      case True
      show ?thesis by (rule matched_start [OF assms(1) plain assms(3) True assms(5,6,4)])
    next
      case False
      show ?thesis by (rule matched_plain [OF assms(1) plain assms(3) \<open>fits H s\<close> False assms(5) fit])
    qed
  next
    case number
    from matched_number [OF number assms(5,6)] show ?thesis by (simp add: matched_def)
  qed
qed

lemma number_not_break:
  assumes "inv1 cfg js s" "related cfg js H s s2" "json_body cfg js s = Break z"
  shows "sim H s s2" "\<not> number_ahead js s"
proof -
  have "False" if t: "inside cfg js t s" "numeric (jtype (heap s ! t))" for t
  proof -
    obtain b where b: "rd js (ptr s) = Some b" using rd_some [of "ptr s" js] inside_plain [OF t(1)] by auto
    from t b show False by (cases rule: number_step) (use assms(3) in auto)
  qed
  with assms(2) have "sim H s s2 \<and> no_number s" by (auto simp: related_def)
  then have no: "\<not> in_number s" and "sim H s s2" by (simp_all add: no_number_in_number)
  from this(2) show "sim H s s2" .
  show "\<not> number_ahead js s"
  proof
    assume "number_ahead js s"
    with no obtain b where b: "rd js (ptr s) = Some b" "starts_number b s" and sk: "seeking cfg js s"
      using assms(1) by (auto simp: number_ahead_def seeking_def starts_number_def)
    have new: "exits (\<lambda>x. first_pass x \<and> flags x = flags (unseek s) \<and> ptr x = ptr s) (\<lambda>_. False) (\<lambda>_. False)
        (\<lambda>_. True) (new_value cfg json_integer (unseek s))"
      by (rule new_value_exits) (use seeking_plain [OF sk] in simp_all)
    show False
      using new start_first [OF sk b] start_body [OF sk b] assms(3)
      by (cases "new_value cfg json_integer (unseek s)") (auto simp: seek_number_def)
  qed
qed

lemma loop_more:
  assumes "json_loop cfg js m s = c" "\<And>z. c \<noteq> Failed Out_of_fuel z" "m \<le> n"
  shows "json_loop cfg js n s = c"
  using assms
proof (induction m arbitrary: n s)
  case (Suc m)
  then obtain k where k: "n = Suc k" "m \<le> k" by (cases n) auto
  show ?case
    using Suc.prems k Suc.IH [OF _ Suc.prems(2) k(2)] by (cases "json_body cfg js s") auto
qed auto

lemma sim_init:
  assumes "heap_ok sf"
  shows "sim (heap sf) (pass1_init m) (pass2_init sf)" "no_number (pass1_init m)" "linked (heap sf)"
  using assms
  by (auto simp: sim_def in_step_def sim_heap_def same_shape_def pass1_init_def pass2_init_def flags_seek_def
        no_number_def heap_ok_def node_ok_def linked_def)

definition ends_well :: "json_settings \<Rightarrow> string \<Rightarrow> json_node list \<Rightarrow> (jst \<Rightarrow> bool) \<Rightarrow> (json_error \<Rightarrow> bool) \<Rightarrow> jst \<Rightarrow> nat \<Rightarrow> jst \<Rightarrow> bool" where
  "ends_well cfg js H keep err sf m s2 \<longleftrightarrow>
     (\<exists>z. json_loop cfg js m s2 = Break z \<and> sim H sf z \<and> keep z) \<or>
     (\<exists>z. json_loop cfg js m s2 = Failed Memory_allocation_failure z) \<and> err Memory_allocation_failure"

text \<open>
  The second pass on the way to the store \<open>H\<close>, with what a state of it \<open>keep\<close>s and the errors
  that this leaves possible. When the first pass ends at \<open>sf\<close>, the second ends too, in at most
  as many iterations, and in a state that matches \<open>sf\<close>; or an allocation fails.
\<close>

locale second_pass =
  fixes cfg :: json_settings and js :: string and H :: "json_node list"
    and keep :: "jst \<Rightarrow> bool" and err :: "json_error \<Rightarrow> bool"
  assumes keeps: "inv1 cfg js s \<Longrightarrow> related cfg js H s s2 \<Longrightarrow> keep s2 \<Longrightarrow>
    exits (\<lambda>z. keep (advance 1 z)) (\<lambda>z. keep (advance 1 z)) keep err (json_body cfg js s2)"
begin

lemma second_step:
  assumes "matched cfg js H x s2" "inv1 cfg js s" "related cfg js H s s2" "keep s2"
    and "\<And>s2. related cfg js H x s2 \<Longrightarrow> keep s2 \<Longrightarrow> \<exists>m \<le> n. ends_well cfg js H keep err sf m s2"
  shows "\<exists>m \<le> Suc n. ends_well cfg js H keep err sf m s2"
proof -
  note step = keeps [OF assms(2-4)]
  have on: "ends_well cfg js H keep err sf (Suc m) s2" if "json_body cfg js s2 = Fall z \<or> json_body cfg js s2 = Continue z"
    "ends_well cfg js H keep err sf m (advance 1 z)" for m z
    using that by (auto simp: ends_well_def)
  from assms(1) consider "related cfg js H x s2" | z where "json_body cfg js s2 = Failed Memory_allocation_failure z"
    | z where "json_body cfg js s2 = Fall z \<or> json_body cfg js s2 = Continue z" "related cfg js H x (advance 1 z)"
    by (auto simp: matched_def)
  then show ?thesis
  proof cases
    case 1
    then show ?thesis using assms(4,5) le_SucI by blast
  next
    case 2
    then show ?thesis using step by (intro exI [of _ "Suc 0"]) (simp add: ends_well_def)
  next
    case (3 z)
    then have "keep (advance 1 z)" using step by auto
    from assms(5) [OF 3(2) this] on [OF 3(1)] show ?thesis by (meson Suc_le_mono)
  qed
qed

lemma second_loop:
  assumes "inv1 cfg js s" "json_loop cfg js n s = Break sf" "related cfg js H s s2" "keep s2" "linked H" "H = heap sf"
  shows "\<exists>m \<le> n. ends_well cfg js H keep err sf m s2"
  using assms(1-4)
proof (induction n arbitrary: s s2)
  case (Suc n)
  show ?case
  proof (cases "json_body cfg js s")
    case (Break x)
    then have x: "x = sf" using Suc.prems(2) by simp
    have fit: "fits H s" using fits_loop [OF Suc.prems(1,2)] assms(6) by simp
    have "inv1 cfg js sf" "flag_done (flags sf)" using json_body_first [OF Suc.prems(1)] Suc.prems(1) Break x by auto
    then have "fits H sf" using fits_done assms(6) by simp
    moreover have "follows H (Break sf) (json_body cfg js s2)"
      using json_body_second [OF Suc.prems(1) number_not_break(1) [OF Suc.prems(1,3) Break] assms(5) fit
          number_not_break(2) [OF Suc.prems(1,3) Break]] Break x by simp
    ultimately show ?thesis
      using keeps [OF Suc.prems(1,3,4)]
      by (intro exI [of _ "Suc n"]) (auto simp: follows_def ends_well_def)
  next
    case (Failed e x)
    then show ?thesis using Suc.prems(2) by simp
  next
    case (Fall s')
    then have loop: "json_loop cfg js n (advance 1 s') = Break sf" using Suc.prems(2) by simp
    have inv: "inv1 cfg js (advance 1 s')" using json_body_first [OF Suc.prems(1)] Fall by (simp add: progress_def)
    have "matched cfg js H (advance 1 s') s2"
      by (rule matched_step [OF Suc.prems(1,3) assms(5,6) _ loop]) (simp add: Fall)
    from second_step [OF this Suc.prems(1,3,4) Suc.IH [OF inv loop]] show ?thesis .
  next
    case (Continue s')
    then have loop: "json_loop cfg js n (advance 1 s') = Break sf" using Suc.prems(2) by simp
    have inv: "inv1 cfg js (advance 1 s')" using json_body_first [OF Suc.prems(1)] Continue by (simp add: progress_def)
    have "matched cfg js H (advance 1 s') s2"
      by (rule matched_step [OF Suc.prems(1,3) assms(5,6) _ loop]) (simp add: Continue)
    from second_step [OF this Suc.prems(1,3,4) Suc.IH [OF inv loop]] show ?thesis .
  qed
qed simp

lemma ends:
  assumes "json_loop cfg js (json_fuel js) (pass1_init m) = Break sf" "keep (pass2_init sf)" "H = heap sf"
  shows "(\<exists>z. json_loop cfg js (json_fuel js) (pass2_init sf) = Break z \<and> sim H sf z \<and> keep z) \<or>
    (\<exists>z. json_loop cfg js (json_fuel js) (pass2_init sf) = Failed Memory_allocation_failure z) \<and> err Memory_allocation_failure"
proof -
  have "heap_ok sf" using pass1_ends [of cfg js m] assms by (simp add: inv1_def)
  note init = sim_init [OF this]
  have "related cfg js H (pass1_init m) (pass2_init sf)" using init assms(3) by (simp add: related_def)
  from second_loop [OF pass1_inv assms(1) this assms(2) _ assms(3)] init(3) assms(3)
  obtain k where k: "k \<le> json_fuel js" "ends_well cfg js H keep err sf k (pass2_init sf)" by auto
  have "json_loop cfg js (json_fuel js) (pass2_init sf) = c"
    if "json_loop cfg js k (pass2_init sf) = c" "\<And>z. c \<noteq> Failed Out_of_fuel z" for c
    by (rule loop_more [OF that k(1)])
  with k(2) show ?thesis by (auto simp: ends_well_def)
qed

end

text \<open>With any allocator the second pass ends within the fuel.\<close>

interpretation any: second_pass cfg js H "\<lambda>_. True" "\<lambda>_. True" for cfg js H
proof unfold_locales
  fix s s2 show "exits (\<lambda>_. True) (\<lambda>_. True) (\<lambda>_. True) (\<lambda>_. True) (json_body cfg js s2)"
    by (cases "json_body cfg js s2") simp_all
qed

end
