(* ===== verification/Json_Steps.thy ===== *)
theory Json_Steps
  imports Json_Parse
begin

text \<open>
  The loop of the parser seen from the text: where in a document it is after each character.
  A place says what the flags of the parser mean, and a run from one place to another is a
  sequence of iterations. The steps here are those that both passes share: white space,
  punctuation and the end of a value.
\<close>

section \<open>Places\<close>

text \<open>
  A value is wanted; an element of an array, a name in an object or a member of an object
  is over; an object is open; inside a string, with the number of its bytes; the document
  is over.
\<close>

datatype place = Want | Elem | Colon | Open | Member | Instr nat | Finished

fun flags_of :: "place \<Rightarrow> bool \<times> bool \<times> bool \<times> bool \<times> bool" where
  "flags_of Want = (False, True, False, False, False)"
| "flags_of Elem = (True, True, False, False, False)"
| "flags_of Colon = (False, True, False, True, False)"
| "flags_of Open = (False, False, False, False, False)"
| "flags_of Member = (True, False, False, False, False)"
| "flags_of (Instr k) = (False, False, True, False, False)"
| "flags_of Finished = (True, False, False, False, True)"

definition core :: "jflags \<Rightarrow> bool \<times> bool \<times> bool \<times> bool \<times> bool" where
  "core f = (flag_need_comma f, flag_seek_value f, flag_string f, flag_need_colon f, flag_done f)"

definition idle :: "jflags \<Rightarrow> bool" where
  "idle f \<longleftrightarrow> \<not> flag_next f \<and> \<not> flag_reproc f \<and> \<not> flag_escaped f"

text \<open>What no step here changes.\<close>

type_synonym env = "bool \<times> nat option \<times> nat option \<times> nat \<times> mem"

definition env_of :: "jst \<Rightarrow> env" where
  "env_of s = (first_pass s, s_root s, s_alloc s, used_memory s, s_mem s)"

definition sees :: "nat \<Rightarrow> nat option \<Rightarrow> place \<Rightarrow> json_node list \<Rightarrow> env \<Rightarrow> jst \<Rightarrow> bool" where
  "sees n tp pl h e s \<longleftrightarrow>
     ptr s = int n \<and> s_top s = tp \<and> idle (flags s) \<and> core (flags s) = flags_of pl \<and> heap s = h \<and> env_of s = e \<and>
     (\<forall>k. pl = Instr k \<longrightarrow> string_length s = k)"

section \<open>Runs\<close>

definition yields :: "string \<Rightarrow> jst \<Rightarrow> jst \<Rightarrow> bool" where
  "yields js s z \<longleftrightarrow> json_body settings0 js s = Continue z \<or> json_body settings0 js s = Fall z"

definition step :: "string \<Rightarrow> jst \<Rightarrow> jst \<Rightarrow> bool" where
  "step js s s' \<longleftrightarrow> (\<exists>z. yields js s z \<and> s' = advance 1 z)"

definition goes :: "string \<Rightarrow> (jst \<Rightarrow> bool) \<Rightarrow> (jst \<Rightarrow> bool) \<Rightarrow> bool" where
  "goes js A B \<longleftrightarrow> (\<forall>s. A s \<longrightarrow> (\<exists>s'. (step js)\<^sup>*\<^sup>* s s' \<and> B s'))"

lemma goes_refl: "goes js A A"
  by (auto simp: goes_def)

lemma goes_trans: "goes js A B \<Longrightarrow> goes js B C \<Longrightarrow> goes js A C"
  unfolding goes_def by (meson rtranclp_trans)

lemma goes_step:
  assumes "\<And>s. A s \<Longrightarrow> \<exists>z. yields js s z \<and> B (advance 1 z)"
  shows "goes js A B"
proof -
  have "\<exists>s'. (step js)\<^sup>*\<^sup>* s s' \<and> B s'" if "A s" for s
  proof -
    from assms [OF that] obtain z where "yields js s z" "B (advance 1 z)" by blast
    then have "step js s (advance 1 z)" by (auto simp: step_def)
    with \<open>B (advance 1 z)\<close> show ?thesis by blast
  qed
  then show ?thesis by (simp add: goes_def)
qed

lemma runs_loop:
  assumes "(step js)\<^sup>*\<^sup>* s s'"
  shows "\<exists>k. \<forall>n. json_loop settings0 js (k + n) s = json_loop settings0 js n s'"
  using assms
proof (induction rule: converse_rtranclp_induct)
  case base
  show ?case by (intro exI [of _ 0]) simp
next
  case (step s t)
  then obtain k where k: "\<And>n. json_loop settings0 js (k + n) t = json_loop settings0 js n s'" by blast
  have "json_loop settings0 js (Suc k + n) s = json_loop settings0 js n s'" for n
    using step.hyps(1) k by (auto simp: step_def yields_def)
  then show ?case by blast
qed

text \<open>A run that reaches the end of the loop is what the loop does with its fuel.\<close>

lemma goes_loop:
  assumes "goes js A B" "A s" "\<And>s. B s \<Longrightarrow> json_body settings0 js s = Break s"
    and "exits (\<lambda>_. False) (\<lambda>_. False) (\<lambda>_. True) (\<lambda>e. e \<noteq> Out_of_fuel) (json_loop settings0 js fuel s)"
  shows "\<exists>z. json_loop settings0 js fuel s = Break z \<and> B z"
proof -
  from assms(1,2) obtain z where z: "(step js)\<^sup>*\<^sup>* s z" "B z" by (auto simp: goes_def)
  from runs_loop [OF z(1)] obtain k where "json_loop settings0 js (k + 1) s = json_loop settings0 js 1 z" by blast
  then have b: "json_loop settings0 js (k + 1) s = Break z" using assms(3) [OF z(2)] by simp
  show ?thesis
  proof (cases "k + 1 \<le> fuel")
    case True
    from loop_more [OF b _ True] z(2) show ?thesis by auto
  next
    case False
    then have "fuel \<le> k + 1" by simp
    from loop_more [OF refl _ this, of settings0 js s] assms(4) b z(2) show ?thesis
      by (cases "json_loop settings0 js fuel s") auto
  qed
qed

section \<open>Shared steps\<close>

lemma rd_at [simp]: "rd (xs @ c # ys) (int (length xs)) = Some c"
  by (simp add: rd_def nth_append)

lemma rd_end [simp]: "rd xs (int (length xs)) = Some NUL"
  by (simp add: rd_def)

lemma settings0_simps [simp]: "\<not> enable_comments settings0" "max_memory settings0 = 0" "value_extra settings0 = 0"
  by (simp_all add: settings0_def)

lemma section_comments_off [simp]: "section_comments settings0 js b s = Fall s"
  by (simp add: section_comments_def)

text \<open>The body outside of strings.\<close>

lemma body_plain:
  assumes "rd js (ptr s) = Some b" "\<not> flag_string (flags s)" "\<not> flag_done (flags s)"
  shows "json_body settings0 js s =
    then_section (if flag_seek_value (flags s) then section_seek settings0 js b s else section_inside b s) section_tail"
  using assms by (simp add: json_body_tail section_string_def section_done_def)

lemma tail_idle: "idle (flags s) \<Longrightarrow> section_tail s = Fall s"
  by (simp add: section_tail_def section_reproc_def section_next_def idle_def)

lemma sees_advance:
  "sees (Suc n) tp pl h e (advance 1 s) \<longleftrightarrow> sees n tp pl h e s"
  by (auto simp: sees_def advance_def env_of_def)

lemma goes_sees:
  assumes "\<And>s. sees n tp pl h e s \<Longrightarrow> \<exists>z. yields js s z \<and> sees n tp' pl' h' e' z"
  shows "goes js (sees n tp pl h e) (sees (Suc n) tp' pl' h' e')"
  by (rule goes_step) (use assms in \<open>auto simp: sees_advance\<close>)

text \<open>What the body does at a place with the character at it.\<close>

lemma seek_step:
  assumes "js = xs @ c # ys" "sees (length xs) tp pl h e s" "pl \<in> {Want, Elem, Colon}"
  shows "json_body settings0 js s = then_section (section_seek settings0 js c s) section_tail"
proof -
  have "rd js (ptr s) = Some c" using assms(1,2) by (simp add: sees_def)
  from body_plain [OF this] assms(2,3) show ?thesis by (auto simp: sees_def core_def)
qed

lemma object_step:
  assumes "js = xs @ c # ys" "sees (length xs) (Some t) pl h e s" "pl \<in> {Open, Member}" "jtype (h ! t) = json_object"
  shows "json_body settings0 js s = then_section (section_object c s) section_tail"
proof -
  have "rd js (ptr s) = Some c" using assms(1,2) by (simp add: sees_def)
  from body_plain [OF this] assms(2-) show ?thesis by (auto simp: sees_def core_def section_inside_def)
qed

lemma done_step:
  assumes "js = xs @ c # ys" "sees (length xs) tp Finished h e s"
  shows "json_body settings0 js s = (if c = NUL then Break s else if is_ws c then Continue (count_line c s) else Failed Trailing_garbage s)"
  using assms by (simp add: sees_def core_def json_body_tail section_string_def section_done_def)

lemma step_space:
  assumes "js = xs @ c # ys" "is_ws c" "pl \<in> {Want, Elem, Colon, Finished} \<or> pl \<in> {Open, Member} \<and> tp = Some t \<and> jtype (h ! t) = json_object"
  shows "goes js (sees (length xs) tp pl h e) (sees (Suc (length xs)) tp pl h e)"
proof (rule goes_sees)
  fix s assume s: "sees (length xs) tp pl h e s"
  have "c \<noteq> NUL" using assms(2) by (auto simp: is_ws_def)
  then have "json_body settings0 js s = Continue (count_line c s)"
    using assms(3) seek_step [OF assms(1) s] object_step [OF assms(1), of t pl h e s] done_step [OF assms(1), of tp h e s] s assms(2)
    by (auto simp: section_seek_def section_object_def)
  moreover have "sees (length xs) tp pl h e (count_line c s)" using s by (auto simp: sees_def count_line_def env_of_def)
  ultimately show "\<exists>z. yields js s z \<and> sees (length xs) tp pl h e z" by (auto simp: yields_def)
qed

text \<open>Punctuation between values.\<close>

lemma step_elem_comma:
  assumes "js = xs @ CHR '','' # ys"
  shows "goes js (sees (length xs) tp Elem h e) (sees (Suc (length xs)) tp Want h e)"
proof (rule goes_sees)
  fix s assume s: "sees (length xs) tp Elem h e s"
  let ?z = "upd_flags (\<lambda>f. f\<lparr>flag_need_comma := False\<rparr>) s"
  have "yields js s ?z" "sees (length xs) tp Want h e ?z"
    using s seek_step [OF assms s]
    by (auto simp: yields_def section_seek_def is_ws_def sees_def core_def idle_def env_of_def upd_flags_def)
  then show "\<exists>z. yields js s z \<and> sees (length xs) tp Want h e z" by blast
qed

lemma step_colon:
  assumes "js = xs @ CHR '':'' # ys"
  shows "goes js (sees (length xs) tp Colon h e) (sees (Suc (length xs)) tp Want h e)"
proof (rule goes_sees)
  fix s assume s: "sees (length xs) tp Colon h e s"
  let ?z = "upd_flags (\<lambda>f. f\<lparr>flag_need_colon := False\<rparr>) s"
  have "yields js s ?z" "sees (length xs) tp Want h e ?z"
    using s seek_step [OF assms s]
    by (auto simp: yields_def section_seek_def is_ws_def sees_def core_def idle_def env_of_def upd_flags_def)
  then show "\<exists>z. yields js s z \<and> sees (length xs) tp Want h e z" by blast
qed

lemma step_member_comma:
  assumes "js = xs @ CHR '','' # ys" "jtype (h ! t) = json_object"
  shows "goes js (sees (length xs) (Some t) Member h e) (sees (Suc (length xs)) (Some t) Open h e)"
proof (rule goes_sees)
  fix s assume s: "sees (length xs) (Some t) Member h e s"
  let ?z = "upd_flags (\<lambda>f. f\<lparr>flag_need_comma := False\<rparr>) s"
  have z: "sees (length xs) (Some t) Open h e ?z"
    using s by (auto simp: sees_def core_def idle_def env_of_def upd_flags_def)
  then have "section_tail ?z = Fall ?z" by (simp add: sees_def tail_idle)
  moreover have "section_object (CHR '','') s = Fall ?z"
    using s by (auto simp: section_object_def is_ws_def sees_def core_def)
  ultimately have "yields js s ?z" using object_step [OF assms(1) s _ assms(2)] by (simp add: yields_def)
  with z show "\<exists>z. yields js s z \<and> sees (length xs) (Some t) Open h e z" by blast
qed

lemma step_name:
  assumes "js = xs @ CHR 0x22 # ys" "jtype (h ! t) = json_object"
  shows "goes js (sees (length xs) (Some t) Open h e) (sees (Suc (length xs)) (Some t) (Instr 0) h e)"
proof (rule goes_sees)
  fix s assume s: "sees (length xs) (Some t) Open h e s"
  let ?z = "upd_flags (\<lambda>f. f\<lparr>flag_string := True\<rparr>) (s\<lparr>string_length := 0\<rparr>)"
  have z: "sees (length xs) (Some t) (Instr 0) h e ?z"
    using s by (auto simp: sees_def core_def idle_def env_of_def upd_flags_def)
  then have "section_tail ?z = Fall ?z" by (simp add: sees_def tail_idle)
  moreover have "section_object (CHR 0x22) s = Fall ?z"
    using s by (auto simp: section_object_def is_ws_def sees_def core_def)
  ultimately have "yields js s ?z" using object_step [OF assms(1) s _ assms(2)] by (simp add: yields_def)
  with z show "\<exists>z. yields js s z \<and> sees (length xs) (Some t) (Instr 0) h e z" by blast
qed

section \<open>The end of a value\<close>

text \<open>What a finished value does to the node of its parent.\<close>

definition bump :: "json_node \<Rightarrow> json_node" where
  "bump n = n\<lparr>jlength := jlength n + 1\<rparr>"

definition linked_in :: "nat \<Rightarrow> json_node \<Rightarrow> json_node" where
  "linked_in t n =
     (if jtype n = json_object then n\<lparr>jentries := (jentries n)[jlength n := (jentries n ! jlength n)\<lparr>evalue := Some t\<rparr>]\<rparr>
      else n\<lparr>jvalues := (jvalues n)[jlength n := Some t]\<rparr>)"

definition delivered :: "bool \<Rightarrow> nat \<Rightarrow> json_node \<Rightarrow> json_node" where
  "delivered first t n = bump (if first then n else linked_in t n)"

definition takes :: "bool \<Rightarrow> json_node \<Rightarrow> bool" where
  "takes first n \<longleftrightarrow> jtype n \<in> {json_object, json_array} \<and> jlength n + 1 \<le> uint_max \<and>
     (first \<or> (if jtype n = json_object then jlength n < length (jentries n) else jlength n < length (jvalues n)))"

fun over :: "json_type \<Rightarrow> place" where
  "over json_array = Elem"
| "over _ = Member"

text \<open>The tail of the body on a finished value below a parent.\<close>

lemma tail_child:
  assumes "flag_next (flags s)" "s_top s = Some t" "jparent (heap s ! t) = Some p" "p < length (heap s)"
    and "takes (first_pass s) (heap s ! p)"
  shows "section_tail s = Continue (s\<lparr>ptr := ptr s - (if flag_reproc (flags s) then 1 else 0),
    flags := (flags s)\<lparr>flag_next := False, flag_reproc := False, flag_need_comma := True,
      flag_seek_value := flag_seek_value (flags s) \<or> jtype (heap s ! p) = json_array\<rparr>,
    heap := (heap s)[p := delivered (first_pass s) t (heap s ! p)], s_top := Some p\<rparr>)"
proof -
  let ?s1 = "s\<lparr>ptr := ptr s - (if flag_reproc (flags s) then 1 else 0), flags := (flags s)\<lparr>flag_reproc := False\<rparr>\<rparr>"
  have "f\<lparr>flag_reproc := False\<rparr> = f" if "\<not> flag_reproc f" for f :: jflags using that by (cases f) simp
  then have "section_reproc s = Fall ?s1" by (cases s) (simp add: section_reproc_def advance_def upd_flags_def)
  then have r: "section_tail s = section_next ?s1" by (simp add: section_tail_def)
  let ?s2 = "?s1\<lparr>flags := (flags s)\<lparr>flag_reproc := False, flag_next := False, flag_need_comma := True,
      flag_seek_value := flag_seek_value (flags s) \<or> jtype (heap s ! p) = json_array\<rparr>\<rparr>"
  let ?n = "if first_pass s then heap s ! p else linked_in t (heap s ! p)"
  have "attach t p ?s2 = Fall (?s2\<lparr>heap := (heap s)[p := ?n]\<rparr>)"
    using assms(4,5) by (auto simp: attach_def takes_def linked_in_def upd_node_def Let_def)
  moreover have "jlength ?n = jlength (heap s ! p)" by (simp add: linked_in_def)
  ultimately show ?thesis
    unfolding r using assms
    by (auto simp: section_next_def Let_def upd_flags_def upd_node_def delivered_def bump_def takes_def)
qed

text \<open>Where the parser is after the value at \<open>t\<close> has ended.\<close>

definition ends_as :: "bool \<Rightarrow> json_node list \<Rightarrow> nat \<Rightarrow> nat option \<Rightarrow> place \<Rightarrow> json_node list \<Rightarrow> bool" where
  "ends_as first h t tp pl h' \<longleftrightarrow>
     (case jparent (h ! t) of
        None \<Rightarrow> tp = Some t \<and> pl = Finished \<and> h' = h
      | Some p \<Rightarrow> p < length h \<and> takes first (h ! p) \<and> tp = Some p \<and> pl = over (jtype (h ! p)) \<and>
          h' = h[p := delivered first t (h ! p)])"

lemma tail_ends:
  assumes "flag_next (flags s)" "s_top s = Some t" "ends_as (first_pass s) (heap s) t tp pl h'"
    and "\<not> flag_seek_value (flags s)" "\<not> flag_string (flags s)" "\<not> flag_need_colon (flags s)" "\<not> flag_done (flags s)"
      "\<not> flag_escaped (flags s)"
    and "int m = ptr s + 1 - (if flag_reproc (flags s) then 1 else 0)"
  shows "\<exists>z. section_tail s = Continue z \<and> sees m tp pl h' (env_of s) (advance 1 z)"
proof (cases "jparent (heap s ! t)")
  case None
  let ?z = "upd_flags (\<lambda>f. f\<lparr>flag_next := False, flag_need_comma := True, flag_done := True\<rparr>)
      (if flag_reproc (flags s) then advance (- 1) (upd_flags (\<lambda>f. f\<lparr>flag_reproc := False\<rparr>) s) else s)"
  have "section_tail s = Continue ?z"
    using assms(1,2) None by (simp add: section_tail_def section_reproc_def section_next_def upd_flags_def advance_def Let_def)
  moreover have "sees m tp pl h' (env_of s) (advance 1 ?z)"
    using assms None by (auto simp: sees_def ends_as_def core_def idle_def env_of_def upd_flags_def advance_def)
  ultimately show ?thesis by blast
next
  case (Some p)
  with assms(3) have p: "p < length (heap s)" "takes (first_pass s) (heap s ! p)" "tp = Some p" "pl = over (jtype (heap s ! p))"
    "h' = (heap s)[p := delivered (first_pass s) t (heap s ! p)]" by (simp_all add: ends_as_def)
  have c: "jtype (heap s ! p) = json_object \<or> jtype (heap s ! p) = json_array" using p(2) by (auto simp: takes_def)
  obtain z where z: "section_tail s = Continue z" "ptr z = ptr s - (if flag_reproc (flags s) then 1 else 0)"
      "flags z = (flags s)\<lparr>flag_next := False, flag_reproc := False, flag_need_comma := True,
        flag_seek_value := flag_seek_value (flags s) \<or> jtype (heap s ! p) = json_array\<rparr>"
      "heap z = h'" "s_top z = tp" "env_of z = env_of s"
    using tail_child [OF assms(1,2) Some p(1,2)] p(3,5) by (simp add: env_of_def)
  then show ?thesis using assms(4-) p(4) c
    by (auto simp: sees_def core_def idle_def env_of_def advance_def)
qed

text \<open>The closing brackets.\<close>

lemma step_array_close:
  assumes "js = xs @ CHR '']'' # ys" "pl \<in> {Want, Elem}" "jtype (h ! t) = json_array" "ends_as (fst e) h t tp' pl' h'"
  shows "goes js (sees (length xs) (Some t) pl h e) (sees (Suc (length xs)) tp' pl' h' e)"
proof (rule goes_step)
  fix s assume s: "sees (length xs) (Some t) pl h e s"
  let ?s = "upd_flags (\<lambda>f. f\<lparr>flag_need_comma := False, flag_seek_value := False, flag_next := True\<rparr>) s"
  have sk: "section_seek settings0 js (CHR '']'') s = Fall ?s"
    using s assms(3) by (simp add: section_seek_def is_ws_def sees_def)
  have "\<exists>z. section_tail ?s = Continue z \<and> sees (Suc (length xs)) tp' pl' h' (env_of ?s) (advance 1 z)"
    using s assms(2,4) by (intro tail_ends [where t = t]) (auto simp: sees_def idle_def core_def env_of_def upd_flags_def)
  moreover have "env_of ?s = e" using s by (simp add: sees_def env_of_def upd_flags_def)
  ultimately show "\<exists>z. yields js s z \<and> sees (Suc (length xs)) tp' pl' h' e (advance 1 z)"
    using seek_step [OF assms(1) s] sk assms(2) by (auto simp: yields_def)
qed

lemma step_object_close:
  assumes "js = xs @ CHR 0x7D # ys" "pl \<in> {Open, Member}" "jtype (h ! t) = json_object" "ends_as (fst e) h t tp' pl' h'"
  shows "goes js (sees (length xs) (Some t) pl h e) (sees (Suc (length xs)) tp' pl' h' e)"
proof (rule goes_step)
  fix s assume s: "sees (length xs) (Some t) pl h e s"
  let ?s = "upd_flags (\<lambda>f. f\<lparr>flag_need_comma := False, flag_next := True\<rparr>) s"
  have sk: "section_object (CHR 0x7D) s = Fall ?s" by (simp add: section_object_def is_ws_def)
  have "\<exists>z. section_tail ?s = Continue z \<and> sees (Suc (length xs)) tp' pl' h' (env_of ?s) (advance 1 z)"
    using s assms(2,4) by (intro tail_ends [where t = t]) (auto simp: sees_def idle_def core_def env_of_def upd_flags_def)
  moreover have "env_of ?s = e" using s by (simp add: sees_def env_of_def upd_flags_def)
  ultimately show "\<exists>z. yields js s z \<and> sees (Suc (length xs)) tp' pl' h' e (advance 1 z)"
    using object_step [OF assms(1) s assms(2,3)] sk by (auto simp: yields_def)
qed

section \<open>The beginning of a value\<close>

text \<open>A new value at \<open>t\<close>, in whichever way the pass makes it.\<close>

definition opens :: "json_type \<Rightarrow> nat option \<Rightarrow> json_node list \<Rightarrow> env \<Rightarrow> nat \<Rightarrow> json_node list \<Rightarrow> env \<Rightarrow> bool" where
  "opens ty tp h e t h' e' \<longleftrightarrow>
     (\<forall>s. s_top s = tp \<longrightarrow> heap s = h \<longrightarrow> env_of s = e \<longrightarrow>
        (\<exists>z. new_value settings0 ty s = Fall z \<and> s_top z = Some t \<and> heap z = h' \<and> env_of z = e' \<and>
             ptr z = ptr s \<and> flags z = flags s))"

definition unsought :: "jst \<Rightarrow> jst" where
  "unsought s = upd_flags (\<lambda>f. f\<lparr>flag_seek_value := False\<rparr>) s"

lemma start_step:
  assumes "js = xs @ c # ys" "sees (length xs) tp Want h e s" "\<not> is_ws c" "c \<noteq> CHR '']''"
  shows "json_body settings0 js s = then_section (seek_start settings0 js c (unsought s)) section_tail"
  using seek_step [OF assms(1,2)] assms(2-) by (simp add: section_seek_def sees_def core_def unsought_def)

lemma unsought_opens:
  assumes "opens ty tp h e t h' e'" "sees n tp Want h e s"
  obtains z where "new_value settings0 ty (unsought s) = Fall z" "sees n (Some t) Open h' e' z"
proof -
  have "s_top (unsought s) = tp" "heap (unsought s) = h" "env_of (unsought s) = e"
    using assms(2) by (simp_all add: sees_def unsought_def env_of_def upd_flags_def)
  with assms(1) obtain z where "new_value settings0 ty (unsought s) = Fall z" "s_top z = Some t" "heap z = h'" "env_of z = e'"
    "ptr z = ptr (unsought s)" "flags z = flags (unsought s)" unfolding opens_def by blast
  with that [of z] assms(2) show thesis by (auto simp: sees_def unsought_def upd_flags_def core_def idle_def)
qed

lemma step_open_object:
  assumes "js = xs @ CHR 0x7B # ys" "opens json_object tp h e t h' e'"
  shows "goes js (sees (length xs) tp Want h e) (sees (Suc (length xs)) (Some t) Open h' e')"
proof (rule goes_sees)
  fix s assume s: "sees (length xs) tp Want h e s"
  from unsought_opens [OF assms(2) s] obtain z where z: "new_value settings0 json_object (unsought s) = Fall z"
    "sees (length xs) (Some t) Open h' e' z" .
  then have "yields js s z" using start_step [OF assms(1) s] by (simp add: yields_def seek_start_def is_ws_def)
  with z(2) show "\<exists>z. yields js s z \<and> sees (length xs) (Some t) Open h' e' z" by blast
qed

lemma step_open_array:
  assumes "js = xs @ CHR ''['' # ys" "opens json_array tp h e t h' e'"
  shows "goes js (sees (length xs) tp Want h e) (sees (Suc (length xs)) (Some t) Want h' e')"
proof (rule goes_sees)
  fix s assume s: "sees (length xs) tp Want h e s"
  from unsought_opens [OF assms(2) s] obtain z where z: "new_value settings0 json_array (unsought s) = Fall z"
    "sees (length xs) (Some t) Open h' e' z" .
  let ?z = "upd_flags (\<lambda>f. f\<lparr>flag_seek_value := True\<rparr>) z"
  have "yields js s ?z" using start_step [OF assms(1) s] z(1) by (simp add: yields_def seek_start_def is_ws_def)
  moreover have "sees (length xs) (Some t) Want h' e' ?z"
    using z(2) by (simp add: sees_def core_def idle_def env_of_def upd_flags_def)
  ultimately show "\<exists>z. yields js s z \<and> sees (length xs) (Some t) Want h' e' z" by blast
qed

lemma step_open_string:
  assumes "js = xs @ CHR 0x22 # ys" "opens json_string tp h e t h' e'"
  shows "goes js (sees (length xs) tp Want h e) (sees (Suc (length xs)) (Some t) (Instr 0) h' e')"
proof (rule goes_sees)
  fix s assume s: "sees (length xs) tp Want h e s"
  from unsought_opens [OF assms(2) s] obtain z where z: "new_value settings0 json_string (unsought s) = Fall z"
    "sees (length xs) (Some t) Open h' e' z" .
  let ?z = "upd_flags (\<lambda>f. f\<lparr>flag_string := True\<rparr>) (z\<lparr>string_length := 0\<rparr>)"
  have "yields js s ?z" using start_step [OF assms(1) s] z(1) by (simp add: yields_def seek_start_def is_ws_def)
  moreover have "sees (length xs) (Some t) (Instr 0) h' e' ?z"
    using z(2) by (simp add: sees_def core_def idle_def env_of_def upd_flags_def)
  ultimately show "\<exists>z. yields js s z \<and> sees (length xs) (Some t) (Instr 0) h' e' z" by blast
qed

end
