(* ===== verification/Json_Tokens.thy ===== *)
theory Json_Tokens
  imports Json_Steps
begin

text \<open>
  The tokens of a document: literals, strings with their escapes, and numbers. For each the
  text is related to what the parser makes of it, in both passes.
\<close>

section \<open>Literals\<close>

lemma match_at: "match_chars err (xs @ word @ ys) (int (length xs) - 1) word = None"
proof (induction word arbitrary: xs)
  case (Cons c word)
  from Cons.IH [of "xs @ [c]"] show ?case by simp
qed simp

lemma literal_opens:
  assumes "js = xs @ c # word @ ys" "opens ty tp h e t h' e'" "sees (length xs) tp Want h e s"
  obtains z where "seek_literal settings0 js word ty (unsought s) = Fall z" "sees (length xs + length word) (Some t) Open h' e' z"
proof -
  let ?s = "advance (int (length word)) (unsought s)"
  have "s_top ?s = tp" "heap ?s = h" "env_of ?s = e"
    using assms(3) by (simp_all add: sees_def unsought_def env_of_def upd_flags_def advance_def)
  with assms(2) obtain z where z: "new_value settings0 ty ?s = Fall z" "s_top z = Some t" "heap z = h'" "env_of z = e'"
    "ptr z = ptr ?s" "flags z = flags ?s" unfolding opens_def by blast
  have p: "ptr (unsought s) = int (length (xs @ [c])) - 1" using assms(3) by (simp add: sees_def unsought_def upd_flags_def)
  have "match_chars Unknown_value js (ptr (unsought s)) word = None"
    using match_at [of Unknown_value "xs @ [c]" word ys] p assms(1) by simp
  moreover have "\<not> int (length js) - ptr (unsought s) < int (length word)" using p assms(1) by simp
  ultimately have "seek_literal settings0 js word ty (unsought s) = Fall z" using z(1) by (simp add: seek_literal_def)
  moreover have "sees (length xs + length word) (Some t) Open h' e' z"
    using z(2-) assms(3) by (auto simp: sees_def unsought_def upd_flags_def advance_def core_def idle_def)
  ultimately show thesis by (rule that)
qed

lemma marked_ends:
  assumes "sees n (Some t) Open h e s" "ends_as (fst e) h t tp pl h'"
  shows "\<exists>z. section_tail (upd_flags (\<lambda>f. f\<lparr>flag_next := True\<rparr>) s) = Continue z \<and> sees (Suc n) tp pl h' e (advance 1 z)"
proof -
  let ?s = "upd_flags (\<lambda>f. f\<lparr>flag_next := True\<rparr>) s"
  have "\<exists>z. section_tail ?s = Continue z \<and> sees (Suc n) tp pl h' (env_of ?s) (advance 1 z)"
    using assms by (intro tail_ends [where t = t]) (auto simp: sees_def idle_def core_def env_of_def upd_flags_def)
  moreover have "env_of ?s = e" using assms(1) by (simp add: sees_def env_of_def upd_flags_def)
  ultimately show ?thesis by simp
qed

text \<open>The node of a literal, in both passes.\<close>

definition truth :: "bool \<Rightarrow> nat \<Rightarrow> json_node list \<Rightarrow> json_node list" where
  "truth b t h = (if b then h[t := (h ! t)\<lparr>jboolean := True\<rparr>] else h)"

lemma literal_step:
  assumes "js = xs @ c # word @ ys" "\<not> is_ws c" "c \<noteq> CHR '']''" "sees (length xs) tp Want h e s"
    and "seek_start settings0 js c (unsought s) = Fall (upd_flags (\<lambda>f. f\<lparr>flag_next := True\<rparr>) z)"
    and "sees (length xs + length word) (Some t) Open h' e' z" "ends_as (fst e') h' t tp' pl' h''"
  shows "\<exists>z. yields js s z \<and> sees (length xs + length (c # word)) tp' pl' h'' e' (advance 1 z)"
proof -
  from marked_ends [OF assms(6,7)] obtain w where
    w: "section_tail (upd_flags (\<lambda>f. f\<lparr>flag_next := True\<rparr>) z) = Continue w" "sees (Suc (length xs + length word)) tp' pl' h'' e' (advance 1 w)"
    by blast
  have "json_body settings0 js s = Continue w" using start_step [OF assms(1,4,2,3)] assms(5) w(1) by simp
  then have "yields js s w" by (simp add: yields_def)
  with w(2) show ?thesis by auto
qed

lemma seek_start_null: "seek_start settings0 js (CHR ''n'') s = then_section (seek_literal settings0 js ''ull'' json_null s) mark_next"
  by (simp add: seek_start_def)

lemma seek_start_false: "seek_start settings0 js (CHR ''f'') s = then_section (seek_literal settings0 js ''alse'' json_boolean s) mark_next"
  by (simp add: seek_start_def)

lemma seek_start_true:
  "seek_start settings0 js (CHR ''t'') s =
     then_section (then_section (seek_literal settings0 js ''rue'' json_boolean s) set_boolean) mark_next"
  by (simp add: seek_start_def)

lemma step_null:
  assumes "js = xs @ CHR ''n'' # ''ull'' @ ys" "opens json_null tp h e t h' e'" "ends_as (fst e') h' t tp' pl' h''"
  shows "goes js (sees (length xs) tp Want h e) (sees (length xs + length ''null'') tp' pl' h'' e')"
proof (rule goes_step)
  fix s assume s: "sees (length xs) tp Want h e s"
  from literal_opens [OF assms(1,2) s] obtain z where
    z: "seek_literal settings0 js ''ull'' json_null (unsought s) = Fall z" "sees (length xs + length ''ull'') (Some t) Open h' e' z" .
  show "\<exists>z. yields js s z \<and> sees (length xs + length ''null'') tp' pl' h'' e' (advance 1 z)"
    by (rule literal_step [OF assms(1) _ _ s _ z(2) assms(3)]) (simp_all add: seek_start_null z(1) mark_next_def is_ws_def)
qed

lemma step_false:
  assumes "js = xs @ CHR ''f'' # ''alse'' @ ys" "opens json_boolean tp h e t h' e'" "ends_as (fst e') h' t tp' pl' h''"
  shows "goes js (sees (length xs) tp Want h e) (sees (length xs + length ''false'') tp' pl' h'' e')"
proof (rule goes_step)
  fix s assume s: "sees (length xs) tp Want h e s"
  from literal_opens [OF assms(1,2) s] obtain z where
    z: "seek_literal settings0 js ''alse'' json_boolean (unsought s) = Fall z" "sees (length xs + length ''alse'') (Some t) Open h' e' z" .
  show "\<exists>z. yields js s z \<and> sees (length xs + length ''false'') tp' pl' h'' e' (advance 1 z)"
    by (rule literal_step [OF assms(1) _ _ s _ z(2) assms(3)]) (simp_all add: seek_start_false z(1) mark_next_def is_ws_def)
qed

lemma step_true:
  assumes "js = xs @ CHR ''t'' # ''rue'' @ ys" "opens json_boolean tp h e t h' e'"
    and "ends_as (fst e') (truth True t h') t tp' pl' h''"
  shows "goes js (sees (length xs) tp Want h e) (sees (length xs + length ''true'') tp' pl' h'' e')"
proof (rule goes_step)
  fix s assume s: "sees (length xs) tp Want h e s"
  from literal_opens [OF assms(1,2) s] obtain z where
    z: "seek_literal settings0 js ''rue'' json_boolean (unsought s) = Fall z" "sees (length xs + length ''rue'') (Some t) Open h' e' z" .
  let ?z = "upd_node t (\<lambda>n. n\<lparr>jboolean := True\<rparr>) z"
  have z': "sees (length xs + length ''rue'') (Some t) Open (truth True t h') e' ?z"
    using z(2) unfolding sees_def env_of_def upd_node_def truth_def by simp
  have "set_boolean z = Fall ?z" using z(2) by (simp add: set_boolean_def sees_def)
  then have "seek_start settings0 js (CHR ''t'') (unsought s) = Fall (upd_flags (\<lambda>f. f\<lparr>flag_next := True\<rparr>) ?z)"
    by (simp add: seek_start_true z(1) mark_next_def)
  from literal_step [OF assms(1) _ _ s this z' assms(3)]
  show "\<exists>z. yields js s z \<and> sees (length xs + length ''true'') tp' pl' h'' e' (advance 1 z)"
    by (simp add: is_ws_def)
qed

section \<open>Strings\<close>

text \<open>What an escape stands for; \<open>u\<close> starts a code unit and is not among them.\<close>

definition escape_value :: "char \<Rightarrow> char" where
  "escape_value b =
     (if b = CHR ''b'' then CHR 0x08 else if b = CHR ''f'' then CHR 0x0C else if b = CHR ''n'' then CHR 0x0A
      else if b = CHR ''r'' then CHR 0x0D else if b = CHR ''t'' then CHR 0x09 else b)"

definition plain_char :: "char \<Rightarrow> bool" where
  "plain_char c \<longleftrightarrow> c \<noteq> CHR 0x22 \<and> c \<noteq> CHR 0x5C \<and> c \<noteq> NUL"

definition hex_digits :: "string \<Rightarrow> bool" where
  "hex_digits hs \<longleftrightarrow> length hs = 4 \<and> (\<forall>c\<in>set hs. hex_value c \<noteq> 0xFF)"

text \<open>What follows the backslash, and the bytes it stands for.\<close>

inductive esc_text :: "string \<Rightarrow> string \<Rightarrow> bool" where
  simple: "b \<noteq> CHR ''u'' \<Longrightarrow> b \<noteq> NUL \<Longrightarrow> esc_text [escape_value b] [b]"
| unit: "hex_digits hs \<Longrightarrow> \<not> is_surrogate (code_unit (map hex_value hs)) \<Longrightarrow>
    esc_text (utf8_bytes (code_unit (map hex_value hs))) (CHR ''u'' # hs)"
| pair: "hex_digits hs \<Longrightarrow> hex_digits hs2 \<Longrightarrow> is_surrogate (code_unit (map hex_value hs)) \<Longrightarrow>
    esc_text (utf8_bytes (combine_surrogates (code_unit (map hex_value hs)) (code_unit (map hex_value hs2))))
      (CHR ''u'' # hs @ CHR 0x5C # CHR ''u'' # hs2)"

text \<open>The text between the quotes for the bytes of a string.\<close>

inductive str_text :: "string \<Rightarrow> string \<Rightarrow> bool" where
  empty: "str_text [] []"
| plain_char: "plain_char c \<Longrightarrow> str_text s t \<Longrightarrow> str_text (c # s) (c # t)"
| escape: "esc_text bs p \<Longrightarrow> str_text s t \<Longrightarrow> str_text (bs @ s) (CHR 0x5C # p @ t)"

lemma utf8_bytes_short: "length (utf8_bytes u) \<le> 4"
  by (simp add: utf8_bytes_def)

lemma esc_text_length: "esc_text bs p \<Longrightarrow> p \<noteq> [] \<and> length bs \<le> length p"
  by (induction rule: esc_text.induct) (auto simp: hex_digits_def intro: order_trans [OF utf8_bytes_short])

lemma str_text_length: "str_text s t \<Longrightarrow> length s \<le> length t"
  by (induction rule: str_text.induct) (auto dest: esc_text_length)

text \<open>Writing bytes into the buffer of the node, which only the second pass does.\<close>

definition put :: "nat \<Rightarrow> char \<Rightarrow> json_node \<Rightarrow> json_node" where
  "put i c n =
     (if jtype n = json_string then n\<lparr>jptr := (jptr n)[i := Some c]\<rparr>
      else n\<lparr>jobject_mem := (jobject_mem n)[jobject_pos n + i := Some c]\<rparr>)"

definition put_room :: "nat \<Rightarrow> json_node \<Rightarrow> bool" where
  "put_room i n \<longleftrightarrow> (if jtype n = json_string then i < length (jptr n) else jobject_pos n + i < length (jobject_mem n))"

fun puts :: "nat \<Rightarrow> string \<Rightarrow> json_node \<Rightarrow> json_node" where
  "puts k [] n = n"
| "puts k (c # cs) n = puts (Suc k) cs (put k c n)"

definition wr :: "bool \<Rightarrow> nat \<Rightarrow> string \<Rightarrow> json_node \<Rightarrow> json_node" where
  "wr first k cs n = (if first then n else puts k cs n)"

lemma put_room_put [simp]: "put_room i (put j c n) = put_room i n"
  by (simp add: put_room_def put_def)

lemma wr_Nil [simp]: "wr first k [] n = n"
  by (simp add: wr_def)

lemma wr_Cons: "wr first k (c # cs) n = wr first (Suc k) cs (wr first k [c] n)"
  by (simp add: wr_def)

lemma put_room_wr [simp]: "put_room i (wr first k [c] n) = put_room i n"
  by (simp add: wr_def)

lemma string_add_writes:
  assumes "sees n (Some t) (Instr k) h e s" "t < length h" "fst e \<or> put_room k (h ! t)"
  shows "\<exists>z. string_add c s = Fall z \<and> sees n (Some t) (Instr (Suc k)) (h[t := wr (fst e) k [c] (h ! t)]) e z"
proof (cases "first_pass s")
  case True
  then have "fst e" using assms(1) by (auto simp: sees_def env_of_def)
  with True assms(1) show ?thesis by (auto simp: string_add_def sees_def env_of_def wr_def)
next
  case False
  then have "\<not> fst e" using assms(1) by (auto simp: sees_def env_of_def)
  with False assms show ?thesis
    by (auto simp: string_add_def string_write_def sees_def env_of_def wr_def put_def put_room_def upd_node_def Let_def)
qed

lemma string_step:
  assumes "js = xs @ c # ys" "sees (length xs) (Some t) (Instr k) h e s" "c \<noteq> NUL" "k \<le> uint_max"
  shows "json_body settings0 js s =
    then_section
      (if c = CHR 0x5C then Continue (upd_flags (\<lambda>f. f\<lparr>flag_escaped := True\<rparr>) s)
       else if c = CHR 0x22 then string_close s else then_section (string_add c s) Continue)
      (\<lambda>s. then_section (section_done c s) (\<lambda>s.
          then_section (if flag_seek_value (flags s) then section_seek settings0 js c s else section_inside c s) section_tail))"
proof -
  have "rd js (ptr s) = Some c" using assms(1,2) by (simp add: sees_def)
  with assms(2-) show ?thesis by (simp add: sees_def core_def idle_def json_body_tail section_string_def)
qed

lemma step_char:
  assumes "js = xs @ c # ys" "plain_char c" "k \<le> uint_max" "t < length h" "fst e \<or> put_room k (h ! t)"
  shows "goes js (sees (length xs) (Some t) (Instr k) h e)
    (sees (Suc (length xs)) (Some t) (Instr (Suc k)) (h[t := wr (fst e) k [c] (h ! t)]) e)"
proof (rule goes_sees)
  fix s assume s: "sees (length xs) (Some t) (Instr k) h e s"
  from string_add_writes [OF s assms(4,5)] obtain z where
    z: "string_add c s = Fall z" "sees (length xs) (Some t) (Instr (Suc k)) (h[t := wr (fst e) k [c] (h ! t)]) e z" by blast
  have "yields js s z"
    using string_step [OF assms(1) s _ assms(3)] assms(2) z(1) by (simp add: yields_def plain_char_def)
  with z(2) show "\<exists>z. yields js s z \<and> sees (length xs) (Some t) (Instr (Suc k)) (h[t := wr (fst e) k [c] (h ! t)]) e z"
    by blast
qed

text \<open>Room for the bytes from \<open>k\<close> on.\<close>

definition put_rooms :: "bool \<Rightarrow> nat \<Rightarrow> nat \<Rightarrow> json_node \<Rightarrow> bool" where
  "put_rooms first k m n \<longleftrightarrow> first \<or> (\<forall>i. k \<le> i \<longrightarrow> i < k + m \<longrightarrow> put_room i n)"

lemma put_rooms_wr [simp]: "put_rooms first i j (wr first k [c] n) = put_rooms first i j n"
  by (simp add: put_rooms_def)

lemma put_rooms_cut:
  assumes "put_rooms first k (a + b) n"
  shows "put_rooms first k a n" "put_rooms first (k + a) b n"
  using assms by (auto simp: put_rooms_def)

lemma puts_append: "puts k (as @ bs) n = puts (k + length as) bs (puts k as n)"
  by (induction as arbitrary: k n) simp_all

lemma wr_append: "wr first k (as @ bs) n = wr first (k + length as) bs (wr first k as n)"
  by (simp add: wr_def puts_append)

lemma put_rooms_wrs [simp]: "put_rooms first i j (wr first k cs n) = put_rooms first i j n"
  by (induction cs arbitrary: k n) (simp, metis put_rooms_wr wr_Cons)

lemma string_adds_writes:
  assumes "sees n (Some t) (Instr k) h e s" "t < length h" "put_rooms (fst e) k (length cs) (h ! t)"
  shows "\<exists>z. string_adds cs s = Fall z \<and> sees n (Some t) (Instr (k + length cs)) (h[t := wr (fst e) k cs (h ! t)]) e z"
  using assms
proof (induction cs arbitrary: s k h)
  case (Cons c cs)
  have "fst e \<or> put_room k (h ! t)" using Cons.prems(3) by (auto simp: put_rooms_def)
  from string_add_writes [OF Cons.prems(1,2) this] obtain z where
    z: "string_add c s = Fall z" "sees n (Some t) (Instr (Suc k)) (h[t := wr (fst e) k [c] (h ! t)]) e z" by blast
  have "put_rooms (fst e) (Suc k) (length cs) (h ! t)"
    using put_rooms_cut(2) [of "fst e" k 1 "length cs"] Cons.prems(3) by simp
  with Cons.IH [OF z(2)] Cons.prems(2) z(1) show ?case by (auto simp: wr_Cons [of _ _ c cs])
qed simp

section \<open>Escapes\<close>

lemma read_hex_at:
  "(\<forall>c\<in>set hs. hex_value c \<noteq> 0xFF) \<Longrightarrow> read_hex (length hs) (xs @ hs @ ys) (int (length xs) - 1) = Inr (map hex_value hs)"
proof (induction hs arbitrary: xs)
  case (Cons c hs)
  from Cons.IH [of "xs @ [c]"] Cons.prems show ?case by simp
qed simp

lemma read_hex_four: "hex_digits hs \<Longrightarrow> read_hex 4 (xs @ c # hs @ ys) (int (length xs)) = Inr (map hex_value hs)"
  using read_hex_at [of hs "xs @ [c]" ys] by (simp add: hex_digits_def)

lemma escape_simple:
  assumes "b \<noteq> CHR ''u''"
  shows "string_escape js b s = string_add (escape_value b) s"
  using assms by (simp add: string_escape_def escape_value_def)

text \<open>The code units of an escape, read at its \<open>u\<close>.\<close>

lemma unicode_unit:
  assumes "js = xs @ CHR ''u'' # hs @ ys" "hex_digits hs" "\<not> is_surrogate (code_unit (map hex_value hs))" "ptr s = int (length xs)"
  shows "string_unicode js s = string_adds (utf8_bytes (code_unit (map hex_value hs))) (advance 4 s)"
  using assms read_hex_four [OF assms(2), of xs "CHR ''u''" ys]
  by (simp add: string_unicode_def hex_digits_def Let_def)

lemma unicode_pair:
  assumes "js = xs @ CHR ''u'' # hs @ CHR 0x5C # CHR ''u'' # hs2 @ ys" "hex_digits hs" "hex_digits hs2"
    and "is_surrogate (code_unit (map hex_value hs))" "ptr s = int (length xs)"
  shows "string_unicode js s =
    string_adds (utf8_bytes (combine_surrogates (code_unit (map hex_value hs)) (code_unit (map hex_value hs2)))) (advance 10 s)"
proof -
  let ?mid = "xs @ CHR ''u'' # hs"
  have len: "int (length ?mid) = ptr s + 5" using assms(2,5) by (simp add: hex_digits_def)
  then have eq: "int (length ?mid) - 1 = ptr s + 4" by simp
  have "read_hex 4 js (ptr s) = Inr (map hex_value hs)" using read_hex_four [OF assms(2)] assms(1,5) by simp
  moreover have "match_chars Invalid_character_value js (ptr s + 4) (CHR 0x5C # ''u'') = None"
    using match_at [of Invalid_character_value ?mid "CHR 0x5C # ''u''" "hs2 @ ys"] eq unfolding assms(1) by (simp del: match_chars.simps)
  moreover have "read_hex 4 js (ptr s + 4 + 2) = Inr (map hex_value hs2)"
    using read_hex_four [OF assms(3), of "?mid @ [CHR 0x5C]" "CHR ''u''" ys] assms(1) len by (simp add: add.commute)
  moreover have "\<not> int (length js) - ptr s < 4" "\<not> int (length js) - (ptr s + 4) < 6"
    using assms(1,2,3,5) by (simp_all add: hex_digits_def)
  moreover have "advance 6 (advance 4 s) = advance 10 s" by (simp add: advance_def)
  ultimately show ?thesis using assms(4) by (simp add: string_unicode_def Let_def)
qed

lemma sees_forward: "sees n tp pl h e s \<Longrightarrow> sees (n + j) tp pl h e (advance (int j) s)"
  by (simp add: sees_def env_of_def advance_def)

lemma escape_writes:
  assumes "esc_text bs p" "js = xs @ p @ ys" "sees (length xs) (Some t) (Instr k) h e s"
    and "t < length h" "put_rooms (fst e) k (length bs) (h ! t)"
  shows "\<exists>z. string_escape js (hd p) s = Fall z \<and>
    sees (length xs + length (tl p)) (Some t) (Instr (k + length bs)) (h[t := wr (fst e) k bs (h ! t)]) e z"
  using assms(1)
proof cases
  case (simple b)
  have "fst e \<or> put_room k (h ! t)" using assms(5) simple(1) by (auto simp: put_rooms_def)
  from string_add_writes [OF assms(3,4) this] show ?thesis using simple by (simp add: escape_simple)
next
  case (unit hs)
  have "ptr s = int (length xs)" using assms(3) by (simp add: sees_def)
  from unicode_unit [OF _ unit(3,4) this, of js ys] assms(2) unit(2)
  have "string_escape js (hd p) s = string_adds bs (advance 4 s)" using unit(1) by (simp add: string_escape_def)
  moreover have "sees (length xs + length (tl p)) (Some t) (Instr k) h e (advance 4 s)"
    using sees_forward [OF assms(3), of 4] unit(2,3) by (simp add: hex_digits_def)
  ultimately show ?thesis using string_adds_writes assms(4,5) by simp
next
  case (pair hs hs2)
  have "ptr s = int (length xs)" using assms(3) by (simp add: sees_def)
  from unicode_pair [OF _ pair(3,4,5) this, of js ys] assms(2) pair(2)
  have "string_escape js (hd p) s = string_adds bs (advance 10 s)" using pair(1) by (simp add: string_escape_def)
  moreover have "sees (length xs + length (tl p)) (Some t) (Instr k) h e (advance 10 s)"
    using sees_forward [OF assms(3), of 10] pair(2-4) by (simp add: hex_digits_def)
  ultimately show ?thesis using string_adds_writes assms(4,5) by simp
qed

text \<open>After the backslash.\<close>

definition escaping :: "nat \<Rightarrow> nat \<Rightarrow> nat \<Rightarrow> json_node list \<Rightarrow> env \<Rightarrow> jst \<Rightarrow> bool" where
  "escaping n t k h e s \<longleftrightarrow>
     flag_escaped (flags s) \<and> sees n (Some t) (Instr k) h e (upd_flags (\<lambda>f. f\<lparr>flag_escaped := False\<rparr>) s)"

lemma step_backslash:
  assumes "js = xs @ CHR 0x5C # ys" "k \<le> uint_max"
  shows "goes js (sees (length xs) (Some t) (Instr k) h e) (escaping (Suc (length xs)) t k h e)"
proof (rule goes_step)
  fix s assume s: "sees (length xs) (Some t) (Instr k) h e s"
  let ?z = "upd_flags (\<lambda>f. f\<lparr>flag_escaped := True\<rparr>) s"
  have "yields js s ?z" using string_step [OF assms(1) s _ assms(2)] by (simp add: yields_def)
  moreover have "escaping (Suc (length xs)) t k h e (advance 1 ?z)"
    using s by (auto simp: escaping_def sees_def idle_def core_def env_of_def upd_flags_def advance_def)
  ultimately show "\<exists>z. yields js s z \<and> escaping (Suc (length xs)) t k h e (advance 1 z)" by blast
qed

lemma step_escape:
  assumes "esc_text bs p" "js = xs @ p @ ys" "k \<le> uint_max" "t < length h" "put_rooms (fst e) k (length bs) (h ! t)"
  shows "goes js (escaping (length xs) t k h e)
    (sees (length xs + length p) (Some t) (Instr (k + length bs)) (h[t := wr (fst e) k bs (h ! t)]) e)"
proof (rule goes_step)
  fix s assume s: "escaping (length xs) t k h e s"
  let ?s = "upd_flags (\<lambda>f. f\<lparr>flag_escaped := False\<rparr>) s"
  have s': "sees (length xs) (Some t) (Instr k) h e ?s" "flag_escaped (flags s)" using s by (simp_all add: escaping_def)
  from escape_writes [OF assms(1,2) s'(1) assms(4,5)] obtain z where
    z: "string_escape js (hd p) ?s = Fall z"
      "sees (length xs + length (tl p)) (Some t) (Instr (k + length bs)) (h[t := wr (fst e) k bs (h ! t)]) e z" by blast
  from esc_text_length [OF assms(1)] obtain c q where p: "p = c # q" by (cases p) auto
  have "c \<noteq> NUL" using assms(1) p by cases auto
  moreover have "rd js (ptr s) = Some c" using assms(2) p s'(1) by (simp add: sees_def upd_flags_def)
  ultimately have "yields js s z"
    using z(1) s' assms(3) p
    by (simp add: yields_def json_body_tail section_string_def sees_def core_def upd_flags_def)
  then show "\<exists>z. yields js s z \<and>
      sees (length xs + length p) (Some t) (Instr (k + length bs)) (h[t := wr (fst e) k bs (h ! t)]) e (advance 1 z)"
    using z(2) p by (auto simp: sees_advance)
qed

lemma string_contents:
  assumes "str_text str tx" "js = xs @ tx @ ys" "k + length str \<le> uint_max" "t < length h"
    and "put_rooms (fst e) k (length str) (h ! t)"
  shows "goes js (sees (length xs) (Some t) (Instr k) h e)
    (sees (length xs + length tx) (Some t) (Instr (k + length str)) (h[t := wr (fst e) k str (h ! t)]) e)"
  using assms
proof (induction arbitrary: xs k h rule: str_text.induct)
  case empty
  then show ?case by (simp add: goes_refl)
next
  case (plain_char c str tx)
  let ?h = "h[t := wr (fst e) k [c] (h ! t)]"
  have room: "fst e \<or> put_room k (h ! t)" using plain_char.prems(4) by (auto simp: put_rooms_def)
  have "goes js (sees (length xs) (Some t) (Instr k) h e) (sees (Suc (length xs)) (Some t) (Instr (Suc k)) ?h e)"
    by (rule step_char) (use plain_char.prems plain_char.hyps(1) room in auto)
  moreover have "goes js (sees (length (xs @ [c])) (Some t) (Instr (Suc k)) ?h e)
    (sees (length (xs @ [c]) + length tx) (Some t) (Instr (Suc k + length str)) (?h[t := wr (fst e) (Suc k) str (?h ! t)]) e)"
    using plain_char.prems put_rooms_cut(2) [of "fst e" k 1 "length str" "h ! t"] by (intro plain_char.IH) auto
  ultimately show ?case using plain_char.prems(3) by (auto intro: goes_trans simp: wr_Cons [of _ _ c str])
next
  case (escape bs p str tx)
  let ?h = "h[t := wr (fst e) k bs (h ! t)]"
  let ?xs = "xs @ [CHR 0x5C]"
  have "goes js (sees (length xs) (Some t) (Instr k) h e) (escaping (length ?xs) t k h e)"
    using step_backslash [of js xs "p @ tx @ ys" k] escape.prems(1,2) by simp
  moreover have "goes js (escaping (length ?xs) t k h e) (sees (length ?xs + length p) (Some t) (Instr (k + length bs)) ?h e)"
    using escape.prems escape.hyps(1) put_rooms_cut(1) [of "fst e" k "length bs" "length str" "h ! t"]
    by (intro step_escape [where ys = "tx @ ys"]) auto
  moreover have "goes js (sees (length (?xs @ p)) (Some t) (Instr (k + length bs)) ?h e)
    (sees (length (?xs @ p) + length tx) (Some t) (Instr (k + length bs + length str))
       (?h[t := wr (fst e) (k + length bs) str (?h ! t)]) e)"
    using escape.prems put_rooms_cut(2) [of "fst e" k "length bs" "length str" "h ! t"] by (intro escape.IH) auto
  ultimately show ?case using escape.prems(3) by (auto intro: goes_trans simp: wr_append ac_simps)
qed

section \<open>The closing quote\<close>

text \<open>The node of a string value and of an object when the string ends.\<close>

definition closed_string :: "bool \<Rightarrow> nat \<Rightarrow> json_node \<Rightarrow> json_node" where
  "closed_string first k n = (if first then n else put k NUL n)\<lparr>jlength := k\<rparr>"

definition closed_name :: "bool \<Rightarrow> nat \<Rightarrow> json_node \<Rightarrow> json_node" where
  "closed_name first k n =
     (if first then n\<lparr>jnames_size := jnames_size n + k + 1\<rparr>
      else let n = put k NUL n in
        n\<lparr>jentries := (jentries n)[jlength n := (jentries n ! jlength n)\<lparr>ename := Some (jobject_pos n), ename_length := k\<rparr>],
          jobject_pos := jobject_pos n + k + 1\<rparr>)"

lemma close_writes:
  assumes "sees n (Some t) (Instr k) h e s" "t < length h" "fst e \<or> put_room k (h ! t)"
  shows "\<exists>z. (if first_pass s then Fall s else string_write NUL s) = Fall z \<and>
    sees n (Some t) (Instr k) (h[t := if fst e then h ! t else put k NUL (h ! t)]) e z"
  using assms
  by (auto simp: string_write_def sees_def env_of_def put_def put_room_def upd_node_def Let_def)

lemma step_string_close:
  assumes "js = xs @ CHR 0x22 # ys" "k \<le> uint_max" "t < length h" "fst e \<or> put_room k (h ! t)" "jtype (h ! t) = json_string"
    and "ends_as (fst e) (h[t := closed_string (fst e) k (h ! t)]) t tp' pl' h'"
  shows "goes js (sees (length xs) (Some t) (Instr k) h e) (sees (Suc (length xs)) tp' pl' h' e)"
proof (rule goes_step)
  fix s assume s: "sees (length xs) (Some t) (Instr k) h e s"
  from close_writes [OF s assms(3,4)] obtain z where
    z: "(if first_pass s then Fall s else string_write NUL s) = Fall z"
      "sees (length xs) (Some t) (Instr k) (h[t := if fst e then h ! t else put k NUL (h ! t)]) e z" by blast
  let ?z = "upd_flags (\<lambda>f. f\<lparr>flag_string := False, flag_next := True\<rparr>) (upd_node t (\<lambda>n. n\<lparr>jlength := k\<rparr>) z)"
  have "string_close s = Fall ?z"
    using z assms(3,5) by (simp add: string_close_def sees_def put_def upd_flags_def upd_node_def Let_def)
  moreover have "\<not> flag_done (flags ?z)" "\<not> flag_seek_value (flags ?z)" "jtype (heap ?z ! t) = json_string" "s_top ?z = Some t"
    using z(2) assms(3,5) by (auto simp: sees_def core_def upd_flags_def upd_node_def put_def)
  ultimately have "json_body settings0 js s = section_tail ?z"
    using string_step [OF assms(1) s _ assms(2)] by (simp add: section_done_def section_inside_def)
  moreover have "\<exists>w. section_tail ?z = Continue w \<and> sees (Suc (length xs)) tp' pl' h' (env_of ?z) (advance 1 w)"
    by (rule tail_ends [where t = t])
      (use z(2) assms(3,6) in \<open>auto simp: sees_def idle_def core_def env_of_def upd_flags_def upd_node_def closed_string_def\<close>)
  moreover have "env_of ?z = e" using z(2) by (simp add: sees_def env_of_def upd_flags_def upd_node_def)
  ultimately show "\<exists>z. yields js s z \<and> sees (Suc (length xs)) tp' pl' h' e (advance 1 z)" by (auto simp: yields_def)
qed

lemma step_name_close:
  assumes "js = xs @ CHR 0x22 # ys" "k \<le> uint_max" "t < length h" "fst e \<or> put_room k (h ! t)" "jtype (h ! t) = json_object"
    and "fst e \<or> jlength (h ! t) < length (jentries (h ! t))"
  shows "goes js (sees (length xs) (Some t) (Instr k) h e)
    (sees (Suc (length xs)) (Some t) Colon (h[t := closed_name (fst e) k (h ! t)]) e)"
proof (rule goes_sees)
  fix s assume s: "sees (length xs) (Some t) (Instr k) h e s"
  from close_writes [OF s assms(3,4)] obtain z where
    z: "(if first_pass s then Fall s else string_write NUL s) = Fall z"
      "sees (length xs) (Some t) (Instr k) (h[t := if fst e then h ! t else put k NUL (h ! t)]) e z" by blast
  have "\<exists>w. string_close s = Continue w \<and> sees (length xs) (Some t) Colon (h[t := closed_name (fst e) k (h ! t)]) e w"
    using z assms(3,5,6)
    by (auto simp: string_close_def closed_name_def sees_def core_def idle_def env_of_def put_def upd_flags_def upd_node_def Let_def)
  then show "\<exists>z. yields js s z \<and> sees (length xs) (Some t) Colon (h[t := closed_name (fst e) k (h ! t)]) e z"
    using string_step [OF assms(1) s _ assms(2)] by (auto simp: yields_def)
qed

end
