(* ===== verification/Json_Numbers.thy ===== *)
theory Json_Numbers
  imports Json_Tokens
begin

text \<open>
  The numbers of a document. The first pass reads a number digit by digit into the node;
  the second finds the node done and skips the text.
\<close>

section \<open>The text of a number\<close>

definition num64 :: "string \<Rightarrow> int64" where
  "num64 ds = foldl digit64 0 ds"

definition digits :: "string \<Rightarrow> bool" where
  "digits ds \<longleftrightarrow> ds \<noteq> [] \<and> list_all isdigit ds"

text \<open>The integer part has no leading zero.\<close>

definition int_part :: "string \<Rightarrow> bool" where
  "int_part ds \<longleftrightarrow> digits ds \<and> (hd ds = CHR ''0'' \<longrightarrow> ds = ''0'')"

inductive mantissa :: "double \<Rightarrow> string \<Rightarrow> bool" where
  whole: "int_part ds \<Longrightarrow> mantissa (double_of_int (sint (num64 ds))) ds"
| fraction: "int_part ds \<Longrightarrow> digits fs \<Longrightarrow>
    mantissa (dadd (double_of_int (sint (num64 ds))) (ddiv (double_of_int (sint (num64 fs))) (dpow10 (int (length fs)))))
      (ds @ CHR ''.'' # fs)"

definition exponent :: "string \<Rightarrow> int64 \<Rightarrow> int" where
  "exponent sg x = (if sg = ''-'' then - sint x else sint x)"

text \<open>A number without its sign, and with it.\<close>

inductive unsigned_text :: "jval \<Rightarrow> string \<Rightarrow> bool" where
  integer: "int_part ds \<Longrightarrow> unsigned_text (JInt (num64 ds)) ds"
| point: "int_part ds \<Longrightarrow> digits fs \<Longrightarrow>
    unsigned_text (JDbl (dadd (double_of_int (sint (num64 ds))) (ddiv (double_of_int (sint (num64 fs))) (dpow10 (int (length fs))))))
      (ds @ CHR ''.'' # fs)"
| scaled: "mantissa d tx \<Longrightarrow> c \<in> {CHR ''e'', CHR ''E''} \<Longrightarrow> sg \<in> {[], ''+'', ''-''} \<Longrightarrow> digits es \<Longrightarrow>
    unsigned_text (JDbl (dmul d (dpow10 (exponent sg (num64 es))))) (tx @ c # sg @ es)"

fun negated :: "jval \<Rightarrow> jval" where
  "negated (JInt i) = JInt (- i)"
| "negated (JDbl d) = JDbl (dneg d)"
| "negated v = v"

inductive num_text :: "jval \<Rightarrow> string \<Rightarrow> bool" where
  positive: "unsigned_text v tx \<Longrightarrow> num_text v tx"
| negative: "unsigned_text v tx \<Longrightarrow> num_text (negated v) (CHR ''-'' # tx)"

text \<open>What ends a number: the end of the text or a character that belongs to none.\<close>

definition follow :: "string \<Rightarrow> char" where
  "follow ys = (case ys of [] \<Rightarrow> NUL | c # _ \<Rightarrow> c)"

definition stops :: "string \<Rightarrow> bool" where
  "stops ys \<longleftrightarrow> \<not> is_num_char (follow ys)"

lemma follow_simps [simp]: "follow [] = NUL" "follow (c # ys) = c"
  by (simp_all add: follow_def)

lemma rd_follow [simp]: "rd (xs @ ys) (int (length xs)) = Some (follow ys)"
  by (cases ys) (simp_all add: rd_def follow_def nth_append)

lemma isdigit_num: "isdigit c \<Longrightarrow> is_num_char c"
  by (simp add: is_num_char_def)

lemma num_chars [simp]: "is_num_char (CHR ''.'')" "is_num_char (CHR ''e'')" "is_num_char (CHR ''E'')" "is_num_char (CHR ''-'')"
    "is_num_char (CHR ''+'')" "is_num_char (CHR ''0'')"
  by (simp_all add: is_num_char_def isdigit_def)

lemma digits_num: "digits ds \<Longrightarrow> ds \<noteq> [] \<and> isdigit (hd ds) \<and> list_all is_num_char ds"
  by (cases ds) (auto simp: digits_def list_all_iff isdigit_num)

lemma mantissa_num: "mantissa d tx \<Longrightarrow> tx \<noteq> [] \<and> isdigit (hd tx) \<and> list_all is_num_char tx"
  by (induction rule: mantissa.induct) (auto simp: int_part_def dest!: digits_num)

lemma unsigned_text_chars: "unsigned_text v tx \<Longrightarrow> tx \<noteq> [] \<and> isdigit (hd tx) \<and> list_all is_num_char tx"
  by (induction rule: unsigned_text.induct) (auto simp: int_part_def dest!: digits_num mantissa_num)

lemma num_text_chars: "num_text v tx \<Longrightarrow> tx \<noteq> [] \<and> (isdigit (hd tx) \<or> hd tx = CHR ''-'') \<and> list_all is_num_char tx"
  by (induction rule: num_text.induct) (auto dest!: unsigned_text_chars)

section \<open>The second pass\<close>

lemma skip_number_at:
  "list_all is_num_char tx \<Longrightarrow> stops ys \<Longrightarrow> skip_number (xs @ tx @ ys) (int (length xs)) = int (length xs + length tx)"
proof (induction tx arbitrary: xs)
  case Nil
  then show ?case using skip_number_stop [of "xs @ ys" "int (length xs)" "follow ys"] by (simp add: stops_def)
next
  case (Cons c tx)
  from Cons.IH [of "xs @ [c]"] Cons.prems skip_number_num(1) [of "xs @ c # tx @ ys" "int (length xs)" c] show ?case by (simp add: add.commute)
qed

lemma start_number:
  assumes "js = xs @ c # ys" "sees (length xs) tp Want h e s" "isdigit c \<or> c = CHR ''-''"
  shows "json_body settings0 js s = then_section (seek_number settings0 js c (unsought s)) section_tail"
proof -
  have b: "\<not> is_ws c" "c \<noteq> CHR '']''" "c \<noteq> CHR 0x7B" "c \<noteq> CHR ''[''" "c \<noteq> CHR 0x22" "c \<noteq> CHR ''t''" "c \<noteq> CHR ''f''" "c \<noteq> CHR ''n''"
    using assms(3) by (auto simp: is_ws_def isdigit_def)
  show ?thesis using start_step [OF assms(1,2) b(1,2)] b assms(3) by (simp add: seek_start_def)
qed

lemma step_skip:
  assumes "num_text v tx" "js = xs @ tx @ ys" "stops ys" "opens json_integer tp h e t h' e'" "\<not> fst e'"
    and "ends_as False h' t tp' pl' h''"
  shows "goes js (sees (length xs) tp Want h e) (sees (length xs + length tx) tp' pl' h'' e')"
proof (rule goes_step)
  fix s assume s: "sees (length xs) tp Want h e s"
  note tx = num_text_chars [OF assms(1)]
  then obtain c r where c: "tx = c # r" "isdigit c \<or> c = CHR ''-''" by (cases tx) auto
  from unsought_opens [OF assms(4) s] obtain z where z: "new_value settings0 json_integer (unsought s) = Fall z"
    "sees (length xs) (Some t) Open h' e' z" .
  let ?z = "upd_flags (\<lambda>f. f\<lparr>flag_next := True, flag_reproc := True\<rparr>) (z\<lparr>ptr := int (length xs + length tx)\<rparr>)"
  have "skip_number js (ptr z) = int (length xs + length tx)"
    using skip_number_at [of tx ys xs] tx assms(2,3) z(2) by (simp add: sees_def)
  moreover have "\<not> first_pass z" using z(2) assms(5) by (auto simp: sees_def env_of_def)
  ultimately have "json_body settings0 js s = section_tail ?z"
    using start_number [OF _ s c(2), of js "r @ ys"] assms(2) c(1) z(1) by (simp add: seek_number_def)
  moreover have "\<exists>w. section_tail ?z = Continue w \<and> sees (length xs + length tx) tp' pl' h'' (env_of ?z) (advance 1 w)"
    by (rule tail_ends [where t = t])
      (use z(2) assms(5,6) in \<open>auto simp: sees_def core_def idle_def env_of_def upd_flags_def\<close>)
  moreover have "env_of ?z = e'" using z(2) by (simp add: sees_def env_of_def upd_flags_def)
  ultimately show "\<exists>z. yields js s z \<and> sees (length xs + length tx) tp' pl' h'' e' (advance 1 z)" by (auto simp: yields_def)
qed

section \<open>The first pass\<close>

text \<open>The number flags and counters: sign, leading zero, the exponent's three flags, digits, exponent and fraction.\<close>

type_synonym nums = "bool \<times> bool \<times> bool \<times> bool \<times> bool \<times> nat \<times> int64 \<times> int64"

definition num_of :: "jst \<Rightarrow> nums" where
  "num_of s = (flag_num_negative (flags s), flag_num_zero (flags s), flag_num_e (flags s), flag_num_e_got_sign (flags s),
     flag_num_e_negative (flags s), num_digits s, num_e s, num_fraction s)"

definition numbering :: "nat \<Rightarrow> nat \<Rightarrow> json_node list \<Rightarrow> env \<Rightarrow> json_node \<Rightarrow> nums \<Rightarrow> jst \<Rightarrow> bool" where
  "numbering n t h e nd q s \<longleftrightarrow> sees n (Some t) Open (h[t := nd]) e s \<and> num_of s = q \<and> t < length h \<and> numeric (jtype nd)"

lemmas numbering_defs = numbering_def sees_def num_of_def core_def idle_def env_of_def upd_flags_def upd_node_def

lemma numbering_body:
  assumes "rd js (int n) = Some c" "numbering n t h e nd q s"
  shows "json_body settings0 js s = then_section (section_number t c s) section_tail"
proof -
  have "rd js (ptr s) = Some c" "\<not> flag_string (flags s)" "\<not> flag_done (flags s)" "\<not> flag_seek_value (flags s)"
    "section_inside c s = section_number t c s"
    using assms by (auto simp: numbering_def sees_def core_def section_inside_def)
  then show ?thesis by (simp add: body_plain)
qed

lemma goes_number:
  assumes "js = xs @ c # ys"
    and "\<And>s. numbering (length xs) t h e nd q s \<Longrightarrow> \<exists>z. section_number t c s = Continue z \<and> numbering (length xs) t h e nd' q' z"
  shows "goes js (numbering (length xs) t h e nd q) (numbering (Suc (length xs)) t h e nd' q')"
proof (rule goes_step)
  fix s assume s: "numbering (length xs) t h e nd q s"
  from assms(2) [OF s] obtain z where z: "section_number t c s = Continue z" "numbering (length xs) t h e nd' q' z" by blast
  have "json_body settings0 js s = Continue z" using numbering_body [OF _ s, of js c] assms(1) z(1) by simp
  moreover have "numbering (Suc (length xs)) t h e nd' q' (advance 1 z)"
    using z(2) unfolding numbering_def sees_advance by (simp add: num_of_def advance_def)
  ultimately show "\<exists>z. yields js s z \<and> numbering (Suc (length xs)) t h e nd' q' (advance 1 z)" by (auto simp: yields_def)
qed

lemma step_int_digit:
  assumes "js = xs @ c # ys" "isdigit c" "jtype nd = json_integer"
  shows "goes js (numbering (length xs) t h e nd (neg, False, False, g, en, d, x, fr))
    (numbering (Suc (length xs)) t h e (nd\<lparr>jinteger := digit64 (jinteger nd) c\<rparr>)
       (neg, d = 0 \<and> c = CHR ''0'', False, g, en, Suc d, x, fr))"
  by (rule goes_number [OF assms(1)])
    (use assms(2,3) in \<open>auto simp: section_number_def number_digit_def Let_def numbering_defs\<close>)

lemma int_digits:
  assumes "js = xs @ ds @ ys" "list_all isdigit ds" "jtype nd = json_integer" "d \<noteq> 0 \<or> ds = [] \<or> hd ds \<noteq> CHR ''0''"
  shows "goes js (numbering (length xs) t h e nd (neg, False, False, g, en, d, x, fr))
    (numbering (length xs + length ds) t h e (nd\<lparr>jinteger := foldl digit64 (jinteger nd) ds\<rparr>)
       (neg, False, False, g, en, d + length ds, x, fr))"
  using assms
proof (induction ds arbitrary: xs nd d)
  case Nil
  then show ?case by (simp add: goes_refl)
next
  case (Cons c ds)
  let ?nd = "nd\<lparr>jinteger := digit64 (jinteger nd) c\<rparr>"
  have "goes js (numbering (length xs) t h e nd (neg, False, False, g, en, d, x, fr))
    (numbering (Suc (length xs)) t h e ?nd (neg, False, False, g, en, Suc d, x, fr))"
    using step_int_digit [of js xs c "ds @ ys" nd t h e neg g en d] Cons.prems by auto
  moreover have "goes js (numbering (length (xs @ [c])) t h e ?nd (neg, False, False, g, en, Suc d, x, fr))
    (numbering (length (xs @ [c]) + length ds) t h e (?nd\<lparr>jinteger := foldl digit64 (jinteger ?nd) ds\<rparr>)
       (neg, False, False, g, en, Suc d + length ds, x, fr))"
    using Cons.prems by (intro Cons.IH) auto
  ultimately show ?case by (auto intro: goes_trans)
qed

lemma step_int_part:
  assumes "int_part ds" "js = xs @ ds @ ys" "jtype nd = json_integer" "jinteger nd = 0"
  shows "goes js (numbering (length xs) t h e nd (neg, False, False, g, en, 0, x, fr))
    (numbering (length xs + length ds) t h e (nd\<lparr>jinteger := num64 ds\<rparr>) (neg, ds = ''0'', False, g, en, length ds, x, fr))"
proof (cases "ds = ''0''")
  case True
  then show ?thesis
    using step_int_digit [of js xs "CHR ''0''" ys nd t h e neg g en 0 x fr] assms by (simp add: num64_def isdigit_def)
next
  case False
  with assms(1) have "hd ds \<noteq> CHR ''0''" "list_all isdigit ds" by (auto simp: int_part_def digits_def)
  with int_digits [OF assms(2) _ assms(3), of 0 t h e neg g en x fr] assms(4) False show ?thesis by (simp add: num64_def)
qed

lemma step_point:
  assumes "js = xs @ CHR ''.'' # ys" "jtype nd = json_integer" "d \<noteq> 0"
  shows "goes js (numbering (length xs) t h e nd (neg, z, False, g, en, d, x, fr))
    (numbering (Suc (length xs)) t h e (to_double nd) (neg, z, False, g, en, 0, x, fr))"
  by (rule goes_number [OF assms(1)])
    (use assms(2,3) in \<open>auto simp: section_number_def isdigit_def Let_def numbering_defs to_double_def\<close>)

lemma fraction_digits:
  assumes "js = xs @ ds @ ys" "list_all isdigit ds" "jtype nd = json_double"
  shows "goes js (numbering (length xs) t h e nd (neg, z, False, g, en, d, x, fr))
    (numbering (length xs + length ds) t h e nd (neg, z, False, g, en, d + length ds, x, foldl digit64 fr ds))"
  using assms
proof (induction ds arbitrary: xs d fr)
  case Nil
  then show ?case by (simp add: goes_refl)
next
  case (Cons c ds)
  have "goes js (numbering (length xs) t h e nd (neg, z, False, g, en, d, x, fr))
    (numbering (Suc (length xs)) t h e nd (neg, z, False, g, en, Suc d, x, digit64 fr c))"
    by (rule goes_number [of js xs c "ds @ ys"])
      (use Cons.prems in \<open>auto simp: section_number_def number_digit_def Let_def numbering_defs\<close>)
  moreover have "goes js (numbering (length (xs @ [c])) t h e nd (neg, z, False, g, en, Suc d, x, digit64 fr c))
    (numbering (length (xs @ [c]) + length ds) t h e nd (neg, z, False, g, en, Suc d + length ds, x, foldl digit64 (digit64 fr c) ds))"
    using Cons.prems by (intro Cons.IH) auto
  ultimately show ?case by (auto intro: goes_trans)
qed

lemma exponent_digits:
  assumes "js = xs @ ds @ ys" "list_all isdigit ds" "jtype nd = json_double"
  shows "\<exists>g'. goes js (numbering (length xs) t h e nd (neg, z, True, g, en, d, x, fr))
    (numbering (length xs + length ds) t h e nd (neg, z, True, g', en, d + length ds, foldl digit64 x ds, fr))"
  using assms
proof (induction ds arbitrary: xs d x g)
  case Nil
  then show ?case by (auto intro: goes_refl)
next
  case (Cons c ds)
  have "goes js (numbering (length xs) t h e nd (neg, z, True, g, en, d, x, fr))
    (numbering (Suc (length xs)) t h e nd (neg, z, True, True, en, Suc d, digit64 x c, fr))"
    by (rule goes_number [of js xs c "ds @ ys"])
      (use Cons.prems in \<open>auto simp: section_number_def number_digit_def Let_def numbering_defs\<close>)
  moreover have "\<exists>g'. goes js (numbering (length (xs @ [c])) t h e nd (neg, z, True, True, en, Suc d, digit64 x c, fr))
    (numbering (length (xs @ [c]) + length ds) t h e nd (neg, z, True, g', en, Suc d + length ds, foldl digit64 (digit64 x c) ds, fr))"
    using Cons.prems by (intro Cons.IH) auto
  ultimately show ?case by (auto intro: goes_trans)
qed

lemma mark_number:
  assumes "c \<in> {CHR ''e'', CHR ''E''}" "numbering n t h e nd (neg, z, False, g, en, d, x, fr) s"
  shows "section_number t c s = number_mantissa_end t c s"
proof -
  have "\<not> isdigit c" "c \<noteq> CHR ''.''" "c \<noteq> CHR ''+''" "c \<noteq> CHR ''-''" using assms(1) by (auto simp: isdigit_def)
  with assms(2) show ?thesis by (simp add: section_number_def numbering_def num_of_def)
qed

lemma step_mark_whole:
  assumes "js = xs @ c # ys" "c \<in> {CHR ''e'', CHR ''E''}" "jtype nd = json_integer"
  shows "goes js (numbering (length xs) t h e nd (neg, z, False, g, en, d, x, fr))
    (numbering (Suc (length xs)) t h e (to_double nd) (neg, False, True, g, en, 0, x, fr))"
proof (rule goes_number [OF assms(1)])
  fix s assume s: "numbering (length xs) t h e nd (neg, z, False, g, en, d, x, fr) s"
  let ?z = "upd_flags (\<lambda>f. f\<lparr>flag_num_e := True, flag_num_zero := False\<rparr>) ((upd_node t to_double s)\<lparr>num_digits := 0\<rparr>)"
  have "jtype (heap s ! t) = json_integer" using s assms(3) by (simp add: numbering_def sees_def)
  then have "section_number t c s = Continue ?z"
    using mark_number [OF assms(2) s] assms(2) by (simp add: number_mantissa_end_def)
  moreover have "numbering (length xs) t h e (to_double nd) (neg, False, True, g, en, 0, x, fr) ?z"
    using s by (simp add: numbering_defs to_double_def)
  ultimately show "\<exists>w. section_number t c s = Continue w \<and>
      numbering (length xs) t h e (to_double nd) (neg, False, True, g, en, 0, x, fr) w" by blast
qed

text \<open>The node with the fraction added.\<close>

definition with_fraction :: "int64 \<Rightarrow> nat \<Rightarrow> json_node \<Rightarrow> json_node" where
  "with_fraction fr d n = n\<lparr>jdbl := dadd (jdbl n) (ddiv (double_of_int (sint fr)) (dpow10 (int d)))\<rparr>"

lemma step_mark_fraction:
  assumes "js = xs @ c # ys" "c \<in> {CHR ''e'', CHR ''E''}" "jtype nd = json_double" "d \<noteq> 0"
  shows "goes js (numbering (length xs) t h e nd (neg, z, False, g, en, d, x, fr))
    (numbering (Suc (length xs)) t h e (with_fraction fr d nd) (neg, False, True, g, en, 0, x, fr))"
proof (rule goes_number [OF assms(1)])
  fix s assume s: "numbering (length xs) t h e nd (neg, z, False, g, en, d, x, fr) s"
  let ?z = "upd_flags (\<lambda>f. f\<lparr>flag_num_e := True, flag_num_zero := False\<rparr>) ((upd_node t (with_fraction fr d) s)\<lparr>num_digits := 0\<rparr>)"
  have "jtype (heap s ! t) = json_double" "num_digits s = d" "num_fraction s = fr" "t < length (heap s)"
    using s assms(3) by (auto simp: numbering_def sees_def num_of_def)
  then have "section_number t c s = Continue ?z"
    using mark_number [OF assms(2) s] assms(2,4) by (simp add: number_mantissa_end_def with_fraction_def upd_node_def)
  moreover have "numbering (length xs) t h e (with_fraction fr d nd) (neg, False, True, g, en, 0, x, fr) ?z"
    using s by (simp add: numbering_defs with_fraction_def)
  ultimately show "\<exists>w. section_number t c s = Continue w \<and>
      numbering (length xs) t h e (with_fraction fr d nd) (neg, False, True, g, en, 0, x, fr) w" by blast
qed

lemma step_sign:
  assumes "js = xs @ c # ys" "c = CHR ''+'' \<or> c = CHR ''-''" "jtype nd = json_double"
  shows "goes js (numbering (length xs) t h e nd (neg, z, True, False, False, d, x, fr))
    (numbering (Suc (length xs)) t h e nd (neg, z, True, True, c = CHR ''-'', d, x, fr))"
proof (rule goes_number [OF assms(1)])
  fix s assume s: "numbering (length xs) t h e nd (neg, z, True, False, False, d, x, fr) s"
  let ?z = "upd_flags (\<lambda>f. f\<lparr>flag_num_e_got_sign := True, flag_num_e_negative := flag_num_e_negative f \<or> c = CHR ''-''\<rparr>) s"
  have "\<not> isdigit c" using assms(2) by (auto simp: isdigit_def)
  then have "section_number t c s = Continue ?z"
    using s assms(2) by (simp add: section_number_def numbering_def num_of_def)
  moreover have "numbering (length xs) t h e nd (neg, z, True, True, c = CHR ''-'', d, x, fr) ?z"
    using s by (simp add: numbering_defs)
  ultimately show "\<exists>w. section_number t c s = Continue w \<and>
      numbering (length xs) t h e nd (neg, z, True, True, c = CHR ''-'', d, x, fr) w" by blast
qed

lemma step_exponent_sign:
  assumes "js = xs @ sg @ ys" "sg \<in> {[], ''+'', ''-''}" "jtype nd = json_double"
  shows "\<exists>g. goes js (numbering (length xs) t h e nd (neg, z, True, False, False, d, x, fr))
    (numbering (length xs + length sg) t h e nd (neg, z, True, g, sg = ''-'', d, x, fr))"
proof (cases sg)
  case Nil
  then show ?thesis by (auto intro: goes_refl)
next
  case (Cons c r)
  with assms(2) have "sg = [c]" "c = CHR ''+'' \<or> c = CHR ''-''" by auto
  with step_sign [of js xs c ys nd t h e neg z d x fr] assms(1,3) show ?thesis by auto
qed

text \<open>The end of a number: its sign is applied, and the character after it is read again.\<close>

definition signed_node :: "bool \<Rightarrow> json_node \<Rightarrow> json_node" where
  "signed_node neg n =
     (if neg then (if jtype n = json_integer then n\<lparr>jinteger := - jinteger n\<rparr> else n\<lparr>jdbl := dneg (jdbl n)\<rparr>) else n)"

lemma number_ends:
  assumes "js = xs @ ys" "fst e" "ends_as True (h[t := signed_node neg nd']) t tp' pl' h'"
    and "\<And>s. numbering (length xs) t h e nd q s \<Longrightarrow>
      \<exists>z q'. section_number t (follow ys) s = number_end t z \<and> numbering (length xs) t h e nd' q' z \<and> fst q' = neg"
  shows "goes js (numbering (length xs) t h e nd q) (sees (length xs) tp' pl' h' e)"
proof (rule goes_step)
  fix s assume s: "numbering (length xs) t h e nd q s"
  from assms(4) [OF s] obtain z q' where
    z: "section_number t (follow ys) s = number_end t z" "numbering (length xs) t h e nd' q' z" "fst q' = neg" by blast
  let ?z = "upd_flags (\<lambda>f. f\<lparr>flag_next := True, flag_reproc := True\<rparr>) (z\<lparr>heap := h[t := signed_node neg nd']\<rparr>)"
  have "number_end t z = Fall ?z"
    using z(2,3) by (cases z) (auto simp: number_end_def signed_node_def numbering_defs)
  then have "json_body settings0 js s = section_tail ?z" using numbering_body [OF _ s, of js "follow ys"] assms(1) z(1) by simp
  moreover have "\<exists>w. section_tail ?z = Continue w \<and> sees (length xs) tp' pl' h' (env_of ?z) (advance 1 w)"
    by (rule tail_ends [where t = t]) (use z(2) assms(2,3) in \<open>auto simp: numbering_defs\<close>)
  moreover have "env_of ?z = e" using z(2) by (simp add: numbering_defs)
  ultimately show "\<exists>z. yields js s z \<and> sees (length xs) tp' pl' h' e (advance 1 z)" by (auto simp: yields_def)
qed

lemma stops_not:
  assumes "stops ys"
  shows "\<not> isdigit (follow ys)" "follow ys \<notin> {CHR ''e'', CHR ''E'', CHR ''.'', CHR ''+'', CHR ''-''}"
  using assms by (auto simp: stops_def isdigit_num)

lemma end_whole:
  assumes "js = xs @ ys" "stops ys" "fst e" "jtype nd = json_integer" "ends_as True (h[t := signed_node neg nd]) t tp' pl' h'"
  shows "goes js (numbering (length xs) t h e nd (neg, z, False, g, en, d, x, fr)) (sees (length xs) tp' pl' h' e)"
  by (rule number_ends [OF assms(1,3,5)])
    (use assms(4) stops_not [OF assms(2)] in \<open>auto simp: section_number_def number_mantissa_end_def Let_def numbering_defs\<close>)

lemma end_fraction:
  assumes "js = xs @ ys" "stops ys" "fst e" "jtype nd = json_double" "d \<noteq> 0"
    and "ends_as True (h[t := signed_node neg (with_fraction fr d nd)]) t tp' pl' h'"
  shows "goes js (numbering (length xs) t h e nd (neg, z, False, g, en, d, x, fr)) (sees (length xs) tp' pl' h' e)"
proof (rule number_ends [OF assms(1,3,6)])
  fix s assume s: "numbering (length xs) t h e nd (neg, z, False, g, en, d, x, fr) s"
  let ?s = "upd_node t (with_fraction fr d) s"
  have "section_number t (follow ys) s = number_end t ?s"
    using s assms(4,5) stops_not [OF assms(2)]
    by (simp add: section_number_def number_mantissa_end_def Let_def numbering_defs with_fraction_def)
  moreover have "numbering (length xs) t h e (with_fraction fr d nd) (neg, z, False, g, en, d, x, fr) ?s"
    using s by (simp add: numbering_defs with_fraction_def)
  ultimately show "\<exists>z q'. section_number t (follow ys) s = number_end t z \<and>
      numbering (length xs) t h e (with_fraction fr d nd) q' z \<and> fst q' = neg" by force
qed

definition with_exponent :: "bool \<Rightarrow> int64 \<Rightarrow> json_node \<Rightarrow> json_node" where
  "with_exponent en x n = n\<lparr>jdbl := dmul (jdbl n) (dpow10 (if en then - sint x else sint x))\<rparr>"

lemma end_exponent:
  assumes "js = xs @ ys" "stops ys" "fst e" "jtype nd = json_double" "d \<noteq> 0"
    and "ends_as True (h[t := signed_node neg (with_exponent en x nd)]) t tp' pl' h'"
  shows "goes js (numbering (length xs) t h e nd (neg, z, True, g, en, d, x, fr)) (sees (length xs) tp' pl' h' e)"
proof (rule number_ends [OF assms(1,3,6)])
  fix s assume s: "numbering (length xs) t h e nd (neg, z, True, g, en, d, x, fr) s"
  let ?s = "upd_node t (with_exponent en x) s"
  have "section_number t (follow ys) s = number_end t ?s"
    using s assms(4,5) stops_not [OF assms(2)]
    by (simp add: section_number_def number_exponent_end_def Let_def numbering_defs with_exponent_def)
  moreover have "numbering (length xs) t h e (with_exponent en x nd) (neg, z, True, g, en, d, x, fr) ?s"
    using s by (simp add: numbering_defs with_exponent_def)
  ultimately show "\<exists>z q'. section_number t (follow ys) s = number_end t z \<and>
      numbering (length xs) t h e (with_exponent en x nd) q' z \<and> fst q' = neg" by force
qed

text \<open>The beginning of a number.\<close>

lemma start_digit:
  assumes "js = xs @ c # ys" "isdigit c" "opens json_integer tp h e t h' e'" "fst e'" "t < length h'" "jtype (h' ! t) = json_integer"
  shows "goes js (sees (length xs) tp Want h e) (numbering (length xs) t h' e' (h' ! t) (False, False, False, False, False, 0, 0, 0))"
proof (rule goes_step)
  fix s assume s: "sees (length xs) tp Want h e s"
  from unsought_opens [OF assms(3) s] obtain z where z: "new_value settings0 json_integer (unsought s) = Fall z"
    "sees (length xs) (Some t) Open h' e' z" .
  have "c \<noteq> CHR ''-''" using assms(2) by (auto simp: isdigit_def)
  then have "\<exists>w. json_body settings0 js s = Fall w \<and>
      numbering (length xs) t h' e' (h' ! t) (False, False, False, False, False, 0, 0, 0) (advance 1 w)"
    using start_number [OF assms(1) s] z assms(2,4,5,6)
    by (auto simp: seek_number_def Let_def section_tail_def section_reproc_def section_next_def numbering_defs advance_def)
  then show "\<exists>w. yields js s w \<and>
      numbering (length xs) t h' e' (h' ! t) (False, False, False, False, False, 0, 0, 0) (advance 1 w)"
    by (auto simp: yields_def)
qed

lemma start_minus:
  assumes "js = xs @ CHR ''-'' # ys" "opens json_integer tp h e t h' e'" "fst e'" "t < length h'" "jtype (h' ! t) = json_integer"
  shows "goes js (sees (length xs) tp Want h e)
    (numbering (Suc (length xs)) t h' e' (h' ! t) (True, False, False, False, False, 0, 0, 0))"
proof (rule goes_step)
  fix s assume s: "sees (length xs) tp Want h e s"
  from unsought_opens [OF assms(2) s] obtain z where z: "new_value settings0 json_integer (unsought s) = Fall z"
    "sees (length xs) (Some t) Open h' e' z" .
  have "\<exists>w. json_body settings0 js s = Continue w \<and>
      numbering (Suc (length xs)) t h' e' (h' ! t) (True, False, False, False, False, 0, 0, 0) (advance 1 w)"
    using start_number [OF assms(1) s] z assms(3-)
    by (auto simp: seek_number_def Let_def numbering_defs advance_def)
  then show "\<exists>w. yields js s w \<and>
      numbering (Suc (length xs)) t h' e' (h' ! t) (True, False, False, False, False, 0, 0, 0) (advance 1 w)"
    by (auto simp: yields_def)
qed

section \<open>A whole number\<close>

definition num_node :: "nat option \<Rightarrow> jval \<Rightarrow> json_node" where
  "num_node p v =
     (case v of JDbl d \<Rightarrow> (json_calloc json_double p)\<lparr>jdbl := d\<rparr>
      | JInt i \<Rightarrow> (json_calloc json_integer p)\<lparr>jinteger := i\<rparr> | _ \<Rightarrow> json_calloc json_integer p)"

lemma signed_num_node:
  "v = JInt i \<or> v = JDbl d \<Longrightarrow> signed_node neg (num_node p v) = num_node p (if neg then negated v else v)"
  by (auto simp: signed_node_def num_node_def json_calloc_def)

abbreviation num0 :: "bool \<Rightarrow> nums" where
  "num0 neg \<equiv> (neg, False, False, False, False, 0, 0, 0)"

abbreviation dbl_node :: "nat option \<Rightarrow> double \<Rightarrow> json_node" where
  "dbl_node p d \<equiv> (json_calloc json_double p)\<lparr>jdbl := d\<rparr>"

lemma to_double_node:
  "to_double ((json_calloc json_integer p)\<lparr>jinteger := i\<rparr>) = dbl_node p (double_of_int (sint i))"
  by (simp add: to_double_def json_calloc_def)

lemma run_int_part:
  assumes "int_part ds" "js = xs @ ds @ ys"
  shows "goes js (numbering (length xs) t h e (json_calloc json_integer p) (num0 neg))
    (numbering (length (xs @ ds)) t h e ((json_calloc json_integer p)\<lparr>jinteger := num64 ds\<rparr>)
       (neg, ds = ''0'', False, False, False, length ds, 0, 0))"
  using step_int_part [OF assms, of "json_calloc json_integer p"] by (simp add: json_calloc_def)

lemma run_point:
  assumes "int_part ds" "digits fs" "js = xs @ (ds @ CHR ''.'' # fs) @ ys"
  shows "goes js (numbering (length xs) t h e (json_calloc json_integer p) (num0 neg))
    (numbering (length (xs @ ds @ CHR ''.'' # fs)) t h e (dbl_node p (double_of_int (sint (num64 ds))))
       (neg, ds = ''0'', False, False, False, length fs, 0, num64 fs))"
proof -
  let ?q = "(neg, ds = ''0'', False, False, False, length ds, 0, 0)"
  let ?n = "(json_calloc json_integer p)\<lparr>jinteger := num64 ds\<rparr>"
  have js: "js = (xs @ ds) @ CHR ''.'' # (fs @ ys)" "js = (xs @ ds @ ''.'') @ fs @ ys" using assms(3) by simp_all
  have "length ds \<noteq> 0" using assms(1) by (simp add: int_part_def digits_def)
  with step_point [OF js(1), of ?n]
  have pt: "goes js (numbering (length (xs @ ds)) t h e ?n ?q)
      (numbering (length (xs @ ds @ ''.'')) t h e (dbl_node p (double_of_int (sint (num64 ds)))) (neg, ds = ''0'', False, False, False, 0, 0, 0))"
    by (simp add: to_double_node) (simp add: json_calloc_def)
  have "goes js (numbering (length (xs @ ds @ ''.'')) t h e (dbl_node p (double_of_int (sint (num64 ds)))) (neg, ds = ''0'', False, False, False, 0, 0, 0))
      (numbering (length (xs @ ds @ CHR ''.'' # fs)) t h e (dbl_node p (double_of_int (sint (num64 ds))))
        (neg, ds = ''0'', False, False, False, length fs, 0, num64 fs))"
    using fraction_digits [OF js(2), of "dbl_node p (double_of_int (sint (num64 ds)))" t h e neg "ds = ''0''" False False 0 0 0] assms(2)
    by (simp add: digits_def json_calloc_def num64_def add.assoc)
  with goes_trans [OF run_int_part [OF assms(1), of js xs "CHR ''.'' # fs @ ys"] pt] assms(3) show ?thesis
    by (auto intro: goes_trans)
qed

lemma run_mantissa:
  assumes "mantissa d tx" "js = xs @ tx @ c # ys" "c \<in> {CHR ''e'', CHR ''E''}"
  shows "\<exists>fr. goes js (numbering (length xs) t h e (json_calloc json_integer p) (num0 neg))
    (numbering (length (xs @ tx @ [c])) t h e (dbl_node p d) (neg, False, True, False, False, 0, 0, fr))"
  using assms(1)
proof cases
  case whole
  have js: "js = (xs @ tx) @ c # ys" using assms(2) by simp
  from step_mark_whole [OF js assms(3), of "(json_calloc json_integer p)\<lparr>jinteger := num64 tx\<rparr>"]
  have "goes js (numbering (length (xs @ tx)) t h e ((json_calloc json_integer p)\<lparr>jinteger := num64 tx\<rparr>)
        (neg, tx = ''0'', False, False, False, length tx, 0, 0))
      (numbering (length (xs @ tx @ [c])) t h e (dbl_node p d) (neg, False, True, False, False, 0, 0, 0))"
    using whole(1) by (simp add: to_double_node) (simp add: json_calloc_def)
  with goes_trans [OF run_int_part [OF whole(2) assms(2)]] show ?thesis by blast
next
  case (fraction ds fs)
  have js: "js = (xs @ tx) @ c # ys" using assms(2) by simp
  have "length fs \<noteq> 0" using fraction(4) by (simp add: digits_def)
  from step_mark_fraction [OF js assms(3) _ this, of "dbl_node p (double_of_int (sint (num64 ds)))"]
  have "goes js (numbering (length (xs @ tx)) t h e (dbl_node p (double_of_int (sint (num64 ds))))
        (neg, ds = ''0'', False, False, False, length fs, 0, num64 fs))
      (numbering (length (xs @ tx @ [c])) t h e (dbl_node p d) (neg, False, True, False, False, 0, 0, num64 fs))"
    using fraction(1) by (simp add: with_fraction_def json_calloc_def)
  moreover have "js = xs @ (ds @ CHR ''.'' # fs) @ c # ys" using assms(2) fraction(2) by simp
  note run_point [OF fraction(3,4) this, of t h e p neg]
  ultimately show ?thesis unfolding fraction(2) by (blast intro: goes_trans)
qed

lemma run_unsigned:
  assumes "unsigned_text v tx" "js = xs @ tx @ ys" "stops ys" "fst e"
    and "ends_as True (h[t := num_node p (if neg then negated v else v)]) t tp' pl' h'"
  shows "goes js (numbering (length xs) t h e (json_calloc json_integer p) (num0 neg)) (sees (length xs + length tx) tp' pl' h' e)"
proof -
  have js: "js = (xs @ tx) @ ys" using assms(2) by simp
  have end_node: "ends_as True (h[t := signed_node neg (num_node p v)]) t tp' pl' h'"
    using assms(1,5) by cases (auto simp: signed_num_node split: if_splits)
  from assms(1) show ?thesis
  proof cases
    case integer
    note run_int_part [OF integer(2) assms(2), of t h e p neg]
    moreover have "goes js (numbering (length (xs @ tx)) t h e ((json_calloc json_integer p)\<lparr>jinteger := num64 tx\<rparr>)
        (neg, tx = ''0'', False, False, False, length tx, 0, 0)) (sees (length (xs @ tx)) tp' pl' h' e)"
      by (rule end_whole [OF js assms(3,4)]) (use end_node integer(1) in \<open>simp_all add: num_node_def\<close>, simp add: json_calloc_def)
    ultimately show ?thesis by (auto intro: goes_trans)
  next
    case (point ds fs)
    note run_point [OF point(3,4), of js xs ys t h e p neg]
    moreover have "goes js (numbering (length (xs @ tx)) t h e (dbl_node p (double_of_int (sint (num64 ds))))
        (neg, ds = ''0'', False, False, False, length fs, 0, num64 fs)) (sees (length (xs @ tx)) tp' pl' h' e)"
      by (rule end_fraction [OF js assms(3,4)])
        (use end_node point(1,4) in \<open>simp_all add: num_node_def with_fraction_def digits_def json_calloc_def\<close>)
    ultimately show ?thesis using assms(2) point(2) by (auto intro: goes_trans)
  next
    case (scaled d m c sg es)
    let ?xs = "xs @ m @ [c]"
    have js2: "js = xs @ m @ c # (sg @ es @ ys)" "js = ?xs @ sg @ (es @ ys)" "js = (?xs @ sg) @ es @ ys"
      using assms(2) scaled(2) by simp_all
    have ty: "jtype (dbl_node p d) = json_double" by (simp add: json_calloc_def)
    from run_mantissa [OF scaled(3) js2(1) scaled(4)] obtain fr where
      m: "goes js (numbering (length xs) t h e (json_calloc json_integer p) (num0 neg))
        (numbering (length ?xs) t h e (dbl_node p d) (neg, False, True, False, False, 0, 0, fr))" by blast
    from step_exponent_sign [OF js2(2) scaled(5) ty] obtain g where
      sg: "goes js (numbering (length ?xs) t h e (dbl_node p d) (neg, False, True, False, False, 0, 0, fr))
        (numbering (length (?xs @ sg)) t h e (dbl_node p d) (neg, False, True, g, sg = ''-'', 0, 0, fr))"
      unfolding length_append by blast
    have "list_all isdigit es" using scaled(6) by (simp add: digits_def)
    from exponent_digits [OF js2(3) this ty, of t h e neg False g "sg = ''-''" 0 0 fr] obtain g' where
      es: "goes js (numbering (length (?xs @ sg)) t h e (dbl_node p d) (neg, False, True, g, sg = ''-'', 0, 0, fr))
        (numbering (length (xs @ tx)) t h e (dbl_node p d) (neg, False, True, g', sg = ''-'', length es, num64 es, fr))"
      unfolding num64_def by (auto simp: scaled(2) add.assoc)
    have "goes js (numbering (length (xs @ tx)) t h e (dbl_node p d) (neg, False, True, g', sg = ''-'', length es, num64 es, fr))
        (sees (length (xs @ tx)) tp' pl' h' e)"
      by (rule end_exponent [OF js assms(3,4)])
        (use end_node scaled(1,6) in \<open>simp_all add: num_node_def with_exponent_def exponent_def digits_def json_calloc_def\<close>)
    with goes_trans [OF m goes_trans [OF sg es]] show ?thesis by (auto intro: goes_trans)
  qed
qed

text \<open>In the first pass a number fills its node.\<close>

lemma step_number:
  assumes "num_text v tx" "js = xs @ tx @ ys" "stops ys" "opens json_integer tp h e t h' e'" "fst e'" "t < length h'"
    and "h' ! t = json_calloc json_integer p" "ends_as True (h'[t := num_node p v]) t tp' pl' h''"
  shows "goes js (sees (length xs) tp Want h e) (sees (length xs + length tx) tp' pl' h'' e')"
  using assms(1)
proof cases
  case positive
  from unsigned_text_chars [OF positive] obtain c r where c: "tx = c # r" "isdigit c" by (cases tx) auto
  have "goes js (sees (length xs) tp Want h e) (numbering (length xs) t h' e' (h' ! t) (num0 False))"
    by (rule start_digit [where ys = "r @ ys", OF _ c(2) assms(4-6)]) (simp_all add: assms(2,7) c(1) json_calloc_def)
  moreover have "goes js (numbering (length xs) t h' e' (h' ! t) (num0 False)) (sees (length xs + length tx) tp' pl' h'' e')"
    using run_unsigned [OF positive assms(2,3,5), of h' t p False] assms(7,8) by simp
  ultimately show ?thesis by (rule goes_trans)
next
  case (negative u r)
  have js: "js = (xs @ ''-'') @ r @ ys" using assms(2) negative(2) by simp
  have "goes js (sees (length xs) tp Want h e) (numbering (length (xs @ ''-'')) t h' e' (h' ! t) (num0 True))"
    using start_minus [where ys = "r @ ys", OF _ assms(4-6)] js assms(7) by (simp add: json_calloc_def)
  moreover have "goes js (numbering (length (xs @ ''-'')) t h' e' (h' ! t) (num0 True)) (sees (length (xs @ ''-'') + length r) tp' pl' h'' e')"
    using run_unsigned [OF negative(3) js assms(3,5), of h' t p True] assms(7,8) negative(1) by simp
  ultimately show ?thesis using negative(2) by (auto intro: goes_trans)
qed

end
