(* ===== verification/Json_Document.thy ===== *)
theory Json_Document
  imports Json_Numbers
begin

text \<open>
  The documents of RFC 8259 as a relation between a value and its texts, and the store that
  the parser builds for a value: which nodes it holds after each of the two passes.
\<close>

section \<open>The grammar\<close>

definition blank :: "string \<Rightarrow> bool" where
  "blank w \<longleftrightarrow> list_all is_ws w"

definition quoted :: "string \<Rightarrow> string" where
  "quoted tx = CHR 0x22 # tx @ [CHR 0x22]"

inductive jtext :: "jval \<Rightarrow> string \<Rightarrow> bool"
  and jelems :: "jval list \<Rightarrow> string \<Rightarrow> bool"
  and jmembers :: "(string \<times> jval) list \<Rightarrow> string \<Rightarrow> bool"
where
  null: "jtext JNull ''null''"
| true: "jtext (JBool True) ''true''"
| false: "jtext (JBool False) ''false''"
| number: "num_text v tx \<Longrightarrow> jtext v tx"
| str: "str_text s tx \<Longrightarrow> jtext (JStr s) (quoted tx)"
| array0: "blank w \<Longrightarrow> jtext (JArray []) (''['' @ w @ '']'')"
| array: "jelems vs tx \<Longrightarrow> jtext (JArray vs) (''['' @ tx @ '']'')"
| object0: "blank w \<Longrightarrow> jtext (JObject []) ([CHR 0x7B] @ w @ [CHR 0x7D])"
| object: "jmembers ms tx \<Longrightarrow> jtext (JObject ms) ([CHR 0x7B] @ tx @ [CHR 0x7D])"
| elem: "blank w \<Longrightarrow> jtext v tx \<Longrightarrow> blank w' \<Longrightarrow> jelems [v] (w @ tx @ w')"
| elems: "blank w \<Longrightarrow> jtext v tx \<Longrightarrow> blank w' \<Longrightarrow> jelems vs txs \<Longrightarrow> jelems (v # vs) (w @ tx @ w' @ '','' @ txs)"
| member: "blank w \<Longrightarrow> str_text n nx \<Longrightarrow> blank w1 \<Longrightarrow> blank w2 \<Longrightarrow> jtext v tx \<Longrightarrow> blank w' \<Longrightarrow>
    jmembers [(n, v)] (w @ quoted nx @ w1 @ '':'' @ w2 @ tx @ w')"
| members: "blank w \<Longrightarrow> str_text n nx \<Longrightarrow> blank w1 \<Longrightarrow> blank w2 \<Longrightarrow> jtext v tx \<Longrightarrow> blank w' \<Longrightarrow> jmembers ms txs \<Longrightarrow>
    jmembers ((n, v) # ms) (w @ quoted nx @ w1 @ '':'' @ w2 @ tx @ w' @ '','' @ txs)"

definition document :: "jval \<Rightarrow> string \<Rightarrow> bool" where
  "document v text \<longleftrightarrow> (\<exists>w tx w'. blank w \<and> jtext v tx \<and> blank w' \<and> text = w @ tx @ w')"

text \<open>How much a text holds.\<close>

definition names_size :: "(string \<times> jval) list \<Rightarrow> nat" where
  "names_size ms = (\<Sum>(n, v)\<leftarrow>ms. length n + 1)"

lemma names_size_simps [simp]: "names_size [] = 0" "names_size ((n, v) # ms) = length n + 1 + names_size ms"
  by (simp_all add: names_size_def)

lemma text_sizes:
  "jtext v tx \<Longrightarrow> tx \<noteq> []"
  "jelems vs txs \<Longrightarrow> length vs \<le> length txs"
  "jmembers ms mxs \<Longrightarrow> length ms \<le> length mxs \<and> names_size ms \<le> length mxs"
  by (induction rule: jtext_jelems_jmembers.inducts)
    (auto simp: quoted_def Suc_le_eq dest!: num_text_chars str_text_length)

section \<open>The nodes of a value\<close>

fun children :: "jval \<Rightarrow> jval list" where
  "children (JArray vs) = vs"
| "children (JObject ms) = map snd ms"
| "children v = []"

lemma children_size: "size_list size (children v) \<le> size v"
proof (cases v)
  case (JObject ms)
  have "size_list size (map snd ms) \<le> size_list (size_prod (\<lambda>_. 0) size) ms"
    by (induction ms) (auto simp: size_prod_def split: prod.splits)
  with JObject show ?thesis by simp
qed simp_all

function jcount :: "jval \<Rightarrow> nat" and jcounts :: "jval list \<Rightarrow> nat" where
  "jcount v = Suc (jcounts (children v))"
| "jcounts [] = 0"
| "jcounts (v # vs) = jcount v + jcounts vs"
  by pat_completeness auto
termination
  by (relation "measure (case_sum (\<lambda>v. Suc (2 * size v)) (\<lambda>vs. 2 * size_list size vs))")
    (auto simp: children_size less_Suc_eq_le)

declare jcount.simps [simp del]

text \<open>The entries and the name memory of an object whose members begin at \<open>b\<close>.\<close>

fun entries :: "nat \<Rightarrow> nat \<Rightarrow> (string \<times> jval) list \<Rightarrow> json_entry list" where
  "entries off b [] = []"
| "entries off b ((n, v) # ms) =
     \<lparr>ename = Some off, ename_length = length n, evalue = Some b\<rparr> # entries (off + length n + 1) (b + jcount v) ms"

fun name_mem :: "(string \<times> jval) list \<Rightarrow> char option list" where
  "name_mem [] = []"
| "name_mem ((n, v) # ms) = map Some n @ Some NUL # name_mem ms"

fun begins :: "nat \<Rightarrow> jval list \<Rightarrow> nat option list" where
  "begins b [] = []"
| "begins b (v # vs) = Some b # begins (b + jcount v) vs"

text \<open>The node of a value with parent \<open>p\<close> at address \<open>b\<close>, after the first and after the second pass.\<close>

fun head :: "bool \<Rightarrow> nat option \<Rightarrow> nat \<Rightarrow> jval \<Rightarrow> json_node" where
  "head first p b JNull = json_calloc json_null p"
| "head first p b (JBool c) = (json_calloc json_boolean p)\<lparr>jboolean := c\<rparr>"
| "head first p b (JStr s) =
     (json_calloc json_string p)\<lparr>jlength := length s, jptr := (if first then [] else map Some s @ [Some NUL])\<rparr>"
| "head first p b (JArray vs) =
     (json_calloc json_array p)\<lparr>jlength := length vs, jvalues := (if first then [] else begins (Suc b) vs)\<rparr>"
| "head first p b (JObject ms) =
     (json_calloc json_object p)\<lparr>jlength := length ms, jnames_size := names_size ms,
       jentries := (if first then [] else entries 0 (Suc b) ms), jobject_mem := (if first then [] else name_mem ms),
       jobject_pos := (if first then 0 else names_size ms)\<rparr>"
| "head first p b JBad = json_calloc json_none p"
| "head first p b v = num_node p v"

function nodes :: "bool \<Rightarrow> nat option \<Rightarrow> nat \<Rightarrow> jval \<Rightarrow> json_node list"
  and nodes_list :: "bool \<Rightarrow> nat \<Rightarrow> nat \<Rightarrow> jval list \<Rightarrow> json_node list" where
  "nodes first p b v = head first p b v # nodes_list first b (Suc b) (children v)"
| "nodes_list first q b [] = []"
| "nodes_list first q b (v # vs) = nodes first (Some q) b v @ nodes_list first q (b + jcount v) vs"
  by pat_completeness auto
termination
  by (relation "measure (case_sum (\<lambda>(first, p, b, v). Suc (2 * size v)) (\<lambda>(first, q, b, vs). 2 * size_list size vs))")
    (auto simp: children_size less_Suc_eq_le)

declare nodes.simps [simp del]

lemma nodes_length [simp]:
  "length (nodes first p b v) = jcount v" "length (nodes_list first q b vs) = jcounts vs"
  by (induction first p b v and first q b vs rule: nodes_nodes_list.induct) (simp_all add: nodes.simps jcount.simps)

lemma head_parent [simp]: "jparent (head first p b v) = p"
  by (cases v) (simp_all add: json_calloc_def num_node_def)

lemma entries_length [simp]: "length (entries off b ms) = length ms"
  by (induction off b ms rule: entries.induct) simp_all

lemma begins_length [simp]: "length (begins b vs) = length vs"
  by (induction b vs rule: begins.induct) simp_all

lemma name_mem_length [simp]: "length (name_mem ms) = names_size ms"
  by (induction ms rule: name_mem.induct) simp_all

section \<open>The order of allocation\<close>

text \<open>The nodes in the order of their allocation, each linked to the next.\<close>

definition chain :: "json_node list \<Rightarrow> json_node list" where
  "chain ns = map (\<lambda>i. (ns ! i)\<lparr>jnext_alloc := if Suc i < length ns then Some (Suc i) else None\<rparr>) [0..<length ns]"

lemma chain_length [simp]: "length (chain ns) = length ns"
  by (simp add: chain_def)

lemma chain_nth: "i < length ns \<Longrightarrow> chain ns ! i = (ns ! i)\<lparr>jnext_alloc := if Suc i < length ns then Some (Suc i) else None\<rparr>"
  by (simp add: chain_def)

text \<open>Updates that leave the link of a node alone.\<close>

definition linkless :: "(json_node \<Rightarrow> json_node) \<Rightarrow> bool" where
  "linkless g \<longleftrightarrow> (\<forall>n x. g (n\<lparr>jnext_alloc := x\<rparr>) = (g n)\<lparr>jnext_alloc := x\<rparr>)"

lemma chain_update:
  assumes "i < length ns" "linkless g"
  shows "(chain ns)[i := g (chain ns ! i)] = chain (ns[i := g (ns ! i)])"
  using assms by (intro nth_equalityI) (auto simp: chain_nth nth_list_update linkless_def)

lemma chain_snoc:
  assumes "jnext_alloc n = None"
  shows "(chain (G @ [a]) @ [n])[length G := ((chain (G @ [a]) @ [n]) ! length G)\<lparr>jnext_alloc := Some (Suc (length G))\<rparr>]
    = chain (G @ [a, n])" (is "?l = ?r")
proof (rule nth_equalityI)
  fix i assume "i < length ?l"
  then consider "i < length G" | "i = length G" | "i = Suc (length G)" by fastforce
  then show "?l ! i = ?r ! i"
    by cases (use assms in \<open>simp_all add: chain_nth nth_append\<close>)
qed simp

lemma linkless_put [simp]: "linkless (put i c)" "linkless (wr first k cs)"
proof -
  show put: "linkless (put i c)" for i c by (auto simp: linkless_def put_def)
  have "linkless (puts k cs)" for k
    by (induction cs arbitrary: k) (use put in \<open>auto simp: linkless_def\<close>)
  then show "linkless (wr first k cs)" by (auto simp: linkless_def wr_def)
qed

lemma linkless_more [simp]:
  "linkless (delivered first t)" "linkless (closed_string first k)" "linkless (closed_name first k)"
  using linkless_put(1) [of k NUL]
  by (auto simp: linkless_def delivered_def bump_def linked_in_def closed_string_def closed_name_def Let_def)

end
