(* ===== verification/Json_Correct.thy ===== *)
theory Json_Correct
  imports Json_Document
begin

text \<open>
  The parser on the texts of the grammar. Both passes are shown at once: what a pass has
  done is a list of finished nodes, and what the second pass has still to do is the list of
  nodes that the first one left.
\<close>

section \<open>A place in the store\<close>

definition ahead :: "bool \<Rightarrow> json_node list \<Rightarrow> json_node list" where
  "ahead first T = (if first then [] else T)"

text \<open>
  \<open>s_root\<close> and \<open>s_alloc\<close>: the last node of the first pass, the next node of the second. No
  memory limit is set, so nothing is counted.
\<close>

definition env_at :: "bool \<Rightarrow> json_node list \<Rightarrow> json_node list \<Rightarrow> mem \<Rightarrow> env" where
  "env_at first H T m =
     (first, if H = [] then None else Some 0,
      if first then (if H = [] then None else Some (length H - 1)) else (if T = [] then None else Some (length H)), 0, m)"

definition stand :: "bool \<Rightarrow> nat \<Rightarrow> nat option \<Rightarrow> place \<Rightarrow> json_node list \<Rightarrow> json_node list \<Rightarrow> jst \<Rightarrow> bool" where
  "stand first n tp pl H T s \<longleftrightarrow> (\<exists>m. False \<notin> set m \<and> sees n tp pl (chain (H @ ahead first T)) (env_at first H T m) s)"

lemma env_at_fst [simp]: "fst (env_at first H T m) = first"
  by (simp add: env_at_def)

lemma env_at_length: "length H' = length H \<Longrightarrow> env_at first H' T m = env_at first H T m"
  by (cases "H = []") (auto simp: env_at_def)

lemma goes_stand:
  assumes "\<And>m. False \<notin> set m \<Longrightarrow> \<exists>m'. False \<notin> set m' \<and>
      goes js (sees n tp pl (chain (H @ ahead first T)) (env_at first H T m))
        (sees n' tp' pl' (chain (H' @ ahead first T')) (env_at first H' T' m'))"
  shows "goes js (stand first n tp pl H T) (stand first n' tp' pl' H' T')"
  unfolding goes_def
proof (intro allI impI)
  fix s assume "stand first n tp pl H T s"
  then obtain m where "False \<notin> set m" "sees n tp pl (chain (H @ ahead first T)) (env_at first H T m) s" by (auto simp: stand_def)
  with assms [of m] show "\<exists>s'. (step js)\<^sup>*\<^sup>* s s' \<and> stand first n' tp' pl' H' T' s'"
    unfolding goes_def stand_def by blast
qed

lemma goes_stand_same:
  assumes "length H' = length H"
    and "\<And>m. goes js (sees n tp pl (chain (H @ ahead first T)) (env_at first H T m))
        (sees n' tp' pl' (chain (H' @ ahead first T)) (env_at first H T m))"
  shows "goes js (stand first n tp pl H T) (stand first n' tp' pl' H' T)"
  by (rule goes_stand) (use assms in \<open>auto simp: env_at_length [OF assms(1)]\<close>)

section \<open>A new node\<close>

text \<open>What the second pass makes of a node of the first: its buffers are allocated from the counts.\<close>

definition reopen :: "json_node \<Rightarrow> json_node" where
  "reopen n =
     (case jtype n of
        json_array \<Rightarrow> if jlength n = 0 then n else n\<lparr>jvalues := replicate (jlength n) None, jlength := 0\<rparr>
      | json_object \<Rightarrow> if jlength n = 0 then n
          else n\<lparr>jentries := replicate (jlength n) json_entry_uninit, jobject_mem := replicate (jnames_size n) None,
                 jobject_pos := 0, jlength := 0\<rparr>
      | json_string \<Rightarrow> n\<lparr>jptr := replicate (jlength n + 1) None, jlength := 0\<rparr>
      | _ \<Rightarrow> n)"

definition begun :: "bool \<Rightarrow> json_type \<Rightarrow> nat option \<Rightarrow> json_node \<Rightarrow> json_node" where
  "begun first ty tp n = (if first then json_calloc ty tp else reopen n)"

definition sized :: "json_node \<Rightarrow> bool" where
  "sized n \<longleftrightarrow> jlength n \<le> uint_max \<and> jnames_size n \<le> uint_max"

lemma sized_memory:
  assumes "sized n"
  shows "jlength n * sizeof_pointer \<le> ulong_max" "sizeof_entry * jlength n + jnames_size n \<le> ulong_max" "jlength n + 1 \<le> ulong_max"
  using assms by (auto simp: sized_def uint_max_def ulong_max_def sizeof_pointer_def sizeof_entry_def)

lemma json_alloc_served:
  assumes "used_memory s = 0" "k \<le> ulong_max" "False \<notin> set (s_mem s)"
  shows "json_alloc settings0 k s = (True, s\<lparr>s_mem := tl (s_mem s)\<rparr>)"
  using assms by (cases "s_mem s") (auto simp: json_alloc_def Let_def)

lemma False_tl: "False \<notin> set m \<Longrightarrow> False \<notin> set (tl m)"
  by (cases m) auto

lemma opens_first:
  assumes "False \<notin> set m"
  shows "opens ty tp (chain H) (env_at True H T m) (length H) (chain (H @ [json_calloc ty tp]))
    (env_at True (H @ [json_calloc ty tp]) T' (tl m))"
  unfolding opens_def
proof (intro allI impI)
  fix s assume s: "s_top s = tp" "heap s = chain H" "env_of s = env_at True H T m"
  have e: "first_pass s" "used_memory s = 0" "s_mem s = m" "s_root s = (if H = [] then None else Some 0)"
    "s_alloc s = (if H = [] then None else Some (length H - 1))"
    using s(3) by (simp_all add: env_of_def env_at_def)
  have "sizeof_value \<le> ulong_max" by (simp add: sizeof_value_def ulong_max_def)
  note a = json_alloc_served [OF e(2) this] e(3) assms
  let ?n = "json_calloc ty tp"
  have n: "jnext_alloc ?n = None" by (simp add: json_calloc_def)
  show "\<exists>z. new_value settings0 ty s = Fall z \<and> s_top z = Some (length H) \<and> heap z = chain (H @ [?n]) \<and>
      env_of z = env_at True (H @ [?n]) T' (tl m) \<and> ptr z = ptr s \<and> flags z = flags s"
  proof (cases H rule: rev_cases)
    case Nil
    have "chain [?n] = [?n]" "chain [] = []" using n by (simp_all add: chain_def)
    with Nil s e a show ?thesis by (simp add: new_value_def Let_def env_of_def env_at_def)
  next
    case (snoc G b)
    with s e a chain_snoc [OF n, of G b] show ?thesis
      by (simp add: new_value_def Let_def env_of_def env_at_def upd_node_def)
  qed
qed

lemma linkless_reopen [simp]: "linkless reopen"
  by (auto simp: linkless_def reopen_def split: json_type.splits)

lemma opens_second:
  assumes "False \<notin> set m" "sized n"
  shows "\<exists>m'. False \<notin> set m' \<and> opens ty tp (chain (H @ n # T)) (env_at False H (n # T) m) (length H)
    (chain ((H @ [reopen n]) @ T)) (env_at False (H @ [reopen n]) T m')"
proof -
  let ?m = "if (jtype n = json_array \<or> jtype n = json_object) \<and> jlength n \<noteq> 0 \<or> jtype n = json_string then tl m else m"
  have "False \<notin> set ?m" using assms(1) False_tl by simp
  moreover have "opens ty tp (chain (H @ n # T)) (env_at False H (n # T) m) (length H)
    (chain ((H @ [reopen n]) @ T)) (env_at False (H @ [reopen n]) T ?m)"
    unfolding opens_def
  proof (intro allI impI)
    fix s assume s: "s_top s = tp" "heap s = chain (H @ n # T)" "env_of s = env_at False H (n # T) m"
    have e: "\<not> first_pass s" "used_memory s = 0" "s_mem s = m" "s_root s = (if H = [] then None else Some 0)" "s_alloc s = Some (length H)"
      using s(3) by (simp_all add: env_of_def env_at_def)
    have h: "heap s ! length H = n\<lparr>jnext_alloc := if T = [] then None else Some (Suc (length H))\<rparr>" using s(2) by (simp add: chain_nth)
    have u: "(heap s)[length H := reopen (heap s ! length H)] = chain ((H @ [reopen n]) @ T)"
      using chain_update [of "length H" "H @ n # T" reopen] s(2) by simp
    have same: "(heap s)[length H := heap s ! length H] = heap s" by simp
    note al = json_alloc_served [OF _ sized_memory(1) [OF assms(2)]] json_alloc_served [OF _ sized_memory(2) [OF assms(2)]]
      json_alloc_served [OF _ sized_memory(3) [OF assms(2)]]
    have "\<exists>z. new_value settings0 ty s = Fall z \<and> s_top z = Some (length H) \<and> heap z = (heap s)[length H := reopen (heap s ! length H)] \<and>
        env_of z = (False, Some (if H = [] then length H else 0), if T = [] then None else Some (Suc (length H)), 0, ?m) \<and>
        ptr z = ptr s \<and> flags z = flags s"
      using e al assms(1) h
      by (cases "jtype n") (auto simp: new_value_def Let_def env_of_def upd_node_def reopen_def same [unfolded h])
    then show "\<exists>z. new_value settings0 ty s = Fall z \<and> s_top z = Some (length H) \<and> heap z = chain ((H @ [reopen n]) @ T) \<and>
        env_of z = env_at False (H @ [reopen n]) T ?m \<and> ptr z = ptr s \<and> flags z = flags s"
      unfolding u by (auto simp: env_at_def)
  qed
  ultimately show ?thesis by blast
qed

text \<open>Both passes.\<close>

lemma opens_at:
  assumes "False \<notin> set m" "sized n"
  shows "\<exists>m'. False \<notin> set m' \<and> opens ty tp (chain (H @ ahead first (n # T))) (env_at first H (n # T) m) (length H)
    (chain ((H @ [begun first ty tp n]) @ ahead first T)) (env_at first (H @ [begun first ty tp n]) T m')"
  using opens_first [OF assms(1)] opens_second [OF assms] False_tl [OF assms(1)]
  by (cases first) (auto simp: ahead_def begun_def)

section \<open>The end of a value in the store\<close>

definition lands :: "bool \<Rightarrow> json_node list \<Rightarrow> nat option \<Rightarrow> nat option \<Rightarrow> place \<Rightarrow> json_node list \<Rightarrow> bool" where
  "lands first H tp tp' pl' D \<longleftrightarrow>
     (case tp of
        None \<Rightarrow> H = [] \<and> tp' = Some 0 \<and> pl' = Finished \<and> D = []
      | Some q \<Rightarrow> q < length H \<and> takes first (H ! q) \<and> tp' = Some q \<and> pl' = over (jtype (H ! q)) \<and>
          D = H[q := delivered first (length H) (H ! q)])"

lemma lands_length: "lands first H tp tp' pl' D \<Longrightarrow> length D = length H"
  by (auto simp: lands_def split: option.splits)

lemma takes_link [simp]: "takes first (n\<lparr>jnext_alloc := x\<rparr>) = takes first n"
  by (simp add: takes_def)

lemma lands_ends:
  assumes "lands first H tp tp' pl' D" "jparent n = tp"
  shows "ends_as first (chain (H @ n # R)) (length H) tp' pl' (chain (D @ n # R))"
proof (cases tp)
  case None
  with assms show ?thesis by (auto simp: lands_def ends_as_def chain_nth)
next
  case (Some q)
  with assms(1) have q: "q < length H" "takes first (H ! q)" "tp' = Some q" "pl' = over (jtype (H ! q))"
    "D = H[q := delivered first (length H) (H ! q)]" by (simp_all add: lands_def)
  have "(chain (H @ n # R))[q := delivered first (length H) (chain (H @ n # R) ! q)] = chain (D @ n # R)"
    using chain_update [of q "H @ n # R" "delivered first (length H)"] q(1,5) by (simp add: nth_append list_update_append)
  with q Some assms(2) show ?thesis by (auto simp: ends_as_def chain_nth nth_append)
qed

section \<open>Values without members\<close>

text \<open>A value that is a single node: \<open>m\<close> is the node when it ends.\<close>

lemma leaf:
  assumes "lands first H tp tp' pl' D" "sized n0" "jparent n = tp"
    and "\<And>h e e' h''. opens ty tp h e (length H) (chain (H @ begun first ty tp n0 # ahead first T)) e' \<Longrightarrow> fst e' = first \<Longrightarrow>
      ends_as first (chain (H @ n # ahead first T)) (length H) tp' pl' h'' \<Longrightarrow>
      goes js (sees k tp Want h e) (sees k' tp' pl' h'' e')"
  shows "goes js (stand first k tp Want H (n0 # T)) (stand first k' tp' pl' (D @ [n]) T)"
proof (rule goes_stand)
  fix m :: mem assume "False \<notin> set m"
  from opens_at [OF this assms(2), where ty = ty and tp = tp and H = H and T = T and first = first] obtain m' where
    m': "False \<notin> set m'" "opens ty tp (chain (H @ ahead first (n0 # T))) (env_at first H (n0 # T) m) (length H)
      (chain (H @ begun first ty tp n0 # ahead first T)) (env_at first (H @ [begun first ty tp n0]) T m')" by auto
  have "goes js (sees k tp Want (chain (H @ ahead first (n0 # T))) (env_at first H (n0 # T) m))
      (sees k' tp' pl' (chain (D @ n # ahead first T)) (env_at first (H @ [begun first ty tp n0]) T m'))"
    by (rule assms(4) [OF m'(2) _ lands_ends [OF assms(1,3)]]) simp
  moreover have "env_at first (D @ [n]) T m' = env_at first (H @ [begun first ty tp n0]) T m'"
    by (rule env_at_length) (simp add: lands_length [OF assms(1)])
  ultimately show "\<exists>m'. False \<notin> set m' \<and> goes js (sees k tp Want (chain (H @ ahead first (n0 # T))) (env_at first H (n0 # T) m))
      (sees k' tp' pl' (chain ((D @ [n]) @ ahead first T)) (env_at first (D @ [n]) T m'))"
    using m'(1) by auto
qed

text \<open>The text \<open>tx\<close> takes the parser from one end of the value \<open>v\<close> to the other, in both passes.\<close>

definition reads :: "string \<Rightarrow> jval \<Rightarrow> string \<Rightarrow> bool" where
  "reads js v tx \<longleftrightarrow>
     (\<forall>first xs ys tp H T tp' pl' D. js = xs @ tx @ ys \<longrightarrow> stops ys \<longrightarrow> lands first H tp tp' pl' D \<longrightarrow>
        goes js (stand first (length xs) tp Want H (nodes True tp (length H) v @ T))
          (stand first (length xs + length tx) tp' pl' (D @ nodes first tp (length H) v) T))"

declare head.simps [simp del]

lemma nodes_leaf: "children v = [] \<Longrightarrow> nodes first p b v = [head first p b v]"
  by (simp add: nodes.simps)

lemma reads_leaf:
  assumes "children v = []" "\<And>xs ys p b. js = xs @ tx @ ys \<Longrightarrow> sized (head True p b v)"
    and "\<And>first xs ys tp H R tp' pl' h e e' h''. js = xs @ tx @ ys \<Longrightarrow> stops ys \<Longrightarrow> (first \<Longrightarrow> R = []) \<Longrightarrow>
      opens ty tp h e (length H) (chain (H @ begun first ty tp (head True tp (length H) v) # R)) e' \<Longrightarrow> fst e' = first \<Longrightarrow>
      ends_as first (chain (H @ head first tp (length H) v # R)) (length H) tp' pl' h'' \<Longrightarrow>
      goes js (sees (length xs) tp Want h e) (sees (length xs + length tx) tp' pl' h'' e')"
  shows "reads js v tx"
  unfolding reads_def
proof (intro allI impI)
  fix first xs ys tp H T tp' pl' D
  assume js: "js = xs @ tx @ ys" "stops ys" and l: "lands first H tp tp' pl' D"
  have "goes js (stand first (length xs) tp Want H (head True tp (length H) v # T))
      (stand first (length xs + length tx) tp' pl' (D @ [head first tp (length H) v]) T)"
  proof (rule leaf [where ty = ty, OF l assms(2) [OF js(1)]], goal_cases)
    case (2 h e e' h'')
    show ?case by (rule assms(3) [OF js _ 2]) (simp add: ahead_def)
  qed simp
  then show "goes js (stand first (length xs) tp Want H (nodes True tp (length H) v @ T))
      (stand first (length xs + length tx) tp' pl' (D @ nodes first tp (length H) v) T)"
    by (simp add: nodes_leaf [OF assms(1)])
qed

lemma begun_null: "begun first json_null tp (head True tp b JNull) = head first tp b JNull"
  by (simp add: begun_def reopen_def json_calloc_def head.simps)

lemma begun_boolean: "begun first json_boolean tp (head True tp b (JBool c)) = head first tp b (JBool (c \<and> \<not> first))"
  by (simp add: begun_def reopen_def json_calloc_def head.simps)

lemma truth_chain: "truth True (length H) (chain (H @ n # R)) = chain (H @ n\<lparr>jboolean := True\<rparr> # R)"
proof -
  have "linkless (\<lambda>n. n\<lparr>jboolean := True\<rparr>)" by (simp add: linkless_def)
  from chain_update [OF _ this, of "length H" "H @ n # R"] show ?thesis by (simp add: truth_def)
qed

lemma reads_null: "reads js JNull ''null''"
proof (rule reads_leaf [where ty = json_null], goal_cases)
  case (3 first xs ys tp H R tp' pl' h e e' h'')
  then show ?case by (intro step_null) (simp_all add: begun_null)
qed (simp_all add: sized_def json_calloc_def head.simps)

lemma reads_false: "reads js (JBool False) ''false''"
proof (rule reads_leaf [where ty = json_boolean], goal_cases)
  case (3 first xs ys tp H R tp' pl' h e e' h'')
  then show ?case by (intro step_false) (simp_all add: begun_boolean)
qed (simp_all add: sized_def json_calloc_def head.simps)

lemma reads_true: "reads js (JBool True) ''true''"
proof (rule reads_leaf [where ty = json_boolean], goal_cases)
  case (3 first xs ys tp H R tp' pl' h e e' h'')
  then show ?case by (intro step_true) (simp_all add: begun_boolean, simp add: truth_chain head.simps)
qed (simp_all add: sized_def json_calloc_def head.simps)

lemma num_text_leaf: "num_text v tx \<Longrightarrow> children v = [] \<and> head first p b v = num_node p v \<and> sized (num_node p v)"
  by (erule num_text.cases; erule unsigned_text.cases) (auto simp: num_node_def sized_def json_calloc_def head.simps)

lemma begun_number:
  "num_text v tx \<Longrightarrow> begun first json_integer tp (num_node tp v) = (if first then json_calloc json_integer tp else num_node tp v)"
  by (erule num_text.cases; erule unsigned_text.cases) (auto simp: begun_def reopen_def num_node_def json_calloc_def)

lemma chain_last:
  assumes "jnext_alloc n = None"
  shows "chain (H @ [n]) ! length H = n" "(chain (H @ [n']))[length H := n] = chain (H @ [n])"
  using assms by (simp_all add: chain_nth, intro nth_equalityI) (auto simp: chain_nth nth_append nth_list_update)

lemma num_node_link [simp]: "jnext_alloc (num_node p v) = None"
  by (cases v) (simp_all add: num_node_def json_calloc_def)

lemma reads_number:
  assumes "num_text v tx"
  shows "reads js v tx"
proof (rule reads_leaf [where ty = json_integer], goal_cases)
  case (3 first xs ys tp H R tp' pl' h e e' h'')
  note v = num_text_leaf [OF assms]
  have n: "jnext_alloc (json_calloc json_integer tp) = None" by (simp add: json_calloc_def)
  show ?case
  proof (cases first)
    case True
    with 3 have "R = []" by simp
    then show ?thesis using 3 v begun_number [OF assms, of True tp] True
      by (intro step_number [OF assms, where p = tp]) (simp_all, simp_all add: chain_last n)
  next
    case False
    then show ?thesis using 3 v begun_number [OF assms, of False tp]
      by (intro step_skip [OF assms]) simp_all
  qed
qed (use num_text_leaf [OF assms] in simp_all)

section \<open>Strings\<close>

lemma overwrite_Cons:
  assumes "k < length l"
  shows "take (Suc k) (l[k := y]) @ ys @ drop (Suc k + length ys) (l[k := y]) = take k l @ (y # ys) @ drop (k + length (y # ys)) l"
  using assms by (simp add: take_Suc_conv_app_nth)

lemma puts_string:
  assumes "jtype n = json_string" "k + length cs \<le> length (jptr n)"
  shows "puts k cs n = n\<lparr>jptr := take k (jptr n) @ map Some cs @ drop (k + length cs) (jptr n)\<rparr>"
  using assms
proof (induction cs arbitrary: k n)
  case (Cons c cs)
  then have "puts k (c # cs) n = (put k c n)\<lparr>jptr := take (Suc k) (jptr (put k c n)) @ map Some cs @ drop (Suc k + length cs) (jptr (put k c n))\<rparr>"
    by (simp add: put_def)
  then show ?case using overwrite_Cons [of k "jptr n" "Some c" "map Some cs"] Cons.prems by (simp add: put_def)
qed simp

lemma puts_name:
  assumes "jtype n = json_object" "jobject_pos n + k + length cs \<le> length (jobject_mem n)"
  shows "puts k cs n = n\<lparr>jobject_mem := take (jobject_pos n + k) (jobject_mem n) @ map Some cs @ drop (jobject_pos n + k + length cs) (jobject_mem n)\<rparr>"
  using assms
proof (induction cs arbitrary: k n)
  case (Cons c cs)
  let ?n = "put k c n"
  have "puts k (c # cs) n = ?n\<lparr>jobject_mem := take (Suc (jobject_pos n + k)) (jobject_mem ?n) @ map Some cs @
      drop (Suc (jobject_pos n + k) + length cs) (jobject_mem ?n)\<rparr>"
    using Cons.IH [of ?n "Suc k"] Cons.prems by (simp add: put_def)
  then show ?case using overwrite_Cons [of "jobject_pos n + k" "jobject_mem n" "Some c" "map Some cs"] Cons.prems by (simp add: put_def)
qed simp

lemma put_keeps [simp]:
  "jtype (put i c n) = jtype n" "jlength (put i c n) = jlength n" "jentries (put i c n) = jentries n"
  "jobject_pos (put i c n) = jobject_pos n"
  by (simp_all add: put_def)

lemma wr_keeps [simp]:
  "put_room i (wr first k cs n) = put_room i n" "jtype (wr first k cs n) = jtype n" "jlength (wr first k cs n) = jlength n"
  "jentries (wr first k cs n) = jentries n" "jobject_pos (wr first k cs n) = jobject_pos n"
proof -
  have p: "put_room i (puts k cs n) = put_room i n \<and> jtype (puts k cs n) = jtype n \<and> jlength (puts k cs n) = jlength n \<and>
      jentries (puts k cs n) = jentries n \<and> jobject_pos (puts k cs n) = jobject_pos n"
    by (induction cs arbitrary: k n) simp_all
  then show "put_room i (wr first k cs n) = put_room i n" "jtype (wr first k cs n) = jtype n" "jlength (wr first k cs n) = jlength n"
    "jentries (wr first k cs n) = jentries n" "jobject_pos (wr first k cs n) = jobject_pos n" by (simp_all add: wr_def)
qed

lemma string_node:
  "closed_string first (length str) (wr first 0 str (begun first json_string tp (head True tp b (JStr str)))) = head first tp b (JStr str)"
proof (cases first)
  case False
  let ?n = "reopen (head True tp b (JStr str))"
  have n: "jtype ?n = json_string" "jptr ?n = replicate (length str) None @ [None]"
    by (simp_all add: reopen_def head.simps json_calloc_def replicate_append_same)
  then have "puts 0 str ?n = ?n\<lparr>jptr := map Some str @ [None]\<rparr>" using puts_string [of ?n 0 str] by simp
  moreover have "(map Some str @ [None])[length str := Some NUL] = map Some str @ [Some NUL]"
    using list_update_length [of "map Some str" None "[]" "Some NUL"] by simp
  ultimately show ?thesis using False n
    by (simp add: closed_string_def wr_def begun_def put_def) (simp add: reopen_def head.simps json_calloc_def)
qed (simp add: closed_string_def wr_def begun_def head.simps json_calloc_def)

lemma string_room:
  "\<not> first \<Longrightarrow> put_room i (begun first json_string tp (head True tp b (JStr str))) = (i \<le> length str)"
  by (auto simp: put_room_def begun_def reopen_def head.simps json_calloc_def)

lemma put_room_link [simp]: "put_room i (n\<lparr>jnext_alloc := x\<rparr>) = put_room i n"
  by (simp add: put_room_def)

lemma chain_map_at:
  assumes "linkless g"
  shows "(chain (H @ n # R))[length H := g (chain (H @ n # R) ! length H)] = chain (H @ g n # R)"
  using chain_update [OF _ assms, of "length H" "H @ n # R"] by simp

lemma linkless_comp: "linkless f \<Longrightarrow> linkless g \<Longrightarrow> linkless (\<lambda>n. f (g n))"
  by (simp add: linkless_def)

lemma reads_string:
  assumes "str_text str tx" "length js \<le> uint_max"
  shows "reads js (JStr str) (quoted tx)"
proof (rule reads_leaf [where ty = json_string], goal_cases)
  case (3 first xs ys tp H R tp' pl' h e e' h'')
  let ?n = "begun first json_string tp (head True tp (length H) (JStr str))"
  let ?h = "chain (H @ ?n # R)" and ?t = "length H"
  let ?h2 = "?h[?t := wr first 0 str (?h ! ?t)]"
  have js: "js = xs @ CHR 0x22 # (tx @ CHR 0x22 # ys)" "js = (xs @ [CHR 0x22]) @ tx @ CHR 0x22 # ys" "js = (xs @ CHR 0x22 # tx) @ CHR 0x22 # ys"
    using 3(1) by (simp_all add: quoted_def)
  have len: "length str \<le> uint_max" using str_text_length [OF assms(1)] assms(2) js(1) by simp
  have h2: "?h2 = chain (H @ wr first 0 str ?n # R)" by (rule chain_map_at) simp
  have room: "put_rooms first 0 (length str) (?h ! ?t)" "first \<or> put_room (length str) (?h2 ! ?t)"
    using string_room [of first _ tp "length H" str]
    by (cases first; auto simp: put_rooms_def chain_nth h2)+
  have ty: "jtype (?h2 ! ?t) = json_string"
    by (simp add: h2 chain_nth begun_def reopen_def head.simps json_calloc_def)
  have cl: "?h2[?t := closed_string first (length str) (?h2 ! ?t)] = chain (H @ head first tp (length H) (JStr str) # R)"
    unfolding h2 by (subst chain_map_at) (simp_all add: string_node)
  have "goes js (sees (length xs) tp Want h e) (sees (Suc (length xs)) (Some ?t) (Instr 0) ?h e')"
    by (rule step_open_string [OF js(1) 3(4)])
  moreover have "goes js (sees (length (xs @ [CHR 0x22])) (Some ?t) (Instr 0) ?h e')
      (sees (length (xs @ [CHR 0x22]) + length tx) (Some ?t) (Instr (0 + length str)) ?h2 e')"
    using string_contents [OF assms(1) js(2), of 0 ?t ?h e'] len room(1) 3(5) by simp
  moreover have "goes js (sees (length (xs @ CHR 0x22 # tx)) (Some ?t) (Instr (length str)) ?h2 e')
      (sees (Suc (length (xs @ CHR 0x22 # tx))) tp' pl' h'' e')"
    by (rule step_string_close [OF js(3) len]) (use room(2) ty cl 3(5,6) in simp_all)
  ultimately show ?case by (auto intro: goes_trans simp: quoted_def)
qed (use str_text_length [OF assms(1)] assms(2) in \<open>simp_all add: sized_def json_calloc_def head.simps quoted_def\<close>)

end
