(* ===== verification/Json_Trees.thy ===== *)
theory Json_Trees
  imports Json_Correct
begin

text \<open>
  Arrays and objects, by induction on the grammar, and the value that the finished store
  denotes: the parser delivers exactly the value whose text it is given.
\<close>

section \<open>Between values\<close>

definition may_skip :: "place \<Rightarrow> nat option \<Rightarrow> json_node list \<Rightarrow> bool" where
  "may_skip pl tp H \<longleftrightarrow> pl \<in> {Want, Elem, Colon, Finished} \<or>
     pl \<in> {Open, Member} \<and> (\<exists>t. tp = Some t \<and> t < length H \<and> jtype (H ! t) = json_object)"

lemma may_skip_plain [simp]: "may_skip Want tp H" "may_skip Elem tp H" "may_skip Colon tp H" "may_skip Finished tp H"
  by (simp_all add: may_skip_def)

lemma stand_space:
  assumes "blank w" "js = xs @ w @ ys" "may_skip pl tp H"
  shows "goes js (stand first (length xs) tp pl H T) (stand first (length xs + length w) tp pl H T)"
  using assms(1,2)
proof (induction w arbitrary: xs)
  case Nil
  then show ?case by (simp add: goes_refl)
next
  case (Cons c w)
  have "goes js (stand first (length xs) tp pl H T) (stand first (Suc (length xs)) tp pl H T)"
  proof (rule goes_stand_same)
    fix m
    show "goes js (sees (length xs) tp pl (chain (H @ ahead first T)) (env_at first H T m))
        (sees (Suc (length xs)) tp pl (chain (H @ ahead first T)) (env_at first H T m))"
      using assms(3) Cons.prems
      by (intro step_space [of js xs c "w @ ys" pl tp "the tp"]) (auto simp: may_skip_def blank_def chain_nth nth_append)
  qed simp
  moreover have "goes js (stand first (length (xs @ [c])) tp pl H T) (stand first (length (xs @ [c]) + length w) tp pl H T)"
    using Cons.prems by (intro Cons.IH) (simp_all add: blank_def)
  ultimately show ?case by (auto intro: goes_trans)
qed

lemma stand_elem_comma:
  assumes "js = xs @ CHR '','' # ys"
  shows "goes js (stand first (length xs) tp Elem H T) (stand first (Suc (length xs)) tp Want H T)"
  by (rule goes_stand_same) (simp_all add: step_elem_comma [OF assms])

lemma stand_colon:
  assumes "js = xs @ CHR '':'' # ys"
  shows "goes js (stand first (length xs) tp Colon H T) (stand first (Suc (length xs)) tp Want H T)"
  by (rule goes_stand_same) (simp_all add: step_colon [OF assms])

lemma stand_member_comma:
  assumes "js = xs @ CHR '','' # ys" "q < length H" "jtype (H ! q) = json_object"
  shows "goes js (stand first (length xs) (Some q) Member H T) (stand first (Suc (length xs)) (Some q) Open H T)"
  by (rule goes_stand_same) (use assms(2,3) in \<open>simp_all add: step_member_comma [OF assms(1)] chain_nth nth_append\<close>)

lemma goes_opens:
  assumes "sized n"
    and "\<And>h e e'. opens ty tp h e (length H) (chain (H @ begun first ty tp n # ahead first T)) e' \<Longrightarrow>
      goes js (sees k tp pl h e) (sees k' (Some (length H)) pl' (chain (H @ begun first ty tp n # ahead first T)) e')"
  shows "goes js (stand first k tp pl H (n # T)) (stand first k' (Some (length H)) pl' (H @ [begun first ty tp n]) T)"
proof (rule goes_stand)
  fix m :: mem assume "False \<notin> set m"
  from opens_at [OF this assms(1), of ty tp H first T] obtain m' where
    m': "False \<notin> set m'" "opens ty tp (chain (H @ ahead first (n # T))) (env_at first H (n # T) m) (length H)
      (chain (H @ begun first ty tp n # ahead first T)) (env_at first (H @ [begun first ty tp n]) T m')" by auto
  with assms(2) [OF m'(2)]
  show "\<exists>m'. False \<notin> set m' \<and> goes js (sees k tp pl (chain (H @ ahead first (n # T))) (env_at first H (n # T) m))
      (sees k' (Some (length H)) pl' (chain ((H @ [begun first ty tp n]) @ ahead first T)) (env_at first (H @ [begun first ty tp n]) T m'))"
    by auto
qed

lemma stand_open_array:
  assumes "js = xs @ CHR ''['' # ys" "sized n"
  shows "goes js (stand first (length xs) tp Want H (n # T))
    (stand first (Suc (length xs)) (Some (length H)) Want (H @ [begun first json_array tp n]) T)"
  by (rule goes_opens [OF assms(2)]) (rule step_open_array [OF assms(1)])

lemma stand_open_object:
  assumes "js = xs @ CHR 0x7B # ys" "sized n"
  shows "goes js (stand first (length xs) tp Want H (n # T))
    (stand first (Suc (length xs)) (Some (length H)) Open (H @ [begun first json_object tp n]) T)"
  by (rule goes_opens [OF assms(2)]) (rule step_open_object [OF assms(1)])

lemma stand_ends:
  assumes "lands first H tp tp' pl' D" "jparent n = tp"
    and "\<And>m h'. ends_as first (chain (H @ n # ns @ ahead first T)) (length H) tp' pl' h' \<Longrightarrow>
      goes js (sees k (Some (length H)) pl (chain (H @ n # ns @ ahead first T)) (env_at first (H @ n # ns) T m))
        (sees k' tp' pl' h' (env_at first (H @ n # ns) T m))"
  shows "goes js (stand first k (Some (length H)) pl (H @ n # ns) T) (stand first k' tp' pl' (D @ n # ns) T)"
  using assms(3) [OF lands_ends [OF assms(1,2)]] lands_length [OF assms(1)] by (intro goes_stand_same) simp_all

lemma stand_close_array:
  assumes "js = xs @ CHR '']'' # ys" "pl \<in> {Want, Elem}" "lands first H tp tp' pl' D" "jparent n = tp" "jtype n = json_array"
  shows "goes js (stand first (length xs) (Some (length H)) pl (H @ n # ns) T) (stand first (Suc (length xs)) tp' pl' (D @ n # ns) T)"
  by (rule stand_ends [OF assms(3,4)], rule step_array_close [OF assms(1,2)]) (simp_all add: chain_nth assms(5))

lemma stand_close_object:
  assumes "js = xs @ CHR 0x7D # ys" "pl \<in> {Open, Member}" "lands first H tp tp' pl' D" "jparent n = tp" "jtype n = json_object"
  shows "goes js (stand first (length xs) (Some (length H)) pl (H @ n # ns) T) (stand first (Suc (length xs)) tp' pl' (D @ n # ns) T)"
  by (rule stand_ends [OF assms(3,4)], rule step_object_close [OF assms(1,2)]) (simp_all add: chain_nth assms(5))

section \<open>Arrays\<close>

text \<open>The node of an array while its elements are delivered to it.\<close>

fun fill_elems :: "bool \<Rightarrow> nat \<Rightarrow> jval list \<Rightarrow> json_node \<Rightarrow> json_node" where
  "fill_elems first b [] n = n"
| "fill_elems first b (v # vs) n = fill_elems first (b + jcount v) vs (delivered first b n)"

definition elem_room :: "bool \<Rightarrow> nat \<Rightarrow> json_node \<Rightarrow> bool" where
  "elem_room first k n \<longleftrightarrow> jtype n = json_array \<and> jlength n + k \<le> uint_max \<and> (first \<or> jlength n + k \<le> length (jvalues n))"

lemma elem_room_Suc:
  assumes "elem_room first (Suc k) n"
  shows "takes first n" "elem_room first k (delivered first b n)" "jtype (delivered first b n) = json_array" "jtype n = json_array"
  using assms by (auto simp: elem_room_def takes_def delivered_def bump_def linked_in_def)

lemma fill_elems_first: "fill_elems True b vs n = n\<lparr>jlength := jlength n + length vs\<rparr>"
  by (induction vs arbitrary: b n) (simp_all add: delivered_def bump_def)

lemma fill_elems_second:
  assumes "jtype n = json_array" "jvalues n = us @ replicate (length vs) None" "jlength n = length us"
  shows "fill_elems False b vs n = n\<lparr>jlength := length us + length vs, jvalues := us @ begins b vs\<rparr>"
  using assms
proof (induction vs arbitrary: b n us)
  case (Cons v vs)
  let ?n = "delivered False b n"
  have n: "?n = n\<lparr>jvalues := (us @ [Some b]) @ replicate (length vs) None, jlength := length (us @ [Some b])\<rparr>"
    using Cons.prems by (simp add: delivered_def bump_def linked_in_def)
  then have "fill_elems False (b + jcount v) vs ?n =
      ?n\<lparr>jlength := length (us @ [Some b]) + length vs, jvalues := (us @ [Some b]) @ begins (b + jcount v) vs\<rparr>"
    using Cons.prems by (intro Cons.IH) simp_all
  with n show ?case by simp
qed simp

lemma array_node:
  "fill_elems first (Suc b) vs (begun first json_array p (head True p b (JArray vs))) = head first p b (JArray vs)"
proof (cases first)
  case True
  then show ?thesis by (simp add: fill_elems_first begun_def head.simps json_calloc_def)
next
  case False
  let ?n = "reopen (head True p b (JArray vs))"
  have "jtype ?n = json_array" "jvalues ?n = [] @ replicate (length vs) None" "jlength ?n = length []"
    by (auto simp: reopen_def head.simps json_calloc_def)
  with fill_elems_second [of ?n "[]" vs "Suc b"] False show ?thesis
    by (simp add: begun_def) (auto simp: reopen_def head.simps json_calloc_def)
qed

lemma array_room:
  assumes "length vs \<le> uint_max"
  shows "elem_room first (length vs) (begun first json_array p (head True p b (JArray vs)))"
    and "jparent (head first p b (JArray vs)) = p" "jtype (head first p b (JArray vs)) = json_array"
    and "sized (head True p b (JArray vs))"
  using assms by (auto simp: elem_room_def begun_def reopen_def head.simps json_calloc_def sized_def)

definition reads_elems :: "string \<Rightarrow> jval list \<Rightarrow> string \<Rightarrow> bool" where
  "reads_elems js vs tx \<longleftrightarrow>
     (\<forall>first xs ys q H T. js = xs @ tx @ ys \<longrightarrow> stops ys \<longrightarrow> q < length H \<longrightarrow> elem_room first (length vs) (H ! q) \<longrightarrow>
        goes js (stand first (length xs) (Some q) Want H (nodes_list True q (length H) vs @ T))
          (stand first (length xs + length tx) (Some q) Elem
             (H[q := fill_elems first (length H) vs (H ! q)] @ nodes_list first q (length H) vs) T))"

lemma stops_blank: "blank w \<Longrightarrow> stops ys \<Longrightarrow> stops (w @ ys)"
  by (cases w) (auto simp: stops_def blank_def is_ws_def is_num_char_def isdigit_def)

lemma stops_punct [simp]: "stops (CHR '','' # ys)" "stops (CHR '']'' # ys)" "stops (CHR 0x7D # ys)" "stops []"
  by (simp_all add: stops_def is_num_char_def isdigit_def)

text \<open>An element with the white space around it.\<close>

lemma elem_run:
  assumes "reads js v tx" "blank w" "blank w'" "js = xs @ w @ tx @ w' @ ys" "stops ys" "q < length H" "elem_room first (Suc k) (H ! q)"
  shows "goes js (stand first (length xs) (Some q) Want H (nodes True (Some q) (length H) v @ T))
    (stand first (length (xs @ w @ tx @ w')) (Some q) Elem
       (H[q := delivered first (length H) (H ! q)] @ nodes first (Some q) (length H) v) T)"
proof -
  let ?D = "H[q := delivered first (length H) (H ! q)]"
  have "lands first H (Some q) (Some q) Elem ?D" using assms(6) elem_room_Suc [OF assms(7)] by (simp add: lands_def)
  moreover have js: "js = (xs @ w) @ tx @ (w' @ ys)" "js = (xs @ w @ tx) @ w' @ ys" using assms(4) by simp_all
  ultimately have "goes js (stand first (length (xs @ w)) (Some q) Want H (nodes True (Some q) (length H) v @ T))
      (stand first (length (xs @ w) + length tx) (Some q) Elem (?D @ nodes first (Some q) (length H) v) T)"
    using assms(1) stops_blank [OF assms(3,5)] unfolding reads_def by blast
  moreover note stand_space [OF assms(2), of js xs "tx @ w' @ ys" Want "Some q" H first]
  moreover note stand_space [OF assms(3) js(2), of Elem "Some q" "?D @ nodes first (Some q) (length H) v" first T]
  ultimately show ?thesis using assms(4) by (auto intro: goes_trans simp: add.assoc)
qed

lemma elem_reads:
  assumes "reads js v tx" "blank w" "blank w'"
  shows "reads_elems js [v] (w @ tx @ w')"
  unfolding reads_elems_def
proof (intro allI impI)
  fix first xs ys q H T
  assume "js = xs @ (w @ tx @ w') @ ys" "stops ys" "q < length H" "elem_room first (length [v]) (H ! q)"
  then show "goes js (stand first (length xs) (Some q) Want H (nodes_list True q (length H) [v] @ T))
      (stand first (length xs + length (w @ tx @ w')) (Some q) Elem
        (H[q := fill_elems first (length H) [v] (H ! q)] @ nodes_list first q (length H) [v]) T)"
    using elem_run [OF assms, of xs ys q H first 0 T] by simp
qed

lemma elems_reads:
  assumes "reads js v tx" "blank w" "blank w'" "reads_elems js vs txs"
  shows "reads_elems js (v # vs) (w @ tx @ w' @ '','' @ txs)"
  unfolding reads_elems_def
proof (intro allI impI)
  fix first xs ys q H T
  assume a: "js = xs @ (w @ tx @ w' @ '','' @ txs) @ ys" "stops ys" "q < length H" "elem_room first (length (v # vs)) (H ! q)"
  let ?b = "length H + jcount v" and ?T = "nodes_list True q (length H + jcount v) vs @ T"
  let ?n = "delivered first (length H) (H ! q)"
  let ?H = "H[q := ?n] @ nodes first (Some q) (length H) v"
  have js: "js = (xs @ w @ tx @ w') @ CHR '','' # (txs @ ys)" "js = (xs @ w @ tx @ w' @ '','') @ txs @ ys" using a(1) by simp_all
  have H: "length ?H = ?b" "q < length ?H" "?H ! q = ?n" "elem_room first (length vs) (?H ! q)"
    using a(3,4) elem_room_Suc(2) [of first "length vs" "H ! q"] by (simp_all add: nth_append)
  have "goes js (stand first (length xs) (Some q) Want H (nodes True (Some q) (length H) v @ ?T))
      (stand first (length (xs @ w @ tx @ w')) (Some q) Elem ?H ?T)"
    using a by (intro elem_run [OF assms(1-3), where ys = "CHR '','' # txs @ ys" and k = "length vs"]) simp_all
  moreover note stand_elem_comma [OF js(1), of first "Some q" ?H ?T]
  moreover have "goes js (stand first (length (xs @ w @ tx @ w' @ '','')) (Some q) Want ?H ?T)
      (stand first (length (xs @ w @ tx @ w' @ '','') + length txs) (Some q) Elem
        (?H[q := fill_elems first ?b vs ?n] @ nodes_list first q ?b vs) T)"
    using assms(4) js(2) a(2) H unfolding reads_elems_def by metis
  moreover have "?H[q := fill_elems first ?b vs ?n] = H[q := fill_elems first ?b vs ?n] @ nodes first (Some q) (length H) v"
    using a(3) by (simp add: list_update_append)
  ultimately show "goes js (stand first (length xs) (Some q) Want H (nodes_list True q (length H) (v # vs) @ T))
      (stand first (length xs + length (w @ tx @ w' @ '','' @ txs)) (Some q) Elem
        (H[q := fill_elems first (length H) (v # vs) (H ! q)] @ nodes_list first q (length H) (v # vs)) T)"
    by (auto intro: goes_trans simp: add.assoc)
qed

lemma array_reads:
  assumes "reads_elems js vs tx" "length vs \<le> uint_max"
  shows "reads js (JArray vs) (''['' @ tx @ '']'')"
  unfolding reads_def
proof (intro allI impI)
  fix first xs ys tp H T tp' pl' D
  assume a: "js = xs @ (''['' @ tx @ '']'') @ ys" "lands first H tp tp' pl' D"
  let ?b = "length H" and ?T = "nodes_list True (length H) (Suc (length H)) vs @ T"
  let ?n = "\<lambda>first. head first tp (length H) (JArray vs)"
  let ?m = "begun first json_array tp (?n True)"
  have js: "js = xs @ CHR ''['' # (tx @ '']'' @ ys)" "js = (xs @ ''['') @ tx @ (CHR '']'' # ys)" "js = (xs @ ''['' @ tx) @ CHR '']'' # ys"
    using a(1) by simp_all
  note n = array_room(1-3) [OF assms(2), where first = first and p = tp and b = ?b] array_room(4) [OF assms(2), where p = tp and b = ?b]
  note stand_open_array [OF js(1) n(4), where first = first and tp = tp and H = H and T = ?T]
  moreover have "goes js (stand first (length (xs @ ''['')) (Some ?b) Want (H @ [?m]) ?T)
      (stand first (length (xs @ ''['') + length tx) (Some ?b) Elem
         ((H @ [?m])[?b := fill_elems first (Suc ?b) vs ?m] @ nodes_list first ?b (Suc ?b) vs) T)"
    using assms(1) js(2) n(1) unfolding reads_elems_def
    by (metis (no_types, lifting) length_append_singleton lessI nth_append_length stops_punct(2))
  then have "goes js (stand first (length (xs @ ''['')) (Some ?b) Want (H @ [?m]) ?T)
      (stand first (length (xs @ ''['') + length tx) (Some ?b) Elem (H @ ?n first # nodes_list first ?b (Suc ?b) vs) T)"
    by (simp add: array_node)
  moreover note stand_close_array [OF js(3) _ a(2) n(2,3), where pl = Elem and ns = "nodes_list first ?b (Suc ?b) vs" and T = T]
  ultimately show "goes js (stand first (length xs) tp Want H (nodes True tp (length H) (JArray vs) @ T))
      (stand first (length xs + length (''['' @ tx @ '']'')) tp' pl' (D @ nodes first tp (length H) (JArray vs)) T)"
    by (auto intro: goes_trans simp: nodes.simps add.assoc)
qed

lemma array0_reads:
  assumes "blank w"
  shows "reads js (JArray []) (''['' @ w @ '']'')"
  unfolding reads_def
proof (intro allI impI)
  fix first xs ys tp H T tp' pl' D
  assume a: "js = xs @ (''['' @ w @ '']'') @ ys" "lands first H tp tp' pl' D"
  have js: "js = xs @ CHR ''['' # (w @ '']'' @ ys)" "js = (xs @ ''['') @ w @ (CHR '']'' # ys)" "js = (xs @ ''['' @ w) @ CHR '']'' # ys"
    using a(1) by simp_all
  let ?n = "\<lambda>first. head first tp (length H) (JArray [])"
  have n: "begun first json_array tp (?n True) = ?n first" using array_node [of first "length H" "[]" tp] by simp
  have "length ([] :: jval list) \<le> uint_max" by simp
  note r = array_room(1-3) [OF this, where first = first and p = tp and b = "length H"] array_room(4) [OF this, where p = tp and b = "length H"]
  note stand_open_array [OF js(1) r(4), where first = first and tp = tp and H = H and T = T]
  moreover note stand_space [OF assms js(2), of Want "Some (length H)" "H @ [?n first]" first T]
  moreover note stand_close_array [OF js(3) _ a(2) r(2,3), where pl = Want and ns = "[]" and T = T]
  ultimately show "goes js (stand first (length xs) tp Want H (nodes True tp (length H) (JArray []) @ T))
      (stand first (length xs + length (''['' @ w @ '']'')) tp' pl' (D @ nodes first tp (length H) (JArray [])) T)"
    by (auto intro: goes_trans simp: nodes_leaf n add.assoc)
qed

section \<open>Objects\<close>

definition with_name :: "bool \<Rightarrow> string \<Rightarrow> json_node \<Rightarrow> json_node" where
  "with_name first nm n = closed_name first (length nm) (wr first 0 nm n)"

fun fill_members :: "bool \<Rightarrow> nat \<Rightarrow> (string \<times> jval) list \<Rightarrow> json_node \<Rightarrow> json_node" where
  "fill_members first b [] n = n"
| "fill_members first b ((nm, v) # ms) n = fill_members first (b + jcount v) ms (delivered first b (with_name first nm n))"

definition object_room :: "bool \<Rightarrow> (string \<times> jval) list \<Rightarrow> json_node \<Rightarrow> bool" where
  "object_room first ms n \<longleftrightarrow> jtype n = json_object \<and> jlength n + length ms \<le> uint_max \<and>
     (first \<or> jlength n + length ms \<le> length (jentries n) \<and> jobject_pos n + names_size ms \<le> length (jobject_mem n))"

lemma wr_mem [simp]: "jtype n = json_object \<Longrightarrow> length (jobject_mem (wr first k cs n)) = length (jobject_mem n)"
proof -
  have "jtype n = json_object \<Longrightarrow> length (jobject_mem (puts k cs n)) = length (jobject_mem n)"
    by (induction cs arbitrary: k n) (simp_all, simp add: put_def)
  then show "jtype n = json_object \<Longrightarrow> length (jobject_mem (wr first k cs n)) = length (jobject_mem n)" by (simp add: wr_def)
qed

lemma object_room_Cons:
  assumes "object_room first ((nm, v) # ms) n"
  shows "jtype n = json_object" "put_rooms first 0 (length nm) n" "first \<or> put_room (length nm) n"
    "first \<or> jlength n < length (jentries n)" "takes first (with_name first nm n)" "jtype (with_name first nm n) = json_object"
    "object_room first ms (delivered first b (with_name first nm n))"
  using assms
  by (auto simp: object_room_def put_rooms_def put_room_def takes_def with_name_def closed_name_def delivered_def bump_def linked_in_def put_def Let_def)

lemma fill_members_first:
  "fill_members True b ms n = n\<lparr>jlength := jlength n + length ms, jnames_size := jnames_size n + names_size ms\<rparr>"
proof (induction ms arbitrary: b n)
  case (Cons m ms)
  then show ?case by (cases m) (simp add: delivered_def bump_def with_name_def closed_name_def wr_def)
qed simp

lemma with_name_second:
  assumes "jtype n = json_object" "jentries n = es @ json_entry_uninit # us" "jlength n = length es"
    and "jobject_mem n = mem @ replicate (length nm) None @ None # r" "jobject_pos n = length mem"
  shows "delivered False b (with_name False nm n) =
    n\<lparr>jentries := es @ \<lparr>ename = Some (length mem), ename_length = length nm, evalue = Some b\<rparr> # us, jlength := Suc (length es),
      jobject_mem := mem @ map Some nm @ Some NUL # r, jobject_pos := length mem + length nm + 1\<rparr>"
proof -
  have "wr False 0 nm n = n\<lparr>jobject_mem := mem @ map Some nm @ None # r\<rparr>"
    using puts_name [of n 0 nm] assms by (simp add: wr_def)
  moreover have "(mem @ map Some nm @ None # r)[length mem + length nm := Some NUL] = mem @ map Some nm @ Some NUL # r"
    using list_update_length [of "mem @ map Some nm" None r "Some NUL"] by simp
  ultimately have "put (length nm) NUL (wr False 0 nm n) = n\<lparr>jobject_mem := mem @ map Some nm @ Some NUL # r\<rparr>"
    using assms(1,5) by (simp add: put_def)
  with assms show ?thesis
    by (simp add: delivered_def bump_def linked_in_def with_name_def closed_name_def Let_def json_entry_uninit_def)
qed

lemma fill_members_second:
  assumes "jtype n = json_object" "jentries n = es @ replicate (length ms) json_entry_uninit" "jlength n = length es"
    and "jobject_mem n = mem @ replicate (names_size ms) None" "jobject_pos n = length mem"
  shows "fill_members False b ms n = n\<lparr>jlength := length es + length ms, jentries := es @ entries (length mem) b ms,
    jobject_mem := mem @ name_mem ms, jobject_pos := length mem + names_size ms\<rparr>"
  using assms
proof (induction ms arbitrary: b n es mem)
  case (Cons m ms)
  obtain nm v where m: "m = (nm, v)" by (cases m)
  let ?e = "\<lparr>ename = Some (length mem), ename_length = length nm, evalue = Some b\<rparr>"
  let ?n = "delivered False b (with_name False nm n)"
  let ?es = "es @ [?e]" and ?mem = "mem @ map Some nm @ [Some NUL]"
  have n: "?n = n\<lparr>jentries := ?es @ replicate (length ms) json_entry_uninit, jlength := length ?es,
      jobject_mem := ?mem @ replicate (names_size ms) None, jobject_pos := length ?mem\<rparr>"
    using with_name_second [of n es "replicate (length ms) json_entry_uninit" mem nm "replicate (names_size ms) None" b] Cons.prems m
    by (simp add: replicate_add replicate_app_Cons_same)
  have "fill_members False (b + jcount v) ms ?n = ?n\<lparr>jlength := length ?es + length ms,
      jentries := ?es @ entries (length ?mem) (b + jcount v) ms, jobject_mem := ?mem @ name_mem ms, jobject_pos := length ?mem + names_size ms\<rparr>"
    using Cons.prems by (intro Cons.IH) (simp_all add: n)
  with n m show ?case by simp
qed simp

lemma object_node:
  "fill_members first (Suc b) ms (begun first json_object p (head True p b (JObject ms))) = head first p b (JObject ms)"
proof (cases first)
  case True
  then show ?thesis by (simp add: fill_members_first begun_def head.simps json_calloc_def)
next
  case False
  let ?n = "reopen (head True p b (JObject ms))"
  have "jtype ?n = json_object" "jentries ?n = [] @ replicate (length ms) json_entry_uninit" "jlength ?n = length []"
    "jobject_mem ?n = [] @ replicate (names_size ms) None" "jobject_pos ?n = length []"
    by (auto simp: reopen_def head.simps json_calloc_def)
  with fill_members_second [of ?n "[]" ms "[]" "Suc b"] False show ?thesis
    by (simp add: begun_def) (auto simp: reopen_def head.simps json_calloc_def)
qed

lemma object_room_begun:
  assumes "length ms \<le> uint_max" "names_size ms \<le> uint_max"
  shows "object_room first ms (begun first json_object p (head True p b (JObject ms)))"
    and "jparent (head first p b (JObject ms)) = p" "jtype (head first p b (JObject ms)) = json_object"
    and "sized (head True p b (JObject ms))"
  using assms by (auto simp: object_room_def begun_def reopen_def head.simps json_calloc_def sized_def)

text \<open>The name of a member.\<close>

lemma name_run:
  assumes "str_text nm nx" "js = xs @ quoted nx @ ys" "length js \<le> uint_max" "q < length H" "object_room first ((nm, v) # ms) (H ! q)"
  shows "goes js (stand first (length xs) (Some q) Open H T)
    (stand first (length (xs @ quoted nx)) (Some q) Colon (H[q := with_name first nm (H ! q)]) T)"
proof (rule goes_stand_same)
  fix m
  let ?e = "env_at first H T m" and ?h = "chain (H @ ahead first T)"
  let ?h2 = "?h[q := wr first 0 nm (?h ! q)]"
  have js: "js = xs @ CHR 0x22 # (nx @ CHR 0x22 # ys)" "js = (xs @ [CHR 0x22]) @ nx @ CHR 0x22 # ys" "js = (xs @ CHR 0x22 # nx) @ CHR 0x22 # ys"
    using assms(2) by (simp_all add: quoted_def)
  note n = object_room_Cons(1-4) [OF assms(5)]
  have len: "length nm \<le> uint_max" using str_text_length [OF assms(1)] assms(3) js(1) by simp
  have upd: "(chain (G @ R))[q := g (chain (G @ R) ! q)] = chain (G[q := g (G ! q)] @ R)" if "linkless g" "length G = length H" for g G R
    using chain_update [OF _ that(1), of q "G @ R"] that(2) assms(4) by (simp add: nth_append list_update_append)
  have hq: "?h ! q = (H ! q)\<lparr>jnext_alloc := jnext_alloc (?h ! q)\<rparr>" using assms(4) by (simp add: chain_nth nth_append)
  have h2: "?h2 = chain (H[q := wr first 0 nm (H ! q)] @ ahead first T)" by (rule upd) simp_all
  have h2q: "?h2 ! q = (wr first 0 nm (H ! q))\<lparr>jnext_alloc := jnext_alloc (?h2 ! q)\<rparr>"
    unfolding h2 using assms(4) by (simp add: chain_nth nth_append)
  have "goes js (sees (length xs) (Some q) Open ?h ?e) (sees (Suc (length xs)) (Some q) (Instr 0) ?h ?e)"
    by (rule step_name [OF js(1)]) (subst hq, simp add: n(1))
  moreover have "put_rooms first 0 (length nm) (?h ! q)" by (subst hq) (use n(2) in \<open>simp add: put_rooms_def\<close>)
  then have "goes js (sees (length (xs @ [CHR 0x22])) (Some q) (Instr 0) ?h ?e)
      (sees (length (xs @ [CHR 0x22]) + length nx) (Some q) (Instr (0 + length nm)) ?h2 ?e)"
    using string_contents [OF assms(1) js(2), of 0 q ?h ?e] len assms(4) by simp
  moreover have "goes js (sees (length (xs @ CHR 0x22 # nx)) (Some q) (Instr (length nm)) ?h2 ?e)
      (sees (Suc (length (xs @ CHR 0x22 # nx))) (Some q) Colon (?h2[q := closed_name first (length nm) (?h2 ! q)]) ?e)"
  proof (rule step_name_close [OF js(3) len, of q ?h2 ?e, unfolded env_at_fst])
    show "first \<or> put_room (length nm) (?h2 ! q)" "jtype (?h2 ! q) = json_object" "first \<or> jlength (?h2 ! q) < length (jentries (?h2 ! q))"
      by (subst h2q; use n in simp)+
  qed (use assms(4) in simp)
  moreover have "?h2[q := closed_name first (length nm) (?h2 ! q)] = chain (H[q := with_name first nm (H ! q)] @ ahead first T)"
    unfolding h2 using upd [of "closed_name first (length nm)" "H[q := wr first 0 nm (H ! q)]" "ahead first T"] assms(4)
    by (simp add: with_name_def)
  ultimately show "goes js (sees (length xs) (Some q) Open ?h ?e)
      (sees (length (xs @ quoted nx)) (Some q) Colon (chain (H[q := with_name first nm (H ! q)] @ ahead first T)) ?e)"
    by (auto intro: goes_trans simp: quoted_def)
qed simp

definition reads_members :: "string \<Rightarrow> (string \<times> jval) list \<Rightarrow> string \<Rightarrow> bool" where
  "reads_members js ms tx \<longleftrightarrow>
     (\<forall>first xs ys q H T. js = xs @ tx @ ys \<longrightarrow> stops ys \<longrightarrow> q < length H \<longrightarrow> object_room first ms (H ! q) \<longrightarrow>
        goes js (stand first (length xs) (Some q) Open H (nodes_list True q (length H) (map snd ms) @ T))
          (stand first (length xs + length tx) (Some q) Member
             (H[q := fill_members first (length H) ms (H ! q)] @ nodes_list first q (length H) (map snd ms)) T))"

text \<open>A member with the white space around its parts.\<close>

definition member_text :: "string \<Rightarrow> string \<Rightarrow> string \<Rightarrow> string \<Rightarrow> string \<Rightarrow> string \<Rightarrow> string" where
  "member_text w nx w1 w2 tx w' = w @ quoted nx @ w1 @ '':'' @ w2 @ tx @ w'"

lemma member_name_run:
  assumes "str_text nm nx" "blank w" "blank w1" "blank w2" "js = xs @ w @ quoted nx @ w1 @ '':'' @ w2 @ ys" "length js \<le> uint_max"
    and "q < length H" "object_room first ((nm, v) # ms) (H ! q)"
  shows "goes js (stand first (length xs) (Some q) Open H T)
    (stand first (length (xs @ w @ quoted nx @ w1 @ '':'' @ w2)) (Some q) Want (H[q := with_name first nm (H ! q)]) T)"
proof -
  let ?H = "H[q := with_name first nm (H ! q)]"
  have js: "js = xs @ w @ (quoted nx @ w1 @ '':'' @ w2 @ ys)" "js = (xs @ w) @ quoted nx @ (w1 @ '':'' @ w2 @ ys)"
    "js = (xs @ w @ quoted nx) @ w1 @ ('':'' @ w2 @ ys)" "js = (xs @ w @ quoted nx @ w1) @ CHR '':'' # (w2 @ ys)"
    "js = (xs @ w @ quoted nx @ w1 @ '':'') @ w2 @ ys" using assms(5) by simp_all
  have "may_skip Open (Some q) H" using assms(7) object_room_Cons(1) [OF assms(8)] by (simp add: may_skip_def)
  note stand_space [OF assms(2) js(1) this, of first T]
  moreover note name_run [OF assms(1) js(2) assms(6-8), of T]
  moreover note stand_space [OF assms(3) js(3), of Colon "Some q" ?H first T]
  moreover note stand_colon [OF js(4), of first "Some q" ?H T]
  moreover note stand_space [OF assms(4) js(5), of Want "Some q" ?H first T]
  ultimately show ?thesis by (simp add: add.assoc) (meson goes_trans)
qed

lemma member_run:
  assumes "reads js v tx" "str_text nm nx" "blank w" "blank w1" "blank w2" "blank w'" "js = xs @ member_text w nx w1 w2 tx w' @ ys"
    and "stops ys" "length js \<le> uint_max" "q < length H" "object_room first ((nm, v) # ms) (H ! q)"
  shows "goes js (stand first (length xs) (Some q) Open H (nodes True (Some q) (length H) v @ T))
    (stand first (length (xs @ member_text w nx w1 w2 tx w')) (Some q) Member
       (H[q := delivered first (length H) (with_name first nm (H ! q))] @ nodes first (Some q) (length H) v) T)"
proof -
  let ?H = "H[q := with_name first nm (H ! q)]" and ?D = "H[q := delivered first (length H) (with_name first nm (H ! q))]"
  let ?xs = "xs @ w @ quoted nx @ w1 @ '':'' @ w2" and ?T = "nodes True (Some q) (length H) v @ T"
  let ?G = "?D @ nodes first (Some q) (length H) v"
  note n = object_room_Cons [OF assms(11)]
  have js: "js = xs @ w @ quoted nx @ w1 @ '':'' @ w2 @ (tx @ w' @ ys)" "js = ?xs @ tx @ (w' @ ys)" "js = (?xs @ tx) @ w' @ ys"
    using assms(7) by (simp_all add: member_text_def)
  note member_name_run [OF assms(2-5) js(1) assms(9-11), of ?T]
  moreover have "lands first ?H (Some q) (Some q) Member ?D" using assms(10) n(5,6) by (simp add: lands_def)
  then have "goes js (stand first (length ?xs) (Some q) Want ?H ?T) (stand first (length ?xs + length tx) (Some q) Member ?G T)"
    using assms(1) js(2) stops_blank [OF assms(6,8)] unfolding reads_def by (metis length_list_update)
  moreover have "jtype (delivered first (length H) (with_name first nm (H ! q))) = json_object"
    using n(6) by (cases first) (simp_all add: delivered_def bump_def linked_in_def)
  then have "may_skip Member (Some q) ?G" using assms(10) by (simp add: may_skip_def nth_append)
  note stand_space [OF assms(6) js(3) this, of first T]
  ultimately show ?thesis by (auto intro: goes_trans simp: member_text_def add.assoc)
qed

lemma member_reads:
  assumes "reads js v tx" "str_text nm nx" "blank w" "blank w1" "blank w2" "blank w'" "length js \<le> uint_max"
  shows "reads_members js [(nm, v)] (member_text w nx w1 w2 tx w')"
  unfolding reads_members_def
proof (intro allI impI)
  fix first xs ys q H T
  assume "js = xs @ member_text w nx w1 w2 tx w' @ ys" "stops ys" "q < length H" "object_room first [(nm, v)] (H ! q)"
  then show "goes js (stand first (length xs) (Some q) Open H (nodes_list True q (length H) (map snd [(nm, v)]) @ T))
      (stand first (length xs + length (member_text w nx w1 w2 tx w')) (Some q) Member
        (H[q := fill_members first (length H) [(nm, v)] (H ! q)] @ nodes_list first q (length H) (map snd [(nm, v)])) T)"
    using member_run [OF assms(1-6) _ _ assms(7), of xs ys q H first "[]" T] by simp
qed

lemma members_reads:
  assumes "reads js v tx" "str_text nm nx" "blank w" "blank w1" "blank w2" "blank w'" "length js \<le> uint_max"
    and "reads_members js ms txs"
  shows "reads_members js ((nm, v) # ms) (member_text w nx w1 w2 tx w' @ '','' @ txs)"
  unfolding reads_members_def
proof (intro allI impI)
  fix first xs ys q H T
  let ?m = "member_text w nx w1 w2 tx w'"
  assume a: "js = xs @ (?m @ '','' @ txs) @ ys" "stops ys" "q < length H" "object_room first ((nm, v) # ms) (H ! q)"
  let ?b = "length H + jcount v" and ?T = "nodes_list True q (length H + jcount v) (map snd ms) @ T"
  let ?n = "delivered first (length H) (with_name first nm (H ! q))"
  let ?H = "H[q := ?n] @ nodes first (Some q) (length H) v"
  have js: "js = xs @ ?m @ (CHR '','' # txs @ ys)" "js = (xs @ ?m) @ CHR '','' # (txs @ ys)" "js = (xs @ ?m @ '','') @ txs @ ys"
    using a(1) by simp_all
  have H: "length ?H = ?b" "q < length ?H" "?H ! q = ?n" "object_room first ms (?H ! q)" "jtype (?H ! q) = json_object"
    using a(3) object_room_Cons(7) [OF a(4), of "length H"] by (simp_all add: nth_append object_room_def)
  have "goes js (stand first (length xs) (Some q) Open H (nodes True (Some q) (length H) v @ ?T))
      (stand first (length (xs @ ?m)) (Some q) Member ?H ?T)"
    by (rule member_run [OF assms(1-6) js(1) _ assms(7) a(3,4)]) simp
  moreover note stand_member_comma [OF js(2) H(2,5), of first ?T]
  moreover have "goes js (stand first (length (xs @ ?m @ '','')) (Some q) Open ?H ?T)
      (stand first (length (xs @ ?m @ '','') + length txs) (Some q) Member
        (?H[q := fill_members first ?b ms ?n] @ nodes_list first q ?b (map snd ms)) T)"
    using assms(8) js(3) a(2) H unfolding reads_members_def by metis
  moreover have "?H[q := fill_members first ?b ms ?n] = H[q := fill_members first ?b ms ?n] @ nodes first (Some q) (length H) v"
    using a(3) by (simp add: list_update_append)
  ultimately show "goes js (stand first (length xs) (Some q) Open H (nodes_list True q (length H) (map snd ((nm, v) # ms)) @ T))
      (stand first (length xs + length (?m @ '','' @ txs)) (Some q) Member
        (H[q := fill_members first (length H) ((nm, v) # ms) (H ! q)] @ nodes_list first q (length H) (map snd ((nm, v) # ms))) T)"
    by (auto intro: goes_trans simp: add.assoc)
qed

lemma object_reads:
  assumes "reads_members js ms tx" "length ms \<le> uint_max" "names_size ms \<le> uint_max"
  shows "reads js (JObject ms) ([CHR 0x7B] @ tx @ [CHR 0x7D])"
  unfolding reads_def
proof (intro allI impI)
  fix first xs ys tp H T tp' pl' D
  assume a: "js = xs @ ([CHR 0x7B] @ tx @ [CHR 0x7D]) @ ys" "lands first H tp tp' pl' D"
  let ?b = "length H" and ?vs = "map snd ms"
  let ?T = "nodes_list True ?b (Suc ?b) ?vs @ T"
  let ?n = "\<lambda>first. head first tp (length H) (JObject ms)"
  let ?m = "begun first json_object tp (?n True)"
  have js: "js = xs @ CHR 0x7B # (tx @ CHR 0x7D # ys)" "js = (xs @ [CHR 0x7B]) @ tx @ (CHR 0x7D # ys)"
    "js = (xs @ CHR 0x7B # tx) @ CHR 0x7D # ys" using a(1) by simp_all
  note n = object_room_begun(1-3) [OF assms(2,3), where first = first and p = tp and b = ?b]
    object_room_begun(4) [OF assms(2,3), where p = tp and b = ?b]
  note stand_open_object [OF js(1) n(4), where first = first and tp = tp and H = H and T = ?T]
  moreover have "goes js (stand first (length (xs @ [CHR 0x7B])) (Some ?b) Open (H @ [?m]) ?T)
      (stand first (length (xs @ [CHR 0x7B]) + length tx) (Some ?b) Member
         ((H @ [?m])[?b := fill_members first (Suc ?b) ms ?m] @ nodes_list first ?b (Suc ?b) ?vs) T)"
    using assms(1) js(2) n(1) unfolding reads_members_def
    by (metis (no_types, lifting) length_append_singleton lessI nth_append_length stops_punct(3))
  then have "goes js (stand first (length (xs @ [CHR 0x7B])) (Some ?b) Open (H @ [?m]) ?T)
      (stand first (length (xs @ [CHR 0x7B]) + length tx) (Some ?b) Member (H @ ?n first # nodes_list first ?b (Suc ?b) ?vs) T)"
    by (simp add: object_node)
  moreover note stand_close_object [OF js(3) _ a(2) n(2,3), where pl = Member and ns = "nodes_list first ?b (Suc ?b) ?vs" and T = T]
  ultimately show "goes js (stand first (length xs) tp Want H (nodes True tp (length H) (JObject ms) @ T))
      (stand first (length xs + length ([CHR 0x7B] @ tx @ [CHR 0x7D])) tp' pl' (D @ nodes first tp (length H) (JObject ms)) T)"
    by (auto intro: goes_trans simp: nodes.simps add.assoc)
qed

lemma object0_reads:
  assumes "blank w"
  shows "reads js (JObject []) ([CHR 0x7B] @ w @ [CHR 0x7D])"
  unfolding reads_def
proof (intro allI impI)
  fix first xs ys tp H T tp' pl' D
  assume a: "js = xs @ ([CHR 0x7B] @ w @ [CHR 0x7D]) @ ys" "lands first H tp tp' pl' D"
  have js: "js = xs @ CHR 0x7B # (w @ CHR 0x7D # ys)" "js = (xs @ [CHR 0x7B]) @ w @ (CHR 0x7D # ys)"
    "js = (xs @ CHR 0x7B # w) @ CHR 0x7D # ys" using a(1) by simp_all
  let ?n = "\<lambda>first. head first tp (length H) (JObject [])"
  have n: "begun first json_object tp (?n True) = ?n first" using object_node [of first "length H" "[]" tp] by simp
  have "length ([] :: (string \<times> jval) list) \<le> uint_max" "names_size [] \<le> uint_max" by simp_all
  note r = object_room_begun(1-3) [OF this, where first = first and p = tp and b = "length H"]
    object_room_begun(4) [OF this, where p = tp and b = "length H"]
  have "may_skip Open (Some (length H)) (H @ [?n first])" using r(3) by (simp add: may_skip_def)
  note stand_space [OF assms js(2) this, of first T]
  moreover note stand_open_object [OF js(1) r(4), where first = first and tp = tp and H = H and T = T]
  moreover note stand_close_object [OF js(3) _ a(2) r(2,3), where pl = Open and ns = "[]" and T = T]
  ultimately show "goes js (stand first (length xs) tp Want H (nodes True tp (length H) (JObject []) @ T))
      (stand first (length xs + length ([CHR 0x7B] @ w @ [CHR 0x7D])) tp' pl' (D @ nodes first tp (length H) (JObject [])) T)"
    by (auto intro: goes_trans simp: nodes_leaf n add.assoc)
qed

section \<open>Every text of the grammar is read\<close>

lemma grammar_reads:
  assumes "length js \<le> uint_max"
  shows "jtext v tx \<Longrightarrow> length tx \<le> length js \<Longrightarrow> reads js v tx"
    and "jelems vs txs \<Longrightarrow> length txs \<le> length js \<Longrightarrow> reads_elems js vs txs"
    and "jmembers ms mxs \<Longrightarrow> length mxs \<le> length js \<Longrightarrow> reads_members js ms mxs"
proof (induction rule: jtext_jelems_jmembers.inducts)
  case (array vs tx)
  then show ?case using text_sizes(2) [OF array(1)] assms by (intro array_reads) simp_all
next
  case (object ms tx)
  then show ?case using text_sizes(3) [OF object(1)] assms by (intro object_reads) simp_all
next
  case (member w n nx w1 w2 v tx w')
  then show ?case using member_reads [of js v tx n nx w w1 w2 w'] assms by (simp add: member_text_def)
next
  case (members w n nx w1 w2 v tx w' ms txs)
  then show ?case using members_reads [of js v tx n nx w w1 w2 w' ms txs] assms by (simp add: member_text_def)
qed (use assms in \<open>simp_all add: reads_null reads_true reads_false reads_number reads_string array0_reads object0_reads elem_reads elems_reads
      del: append_Cons append_Nil\<close>)

end
