(* ===== verification/Json_Contract.thy ===== *)
theory Json_Contract
  imports Json_Parse Fault
begin

text \<open>
  What \<open>json_parse_ex\<close> promises its callers. The sizes the first pass counts are bounded by
  the length of the text, so that an allocator that never refuses serves every request of the
  second pass; the result is a tree in which no member is missing; and \<open>faults_parse\<close> turns no
  text into a crash unless an allocation fails.
\<close>

section \<open>The sizes the first pass counts\<close>

text \<open>The bytes of an open string, with the NUL that will end it.\<close>

definition open_bytes :: "jst \<Rightarrow> nat" where
  "open_bytes s = (if flag_string (flags s) then string_length s + 1 else 0)"

definition room :: "nat \<Rightarrow> jst \<Rightarrow> bool" where
  "room K s \<longleftrightarrow> first_pass s \<and> open_bytes s \<le> K \<and>
     (\<forall>n \<in> set (heap s). jtype n \<noteq> json_none \<and> jlength n \<le> K \<and> jnames_size n + open_bytes s \<le> K)"

abbreviation rooms :: "nat \<Rightarrow> ctl \<Rightarrow> bool" where
  "rooms K \<equiv> exits (room K) (room K) (room K) (\<lambda>_. True)"

lemma room_mono: "room K s \<Longrightarrow> K \<le> L \<Longrightarrow> room L s"
  by (fastforce simp: room_def)

lemma rooms_mono: "rooms K c \<Longrightarrow> K \<le> L \<Longrightarrow> rooms L c"
  by (erule exits_mono) (auto intro: room_mono)

lemma all_upd:
  assumes "\<forall>n \<in> set xs. P n" "\<And>n. P n \<Longrightarrow> Q n" "\<And>n. P n \<Longrightarrow> Q (f n)"
  shows "\<forall>n \<in> set (xs[t := f (xs ! t)]). Q n"
proof (cases "t < length xs")
  case True
  with assms show ?thesis by (metis insertE nth_mem set_update_subset_insert subsetD)
qed (use assms in \<open>simp add: list_update_beyond\<close>)

lemma room_node:
  assumes "room K s" "\<And>n. jtype n \<noteq> json_none \<Longrightarrow> jlength n \<le> K \<Longrightarrow> jnames_size n + open_bytes s \<le> K \<Longrightarrow>
      jtype (f n) \<noteq> json_none \<and> jlength (f n) \<le> L \<and> jnames_size (f n) + open_bytes s' \<le> L"
    and "heap s' = heap (upd_node t f s)" "open_bytes s' \<le> open_bytes s" "first_pass s' = first_pass s" "K \<le> L"
  shows "room L s'"
proof -
  have "\<forall>n \<in> set ((heap s)[t := f (heap s ! t)]). jtype n \<noteq> json_none \<and> jlength n \<le> L \<and> jnames_size n + open_bytes s' \<le> L"
    by (rule all_upd [where P = "\<lambda>n. jtype n \<noteq> json_none \<and> jlength n \<le> K \<and> jnames_size n + open_bytes s \<le> K"])
       (use assms in \<open>auto simp: room_def\<close>)
  then show ?thesis using assms by (simp add: room_def upd_node_def)
qed

lemma room_open:
  assumes "room K s" "heap s' = heap s" "open_bytes s' \<le> open_bytes s + k" "first_pass s' = first_pass s" "L = K + k"
  shows "room L s'"
  using assms by (fastforce simp: room_def)

lemma open_bytes_simps [simp]:
  "open_bytes (advance k s) = open_bytes s" "open_bytes (upd_node t f s) = open_bytes s"
  "flag_string (g (flags s)) = flag_string (flags s) \<Longrightarrow> open_bytes (upd_flags g s) = open_bytes s"
  "open_bytes (count_line b s) = open_bytes s"
  by (simp_all add: open_bytes_def advance_def upd_node_def upd_flags_def count_line_def)

lemma room_simps [simp]:
  "room K (advance k s) = room K s"
  "flag_string (g (flags s)) = flag_string (flags s) \<Longrightarrow> room K (upd_flags g s) = room K s"
  "room K (count_line b s) = room K s"
  "room K (s\<lparr>num_digits := d\<rparr>) = room K s" "room K (s\<lparr>num_e := e\<rparr>) = room K s"
  "room K (s\<lparr>num_fraction := e\<rparr>) = room K s" "room K (s\<lparr>s_top := p\<rparr>) = room K s"
  "room K (s\<lparr>s_alloc := p\<rparr>) = room K s" "room K (s\<lparr>ptr := q\<rparr>) = room K s"
  "room K (s\<lparr>s_root := p\<rparr>) = room K s"
  by (simp_all add: room_def) (simp_all add: open_bytes_def)

lemma room_upd [simp]:
  assumes "\<And>n. jtype n \<noteq> json_none \<Longrightarrow> jtype (f n) \<noteq> json_none" "\<And>n. jlength (f n) = jlength n" "\<And>n. jnames_size (f n) = jnames_size n"
  shows "room K s \<Longrightarrow> room K (upd_node t f s)"
  by (erule room_node [where f = f and t = t]) (use assms in simp_all)

lemma utf8_bytes_length: "length (utf8_bytes u) \<le> 4"
  by (simp add: utf8_bytes_def)

lemma room_string_grows:
  assumes "room K s" "flag_string (flags s)" "heap s' = heap s" "string_length s' \<le> string_length s + 4" "first_pass s'"
  shows "room (K + 4) s'"
  by (rule room_open [OF assms(1,3), of 4]) (use assms in \<open>simp_all add: open_bytes_def room_def\<close>)

lemma rooms_adds:
  assumes "room K s" "flag_string (flags s)" "heap s' = heap s" "first_pass s'" "string_length s' = string_length s" "length cs \<le> 4"
  shows "rooms (K + 4) (string_adds cs s')"
  using assms by (simp add: string_adds_first room_string_grows)

lemma rooms_escape:
  assumes "room K s" "flag_string (flags s)" "heap s' = heap s" "first_pass s'" "string_length s' = string_length s"
  shows "rooms (K + 4) (string_escape js b s')"
proof -
  have adds: "rooms (K + 4) (string_adds cs x)"
    if "heap x = heap s" "first_pass x" "string_length x = string_length s" "length cs \<le> 4" for cs x
    by (rule rooms_adds [OF assms(1,2)]) (use that in simp_all)
  have "rooms (K + 4) (string_unicode js s')"
    using adds utf8_bytes_length assms(3-5)
    by (simp add: string_unicode_def Let_def del: read_hex.simps match_chars.simps split: sum.split option.split)
  moreover have "rooms (K + 4) (string_add c s')" for c
    using adds [OF assms(3-5), of "[c]"] by (simp add: string_add_adds del: string_adds.simps)
  ultimately show ?thesis by (simp add: string_escape_def)
qed

lemma rooms_close:
  assumes "room K s" "flag_string (flags s)"
  shows "rooms (K + 4) (string_close s)"
proof -
  have o: "open_bytes s = string_length s + 1" using assms(2) by (simp add: open_bytes_def)
  let ?w = "upd_flags (\<lambda>f. f\<lparr>flag_string := False\<rparr>) s"
  have "room (K + 4) (upd_flags (\<lambda>f. f\<lparr>flag_next := True\<rparr>) (upd_node t (\<lambda>n. n\<lparr>jlength := string_length s\<rparr>) ?w))" for t
    by (rule room_node [OF assms(1), where f = "\<lambda>n. n\<lparr>jlength := string_length s\<rparr>" and t = t])
       (use o assms(1) in \<open>auto simp: upd_node_def open_bytes_def room_def\<close>)
  moreover have "room (K + 4) (upd_node t (\<lambda>n. n\<lparr>jnames_size := jnames_size n + string_length s + 1\<rparr>)
        (upd_flags (\<lambda>f. f\<lparr>flag_seek_value := True, flag_need_colon := True\<rparr>) ?w))" for t
    by (rule room_node [OF assms(1), where f = "\<lambda>n. n\<lparr>jnames_size := jnames_size n + string_length s + 1\<rparr>" and t = t])
       (use o assms(1) in \<open>auto simp: upd_node_def open_bytes_def room_def\<close>)
  moreover have "room (K + 4) ?w"
    by (rule room_open [OF assms(1), of _ 4]) (simp_all add: open_bytes_def)
  ultimately show ?thesis
    using assms(1) by (simp add: string_close_def Let_def room_def [of K] split: option.split json_type.split)
qed

lemma rooms_string:
  assumes "room K s"
  shows "rooms (K + 4) (section_string js b s)"
proof (cases "flag_string (flags s)")
  case True
  have "first_pass s" using assms by (simp add: room_def)
  with rooms_escape [OF assms True] room_string_grows [OF assms True] rooms_close [OF assms True] True
  show ?thesis
    by (simp add: section_string_def string_add_def)
qed (use assms in \<open>simp add: section_string_def room_mono\<close>)

lemma rooms_comments: "room K s \<Longrightarrow> rooms K (section_comments cfg js b s)"
  by (simp add: section_comments_def comment_open_def Let_def split: option.split)

lemma rooms_done: "room K s \<Longrightarrow> rooms K (section_done b s)"
  by (simp add: section_done_def)

lemma rooms_new_value:
  assumes "room K s" "ty \<noteq> json_none"
  shows "rooms K (new_value cfg ty s)"
proof -
  obtain ok s1 where a: "json_alloc cfg (sizeof_value + value_extra cfg) s = (ok, s1)" by fastforce
  from json_alloc_state [OF this] obtain u m where s1: "s1 = s\<lparr>used_memory := u, s_mem := m\<rparr>" by blast
  have first: "first_pass s" using assms(1) by (simp add: room_def)
  have x: "room K (s1\<lparr>heap := heap s1 @ [json_calloc ty (s_top s1)]\<rparr>)"
    using assms unfolding s1 by (auto simp: room_def open_bytes_def json_calloc_def)
  show ?thesis
    using first a x by (auto simp: new_value_def Let_def split: option.split)
qed

lemma rooms_then:
  assumes "rooms K c" "\<And>s. room K s \<Longrightarrow> rooms L (k s)" "K \<le> L"
  shows "rooms L (then_section c k)"
  using assms by (cases c) (auto intro: room_mono)

lemma rooms_tail:
  assumes "room K s"
  shows "rooms (Suc K) (section_tail s)"
proof -
  have next_room: "rooms (Suc K) (section_next s)" if "room K s" for s
  proof -
    have "room (Suc K) (upd_node p (\<lambda>n. n\<lparr>jlength := jlength n + 1\<rparr>) x)" if "room K x" for p x
      by (rule room_node [OF that, where f = "\<lambda>n. n\<lparr>jlength := jlength n + 1\<rparr>" and t = p]) simp_all
    moreover have "first_pass s" using that by (simp add: room_def)
    ultimately show ?thesis
      using that room_mono [OF that, of "Suc K"] by (simp add: section_next_def attach_def Let_def split: option.split)
  qed
  have "room K (advance (- 1) (upd_flags (\<lambda>f. f\<lparr>flag_reproc := False\<rparr>) s))" using assms by simp
  with assms next_room show ?thesis by (simp add: section_tail_def section_reproc_def)
qed

lemma rooms_number:
  assumes "room K s"
  shows "rooms K (section_number t b s)"
proof -
  have e: "rooms K (number_end t s)" if "room K s" for s
    using that by (simp add: number_end_def Let_def)
  show ?thesis
    using assms e
    by (simp add: section_number_def number_digit_def number_exponent_end_def number_mantissa_end_def to_double_def Let_def)
qed

lemma rooms_inside:
  assumes "room K s"
  shows "rooms (Suc K) (section_inside b s)"
proof -
  have num: "rooms (Suc K) (section_number t b s)" for t
    by (rule rooms_mono [OF rooms_number [OF assms]]) simp
  have "room (Suc K) (upd_flags (\<lambda>f. f\<lparr>flag_string := True\<rparr>) (s\<lparr>string_length := 0\<rparr>))"
    by (rule room_open [OF assms, of _ 1]) (simp_all add: open_bytes_def)
  moreover have "room (Suc K) s" by (rule room_mono [OF assms]) simp
  ultimately show ?thesis
    using num by (simp add: section_inside_def section_object_def split: option.split json_type.split)
qed

lemma rooms_seek:
  assumes "room K s"
  shows "rooms (Suc K) (section_seek cfg js b s)"
proof -
  let ?s = "upd_flags (\<lambda>f. f\<lparr>flag_seek_value := False\<rparr>) s"
  have s: "room K ?s" using assms by simp
  have up: "room (Suc K) x" if "room K x" for x using that by (rule room_mono) simp
  note new = rooms_new_value [OF s]
  have lit: "rooms K (seek_literal cfg js rest ty ?s)" if "ty \<noteq> json_none" for rest ty
    using s rooms_new_value that by (simp add: seek_literal_def split: option.split)
  have str: "room (Suc K) (upd_flags (\<lambda>f. f\<lparr>flag_string := True\<rparr>) (x\<lparr>string_length := 0\<rparr>))" if "room K x" for x
    by (rule room_open [OF that, of _ 1]) (simp_all add: open_bytes_def)
  have num: "rooms (Suc K) (seek_number cfg js b ?s)"
    unfolding seek_number_def
    by (rule rooms_then [OF new]) (simp_all add: Let_def up)
  have bool: "rooms (Suc K) (then_section (then_section (seek_literal cfg js ''rue'' json_boolean ?s) set_boolean) mark_next)"
    by (rule rooms_then [of K]; (rule rooms_then [of K])?; simp add: lit set_boolean_def mark_next_def up split: option.split)
  have mark: "rooms (Suc K) (then_section (seek_literal cfg js rest ty ?s) mark_next)" if "ty \<noteq> json_none" for rest ty
    by (rule rooms_then [OF lit [OF that]]) (simp_all add: mark_next_def up)
  have "rooms (Suc K) (then_section (new_value cfg json_object ?s) Continue)"
    "rooms (Suc K) (then_section (new_value cfg json_array ?s) (\<lambda>s. Continue (upd_flags (\<lambda>f. f\<lparr>flag_seek_value := True\<rparr>) s)))"
    "rooms (Suc K) (then_section (new_value cfg json_string ?s)
       (\<lambda>s. Continue (upd_flags (\<lambda>f. f\<lparr>flag_string := True\<rparr>) (s\<lparr>string_length := 0\<rparr>))))"
    by (rule rooms_then [OF new]; simp add: up str)+
  then have "rooms (Suc K) (seek_start cfg js b ?s)"
    using bool mark num by (simp add: seek_start_def)
  then show ?thesis using up [OF assms(1)] by (simp add: section_seek_def split: option.split)
qed

lemma rooms_body:
  assumes "room K s"
  shows "rooms (K + 6) (json_body cfg js s)"
proof (cases "rd js (ptr s)")
  case (Some b)
  have vals: "rooms (K + 5) (if flag_seek_value (flags x) then section_seek cfg js b x else section_inside b x)"
    if "room (K + 4) x" for x
    using rooms_mono [OF rooms_seek [OF that, of cfg js b], of "K + 5"] rooms_mono [OF rooms_inside [OF that, of b], of "K + 5"] by simp
  have tail: "rooms (K + 6) (section_tail x)" if "room (K + 5) x" for x
    by (rule rooms_mono [OF rooms_tail [OF that]]) simp
  show ?thesis
    unfolding json_body_tail Some option.case
    by (intro rooms_then [OF rooms_string [OF assms]] rooms_then [OF rooms_comments] rooms_then [OF rooms_done] rooms_then [OF vals])
       (simp add: tail)+
qed (simp add: json_body_def)

lemma rooms_loop:
  "room K s \<Longrightarrow> rooms (K + 6 * fuel) (json_loop cfg js fuel s)"
proof (induction fuel arbitrary: K s)
  case (Suc fuel)
  note body = rooms_body [OF Suc.prems, of cfg js]
  have step: "rooms (K + 6 * Suc fuel) (json_loop cfg js fuel (advance 1 x))" if "room (K + 6) x" for x
    by (rule rooms_mono [OF Suc.IH [of "K + 6"]]) (use that in simp_all)
  show ?case
    using body step by (cases "json_body cfg js s") (auto intro: room_mono)
qed simp

lemma pass1_room:
  assumes "json_loop cfg js (json_fuel js) (pass1_init m) = Break sf"
  shows "\<forall>n \<in> set (heap sf). jtype n \<noteq> json_none \<and> jlength n \<le> 24 * length js + 48 \<and> jnames_size n \<le> 24 * length js + 48"
proof -
  have "room 0 (pass1_init m)" by (simp add: room_def open_bytes_def pass1_init_def flags_seek_def)
  from rooms_loop [OF this, of "json_fuel js" cfg js] assms show ?thesis by (auto simp: room_def json_fuel_def)
qed

section \<open>An allocator that never refuses\<close>

definition plenty :: "jst \<Rightarrow> bool" where
  "plenty s \<longleftrightarrow> used_memory s = 0 \<and> False \<notin> set (s_mem s)"

abbreviation serves :: "ctl \<Rightarrow> bool" where
  "serves \<equiv> exits plenty plenty plenty (\<lambda>e. e \<noteq> Memory_allocation_failure)"

text \<open>Requests that fit into the address space.\<close>

definition small :: "json_node \<Rightarrow> bool" where
  "small n \<longleftrightarrow> jlength n \<le> 2 ^ 48 \<and> jnames_size n \<le> 2 ^ 48"

definition modest :: "json_settings \<Rightarrow> bool" where
  "modest cfg \<longleftrightarrow> max_memory cfg = 0 \<and> value_extra cfg \<le> 2 ^ 48"

definition affordable :: "jst \<Rightarrow> bool" where
  "affordable s \<longleftrightarrow> first_pass s \<or> (\<forall>v. s_alloc s = Some v \<longrightarrow> small (heap s ! v))"

lemma plenty_simps [simp]:
  "plenty (advance k s) = plenty s" "plenty (upd_node t f s) = plenty s" "plenty (upd_flags g s) = plenty s"
  "plenty (count_line b s) = plenty s" "plenty (s\<lparr>string_length := n\<rparr>) = plenty s" "plenty (s\<lparr>ptr := q\<rparr>) = plenty s"
  "plenty (s\<lparr>num_digits := d\<rparr>) = plenty s" "plenty (s\<lparr>num_e := e\<rparr>) = plenty s" "plenty (s\<lparr>num_fraction := e\<rparr>) = plenty s"
  "plenty (s\<lparr>s_top := p\<rparr>) = plenty s" "plenty (s\<lparr>s_alloc := p\<rparr>) = plenty s" "plenty (s\<lparr>s_root := p\<rparr>) = plenty s"
  "plenty (s\<lparr>heap := h\<rparr>) = plenty s"
  by (simp_all add: plenty_def upd_defs count_line_def)

lemma json_alloc_plenty:
  assumes "plenty s" "modest cfg" "n \<le> ulong_max"
  shows "json_alloc cfg n s = (True, s\<lparr>s_mem := tl (s_mem s)\<rparr>)" "plenty (s\<lparr>s_mem := tl (s_mem s)\<rparr>)"
proof -
  have u: "used_memory s = 0" "max_memory cfg = 0" using assms(1,2) by (simp_all add: plenty_def modest_def)
  have m: "alloc (s_mem s) = (True, tl (s_mem s))" using assms(1) by (cases "s_mem s") (simp_all add: plenty_def)
  from u m assms(3) show "json_alloc cfg n s = (True, s\<lparr>s_mem := tl (s_mem s)\<rparr>)"
    by (simp add: json_alloc_def)
  show "plenty (s\<lparr>s_mem := tl (s_mem s)\<rparr>)"
    using assms(1) by (cases "s_mem s") (simp_all add: plenty_def)
qed

lemma serves_new_value:
  assumes "plenty s" "modest cfg" "affordable s"
  shows "serves (new_value cfg ty s)"
proof (cases "first_pass s")
  case True
  have "sizeof_value + value_extra cfg \<le> ulong_max"
    using assms(2) by (simp add: modest_def sizeof_value_def ulong_max_def)
  note a = json_alloc_plenty [OF assms(1,2) this]
  show ?thesis using True a(2) by (simp add: new_value_def Let_def a(1) split: option.split)
next
  case False
  have al: "serves (case json_alloc cfg n x of (ok, s2) \<Rightarrow> if ok then Fall (upd_node v f s2) else Failed Memory_allocation_failure s2)"
    if "n \<le> ulong_max" "plenty x" for n x v f
    using json_alloc_plenty [OF that(2) assms(2) that(1)] by simp
  show ?thesis
  proof (cases "s_alloc s")
    case (Some v)
    have sm: "small (heap s ! v)" using assms(3) False Some by (simp add: affordable_def)
    then have "jlength (heap s ! v) * sizeof_pointer \<le> ulong_max"
      "sizeof_entry * jlength (heap s ! v) + jnames_size (heap s ! v) \<le> ulong_max" "jlength (heap s ! v) + 1 \<le> ulong_max"
      by (simp_all add: small_def sizeof_pointer_def sizeof_entry_def ulong_max_def)
    note a = this [THEN al]
    let ?x = "s\<lparr>s_top := Some v, s_alloc := jnext_alloc (heap s ! v), s_root := (if s_root s = None then Some v else s_root s)\<rparr>"
    have x: "plenty ?x" using assms(1) by simp
    show ?thesis
      unfolding new_value_def Let_def
      by (cases "jtype (heap s ! v)") (simp only: False Some if_False if_True not_False_eq_True option.case json_type.case a [OF x] x exits.simps split: if_split; simp)+
  qed (use False in \<open>simp add: new_value_def\<close>)
qed

lemma serves_then:
  assumes "exits F C B E c" "\<And>s. F s \<Longrightarrow> exits G C B E (k s)"
  shows "exits G C B E (then_section c k)"
  using assms by (cases c) auto

text \<open>In a string the parser requests nothing and does not start to seek a value.\<close>

abbreviation serves_on :: "jst \<Rightarrow> ctl \<Rightarrow> bool" where
  "serves_on s \<equiv> exits (\<lambda>x. plenty x \<and> flag_seek_value (flags x) = flag_seek_value (flags s)) plenty plenty
     (\<lambda>e. e \<noteq> Memory_allocation_failure)"

lemma serves_write: "plenty s \<Longrightarrow> serves_on s (string_write c s)"
  by (simp add: string_write_def Let_def split: option.split)

lemma serves_add: "plenty s \<Longrightarrow> serves_on s (string_add c s)"
  unfolding string_add_def by (rule serves_then [of "\<lambda>x. plenty x \<and> flag_seek_value (flags x) = flag_seek_value (flags s)"])
    (use serves_write in simp_all)

lemma serves_adds: "plenty s \<Longrightarrow> serves (string_adds cs s)"
proof (induction cs arbitrary: s)
  case (Cons c cs)
  show ?case unfolding string_adds.simps
    by (rule serves_then [OF serves_add [OF Cons.prems]]) (use Cons.IH in simp)
qed simp

lemma read_hex_error: "read_hex k js p \<noteq> Inl Memory_allocation_failure"
  by (induction k js p rule: read_hex.induct) (auto split: option.splits if_splits sum.splits)

lemma match_chars_error: "err \<noteq> Memory_allocation_failure \<Longrightarrow> match_chars err js p cs \<noteq> Some Memory_allocation_failure"
  by (induction err js p cs rule: match_chars.induct) (auto split: option.splits if_splits)

lemma serves_escape:
  assumes "plenty s"
  shows "serves (string_escape js b s)"
proof -
  have "serves (string_unicode js s)"
    using assms serves_adds read_hex_error [of 4 js "ptr s"] read_hex_error [of 4 js "ptr s + 4 + 2"]
      match_chars_error [of Invalid_character_value js "ptr s + 4" "CHR 0x5C # ''u''"]
    by (auto simp: string_unicode_def Let_def simp del: read_hex.simps match_chars.simps split: sum.splits option.splits)
  moreover have "serves (string_add c s)" for c using serves_add [OF assms, of c] by (rule exits_mono) simp_all
  ultimately show ?thesis by (simp add: string_escape_def)
qed

lemma serves_string:
  assumes "plenty s"
  shows "serves_on s (section_string js b s)"
proof -
  have close: "serves_on s (string_close s)"
    unfolding string_close_def
    by (rule serves_then [of "\<lambda>x. plenty x \<and> flag_seek_value (flags x) = flag_seek_value (flags s)"])
       (use serves_write [OF assms] assms in \<open>auto simp: Let_def split: option.split json_type.split\<close>)
  have "serves_on s (then_section (string_escape js b (upd_flags (\<lambda>f. f\<lparr>flag_escaped := False\<rparr>) s)) Continue)"
    by (rule serves_then [OF serves_escape]) (use assms in simp_all)
  moreover have "serves_on s (then_section (string_add b s) Continue)"
    by (rule serves_then [OF serves_add [OF assms]]) simp
  ultimately show ?thesis
    using assms close by (simp add: section_string_def del: exits_then)
qed

lemma serves_comments: "plenty s \<Longrightarrow> exits (\<lambda>x. x = s) plenty plenty (\<lambda>e. e \<noteq> Memory_allocation_failure) (section_comments cfg js b s)"
  by (simp add: section_comments_def comment_open_def Let_def split: option.split)

lemma serves_done: "plenty s \<Longrightarrow> exits (\<lambda>x. x = s) plenty plenty (\<lambda>e. e \<noteq> Memory_allocation_failure) (section_done b s)"
  by (simp add: section_done_def)

lemma serves_inside:
  assumes "plenty s"
  shows "serves (section_inside b s)"
proof -
  have e: "serves (number_end t s)" if "plenty s" for s t
    using that by (simp add: number_end_def Let_def)
  have "serves (section_number t b s)" for t
    using assms e by (simp add: section_number_def number_digit_def number_exponent_end_def number_mantissa_end_def Let_def)
  then show ?thesis
    using assms by (simp add: section_inside_def section_object_def split: option.split json_type.split)
qed

lemma serves_tail:
  assumes "plenty s"
  shows "serves (section_tail s)"
proof -
  have att: "serves (attach t p x)" if "plenty x" for t p x
    using that by (simp add: attach_def Let_def split: json_type.split)
  have "serves (then_section (attach t p x) (\<lambda>s. let s3 = upd_node p (\<lambda>n. n\<lparr>jlength := jlength n + 1\<rparr>) s in
      if uint_max < jlength (heap s3 ! p) then Failed Too_long s3 else Continue (s3\<lparr>s_top := Some p\<rparr>)))" if "plenty x" for t p x
    by (rule serves_then [OF att [OF that]]) (simp add: Let_def)
  then have "serves (section_next x)" if "plenty x" for x
    using that by (simp add: section_next_def Let_def del: exits_then split: option.split)
  with assms show ?thesis by (simp add: section_tail_def section_reproc_def)
qed

lemma serves_seek:
  assumes "plenty s" "modest cfg" "affordable s"
  shows "serves (section_seek cfg js b s)"
proof -
  let ?s = "upd_flags (\<lambda>f. f\<lparr>flag_seek_value := False\<rparr>) s"
  have s: "plenty (advance k ?s)" "affordable (advance k ?s)" for k using assms by (simp_all add: affordable_def)
  have new: "serves (new_value cfg ty (advance k ?s))" for ty k by (rule serves_new_value [OF s(1) assms(2) s(2)])
  have lit: "serves (seek_literal cfg js rest ty ?s)" for rest ty
    using new match_chars_error [of Unknown_value js "ptr s" rest] by (auto simp: seek_literal_def split: option.splits)
  have num: "serves (seek_number cfg js b ?s)"
    unfolding seek_number_def by (rule serves_then [OF new [of _ 0, simplified]]) (simp add: Let_def)
  have bool: "serves (then_section (then_section (seek_literal cfg js ''rue'' json_boolean ?s) set_boolean) mark_next)"
    by (rule serves_then [of plenty]; (rule serves_then [OF lit])?; simp add: set_boolean_def mark_next_def split: option.split)
  have mark: "serves (then_section (seek_literal cfg js rest ty ?s) mark_next)" for rest ty
    by (rule serves_then [OF lit]) (simp add: mark_next_def)
  have "serves (then_section (new_value cfg json_object ?s) Continue)"
    "serves (then_section (new_value cfg json_array ?s) (\<lambda>s. Continue (upd_flags (\<lambda>f. f\<lparr>flag_seek_value := True\<rparr>) s)))"
    "serves (then_section (new_value cfg json_string ?s)
       (\<lambda>s. Continue (upd_flags (\<lambda>f. f\<lparr>flag_string := True\<rparr>) (s\<lparr>string_length := 0\<rparr>))))"
    by (rule serves_then [OF new [of _ 0, simplified]]; simp)+
  then have "serves (seek_start cfg js b ?s)"
    using bool mark num assms(1) by (simp add: seek_start_def del: exits_then)
  then show ?thesis using assms(1) by (simp add: section_seek_def split: option.split)
qed

lemma serves_body:
  assumes "plenty s" "modest cfg" "affordable s" "flag_string (flags s) \<Longrightarrow> \<not> flag_seek_value (flags s)"
  shows "serves (json_body cfg js s)"
proof (cases "rd js (ptr s)")
  case (Some b)
  have vals: "serves (then_section (if flag_seek_value (flags x) then section_seek cfg js b x else section_inside b x) section_tail)"
    if "plenty x" "flag_seek_value (flags x) \<Longrightarrow> affordable x" for x
    by (rule serves_then [of plenty]) (use serves_seek [OF that(1) assms(2) that(2)] serves_inside [OF that(1)] serves_tail in simp_all)
  have rest: "serves (section_rest cfg js b x)" if "plenty x" "flag_seek_value (flags x) \<Longrightarrow> affordable x" for x
    unfolding section_rest_def
    by (rule serves_then [OF serves_comments [OF that(1)]], simp only:, rule serves_then [OF serves_done [OF that(1)]], simp only:, rule vals [OF that])
  show ?thesis
  proof (cases "flag_string (flags s)")
    case True
    show ?thesis unfolding json_body_rest [OF Some]
      by (rule serves_then [OF serves_string [OF assms(1)]]) (rule rest, use assms(4) True in simp_all)
  next
    case False
    then show ?thesis using rest [OF assms(1,3)] by (simp add: json_body_rest [OF Some] section_string_def)
  qed
qed (simp add: json_body_def)

section \<open>Both passes with enough memory\<close>

interpretation served1: loop_body cfg js "\<lambda>s. inv1 cfg js s \<and> plenty s \<and> modest cfg" "rank1 js" plenty
  "\<lambda>e. clean e \<and> e \<noteq> Memory_allocation_failure" for cfg js
proof unfold_locales
  fix s assume s: "inv1 cfg js s \<and> plenty s \<and> modest cfg"
  then have "flag_string (flags s) \<Longrightarrow> \<not> flag_seek_value (flags s)"
    by (auto simp: inv1_def top_fits_def Let_def split: option.splits if_splits)
  moreover have "affordable s" using s by (simp add: affordable_def inv1_def)
  ultimately have "serves (json_body cfg js s)" using s serves_body by blast
  with s have "exits (\<lambda>x. progress cfg js s x \<and> plenty x) (\<lambda>x. progress cfg js s x \<and> plenty x)
      (\<lambda>x. (x = s \<and> flag_done (flags s)) \<and> plenty x) (\<lambda>e. clean e \<and> e \<noteq> Memory_allocation_failure) (json_body cfg js s)"
    by (intro exits_conj json_body_first) simp_all
  then show "exits (\<lambda>s'. (inv1 cfg js (advance 1 s') \<and> plenty (advance 1 s') \<and> modest cfg) \<and> rank1 js (advance 1 s') < rank1 js s)
      (\<lambda>s'. (inv1 cfg js (advance 1 s') \<and> plenty (advance 1 s') \<and> modest cfg) \<and> rank1 js (advance 1 s') < rank1 js s)
      plenty (\<lambda>e. clean e \<and> e \<noteq> Memory_allocation_failure) (json_body cfg js s)"
    by (rule exits_mono) (use s in \<open>auto simp: progress_def\<close>)
qed

lemma related_affordable:
  assumes "inv1 cfg js s" "related cfg js H s s2" "\<forall>n \<in> set H. small n"
  shows "affordable s2" "flag_string (flags s2) \<Longrightarrow> \<not> flag_seek_value (flags s2)"
proof -
  have *: "affordable s2" if "sim H x s2" for x
    using that assms(3) by (auto simp: sim_def sim_heap_def affordable_def split: if_splits)
  with assms(2) show "affordable s2" by (auto simp: related_def)
  have "flag_string (flags s) \<Longrightarrow> \<not> flag_seek_value (flags s)"
    using assms(1) by (auto simp: inv1_def top_fits_def Let_def split: option.splits if_splits)
  moreover have "\<not> flag_string (flags (fin s))" if "\<not> flag_string (flags s)"
    using that by (simp add: fin_def Let_def split: option.split)
  ultimately show "flag_string (flags s2) \<Longrightarrow> \<not> flag_seek_value (flags s2)"
    using assms(2) by (auto simp: related_def sim_def in_step_def inside_def)
qed

interpretation served2: second_pass cfg js H "\<lambda>s. plenty s \<and> modest cfg \<and> (\<forall>n \<in> set H. small n)"
  "\<lambda>e. e \<noteq> Memory_allocation_failure" for cfg js H
proof unfold_locales
  fix s s2 assume a: "inv1 cfg js s" "related cfg js H s s2" "plenty s2 \<and> modest cfg \<and> (\<forall>n \<in> set H. small n)"
  then have "serves (json_body cfg js s2)"
    using related_affordable [OF a(1,2)] by (intro serves_body) auto
  then show "exits (\<lambda>z. plenty (advance 1 z) \<and> modest cfg \<and> (\<forall>n \<in> set H. small n))
      (\<lambda>z. plenty (advance 1 z) \<and> modest cfg \<and> (\<forall>n \<in> set H. small n)) (\<lambda>s. plenty s \<and> modest cfg \<and> (\<forall>n \<in> set H. small n))
      (\<lambda>e. e \<noteq> Memory_allocation_failure) (json_body cfg js s2)"
    by (rule exits_mono) (use a in auto)
qed

lemma skip_bom_length: "length (skip_bom text) \<le> length text"
  by (simp add: skip_bom_def)

section \<open>What the parser promises\<close>

text \<open>A tree without a missing member.\<close>

fun whole :: "jval \<Rightarrow> bool" where
  "whole (JObject ps) \<longleftrightarrow> (\<forall>p \<in> set ps. whole (snd p))"
| "whole (JArray vs) \<longleftrightarrow> (\<forall>v \<in> set vs. whole v)"
| "whole JBad \<longleftrightarrow> False"
| "whole _ \<longleftrightarrow> True"

lemma sim_whole:
  assumes "sim H s s2" "length (heap s) = length H" "\<forall>n \<in> set H. jtype n \<noteq> json_none" "i < length H"
  shows "whole (json_view (heap s2) i)"
  using assms(4)
proof (induction "length H - i" arbitrary: i rule: less_induct)
  case less
  let ?n = "heap s2 ! i"
  have len: "length (heap s2) = length H" and ty: "jtype ?n = jtype (H ! i)" and n: "node_sim H s i ?n"
    using assms(1,2) less.prems by (auto simp: sim_def sim_heap_def same_shape_def)
  have IH: "whole (json_view (heap s2) c)" if "i < c" "c < length H" for c
    by (rule less.hyps) (use that less.prems in auto)
  have "jtype (H ! i) \<noteq> json_none" using assms(3) less.prems by simp
  then show ?case
  proof (cases "jtype (H ! i)")
    case json_array
    then have a: "array_sim H s i ?n" using n by (simp add: node_sim_def)
    have "whole (case v of None \<Rightarrow> JBad | Some j \<Rightarrow> if i < j then json_view (heap s2) j else JBad)"
      if "v \<in> set (take (jlength ?n) (jvalues ?n))" for v
    proof -
      from that obtain k where "k < jlength ?n" "v = jvalues ?n ! k" by (auto simp: in_set_conv_nth)
      with a IH show ?thesis by (auto simp: array_sim_def)
    qed
    then show ?thesis using json_array ty less.prems len by (simp add: json_view.simps [of "heap s2" i] Let_def)
  next
    case json_object
    then have a: "object_sim H s i ?n" using n by (simp add: node_sim_def)
    have "whole (case evalue e of None \<Rightarrow> JBad | Some j \<Rightarrow> if i < j then json_view (heap s2) j else JBad)"
      if "e \<in> set (take (jlength ?n) (jentries ?n))" for e
    proof -
      from that obtain k where "k < jlength ?n" "e = jentries ?n ! k" by (auto simp: in_set_conv_nth)
      with a IH show ?thesis by (auto simp: object_sim_def)
    qed
    then show ?thesis using json_object ty less.prems len by (simp add: json_view.simps [of "heap s2" i] Let_def)
  qed (use ty less.prems len in \<open>simp_all add: json_view.simps [of "heap s2" i] Let_def\<close>)
qed

lemma json_value_free_error:
  "json_value_free_ex h v = Inl e \<Longrightarrow> e = Use_after_free \<or> e = Null_dereference"
proof (induction h v rule: json_value_free_ex.induct)
  case (1 h v)
  then show ?case
    by (subst (asm) (3) json_value_free_ex.simps) (auto simp: Let_def split: option.splits if_splits)
qed

text \<open>The outcomes of the parser: the pass that ends the work, and how.\<close>

lemma json_parse_cases:
  obtains (rejected) e where "fst (json_parse_ex cfg text m) = Inl e" "clean e"
  | (memory) e s1 z where "fst (json_parse_ex cfg text m) = Inl e" "clean e \<or> e = Use_after_free \<or> e = Null_dereference"
      "json_loop cfg (skip_bom text) (json_fuel (skip_bom text)) (pass1_init m) = Break s1"
      "json_loop cfg (skip_bom text) (json_fuel (skip_bom text)) (pass2_init s1) = Failed Memory_allocation_failure z"
  | (parsed) s1 s2 where "json_parse_ex cfg text m = (Inr (heap s2, s_root s2), s_mem s2)"
      "json_loop cfg (skip_bom text) (json_fuel (skip_bom text)) (pass1_init m) = Break s1"
      "json_loop cfg (skip_bom text) (json_fuel (skip_bom text)) (pass2_init s1) = Break s2"
      "sim (heap s1) s1 s2" "inv1 cfg (skip_bom text) s1" "flag_done (flags s1)"
proof -
  let ?js = "skip_bom text"
  note p1 = pass1_ends [of cfg ?js m]
  show ?thesis
  proof (cases "json_loop cfg ?js (json_fuel ?js) (pass1_init m)")
    case (Break s1)
    from any.ends [OF Break TrueI refl] show ?thesis
    proof (elim disjE exE conjE)
      fix z assume "json_loop cfg ?js (json_fuel ?js) (pass2_init s1) = Break z" "sim (heap s1) s1 z"
      with Break p1 parsed [of z s1] show ?thesis by (simp add: json_parse_ex_def Let_def)
    next
      fix z assume z: "json_loop cfg ?js (json_fuel ?js) (pass2_init s1) = Failed Memory_allocation_failure z"
      have "fst (json_parse_ex cfg text m) = Inl (pass2_failed Memory_allocation_failure z)"
        using Break z by (simp add: json_parse_ex_def Let_def)
      moreover have "clean (pass2_failed Memory_allocation_failure z) \<or> pass2_failed Memory_allocation_failure z = Use_after_free
          \<or> pass2_failed Memory_allocation_failure z = Null_dereference"
        using json_value_free_error by (auto simp: pass2_failed_def split: sum.split)
      ultimately show ?thesis using memory Break z by blast
    qed
  next
    case (Failed e z)
    then show ?thesis using p1 rejected [of e] by (simp add: json_parse_ex_def Let_def)
  qed (use p1 in simp_all)
qed

lemma json_parse_served:
  assumes "False \<notin> set m" "modest cfg" "length text \<le> 2 ^ 40"
  shows "case json_parse_ex cfg text m of
    (Inl e, m') \<Rightarrow> clean e \<and> e \<noteq> Memory_allocation_failure | (Inr _, m') \<Rightarrow> False \<notin> set m'"
proof -
  let ?js = "skip_bom text"
  have init: "inv1 cfg ?js (pass1_init m) \<and> plenty (pass1_init m) \<and> modest cfg"
    using assms pass1_inv by (simp add: plenty_def pass1_init_def)
  have rank: "rank1 ?js (pass1_init m) < json_fuel ?js"
    using mode_rank_le [of "pass1_init m"] by (simp add: rank1_def json_fuel_def pass1_init_def)
  note p1 = served1.loop_ends [OF init rank]
  show ?thesis
  proof (cases "json_loop cfg ?js (json_fuel ?js) (pass1_init m)")
    case (Break s1)
    then have "plenty s1" using p1 by simp
    then have "plenty (pass2_init s1)" by (simp add: plenty_def pass2_init_def)
    moreover have "\<forall>n \<in> set (heap s1). small n"
      using pass1_room [OF Break] skip_bom_length [of "text"] assms(3) by (fastforce simp: small_def)
    ultimately obtain z where "json_loop cfg ?js (json_fuel ?js) (pass2_init s1) = Break z" "plenty z"
      using served2.ends [OF Break _ refl] assms(2) by blast
    then show ?thesis using Break by (simp add: json_parse_ex_def Let_def plenty_def)
  qed (use p1 in \<open>simp_all add: json_parse_ex_def Let_def\<close>)
qed






lemma sim_same:
  assumes "sim (heap s1) s1 s2"
  shows "ptr s2 = ptr s1 \<and> length (heap s2) = length (heap s1) \<and> (\<forall>i < length (heap s1).
      jtype (heap s2 ! i) = jtype (heap s1 ! i) \<and> jparent (heap s2 ! i) = jparent (heap s1 ! i) \<and>
      (container (jtype (heap s1 ! i)) \<longrightarrow> jlength (heap s2 ! i) = jlength (heap s1 ! i)))"
proof (intro conjI allI impI)
  show "ptr s2 = ptr s1" using assms by (simp add: sim_def in_step_def)
  have h: "sim_heap (heap s1) s1 (heap s2)" using assms by (simp add: sim_def)
  then show "length (heap s2) = length (heap s1)" by (simp add: sim_heap_def)
  fix i assume i: "i < length (heap s1)"
  from h i have n: "same_shape (heap s1 ! i) (heap s2 ! i)" "node_sim (heap s1) s1 i (heap s2 ! i)"
    by (simp_all add: sim_heap_def)
  from n(1) show "jtype (heap s2 ! i) = jtype (heap s1 ! i)" "jparent (heap s2 ! i) = jparent (heap s1 ! i)"
    by (simp_all add: same_shape_def)
  assume "container (jtype (heap s1 ! i))"
  then show "jlength (heap s2 ! i) = jlength (heap s1 ! i)"
    using n(2) by (elim disjE) (simp_all add: node_sim_def array_sim_def object_sim_def)
qed



text \<open>
  When the buffer of the root cannot be allocated, the root keeps the number of elements that
  the first pass has counted; freeing it then reads through the null pointer.
\<close>

lemma root_allocation_failure:
  "json_parse_ex settings0 ''[1]'' [True, True, False] = (Inl Null_dereference, [])"
  "json_parse_ex settings0 ''[[1]]'' [True, True, True, True, False] = (Inl Memory_allocation_failure, [])"
  by code_simp+



end
