(* ===== verification/Json_Value.thy ===== *)
theory Json_Value
  imports Json_Trees Json_Contract
begin

text \<open>
  The parser is correct on every document: it delivers the value that the document denotes.
\<close>

section \<open>The value of the finished store\<close>

definition agrees :: "json_node list \<Rightarrow> nat \<Rightarrow> json_node list \<Rightarrow> bool" where
  "agrees h b ns \<longleftrightarrow> b + length ns \<le> length h \<and> (\<forall>i < length ns. \<exists>x. h ! (b + i) = (ns ! i)\<lparr>jnext_alloc := x\<rparr>)"

lemma agrees_append: "agrees h b (ns @ ms) \<Longrightarrow> agrees h b ns \<and> agrees h (b + length ns) ms"
proof -
  assume a: "agrees h b (ns @ ms)"
  have "\<exists>x. h ! (b + i) = (ns ! i)\<lparr>jnext_alloc := x\<rparr>" if "i < length ns" for i
    using a that by (auto simp: agrees_def nth_append dest!: spec [of _ i])
  moreover have "\<exists>x. h ! (b + length ns + i) = (ms ! i)\<lparr>jnext_alloc := x\<rparr>" if "i < length ms" for i
    using a that by (auto simp: agrees_def nth_append add.assoc dest!: spec [of _ "length ns + i"])
  ultimately show ?thesis using a by (simp add: agrees_def)
qed

lemma agrees_Cons:
  assumes "agrees h b (n # ns)"
  obtains x where "b < length h" "h ! b = n\<lparr>jnext_alloc := x\<rparr>" "agrees h (Suc b) ns"
  using assms agrees_append [of h b "[n]" ns] that by (force simp: agrees_def)

lemma chain_agrees: "agrees (chain ns) 0 ns"
  by (auto simp: agrees_def chain_nth)

text \<open>What is seen through a pointer below the node at \<open>i\<close>.\<close>

definition seen :: "json_node list \<Rightarrow> nat \<Rightarrow> nat option \<Rightarrow> jval" where
  "seen h i o' = (case o' of None \<Rightarrow> JBad | Some j \<Rightarrow> if i < j then json_view h j else JBad)"

lemma begins_entries: "map evalue (entries off b ms) = begins b (map snd ms)"
  by (induction off b ms rule: entries.induct) simp_all

lemma bytes_at_append: "bytes_at (mem @ map Some nm @ r) (length mem) (length nm) = nm"
  by (simp add: bytes_at_def comp_def)

definition entry_name :: "char option list \<Rightarrow> json_entry \<Rightarrow> string" where
  "entry_name mem e = (case ename e of None \<Rightarrow> [] | Some off \<Rightarrow> bytes_at mem off (ename_length e))"

lemma entry_names: "map (entry_name (mem @ name_mem ms)) (entries (length mem) b ms) = map fst ms"
proof (induction ms arbitrary: mem b)
  case (Cons m ms)
  obtain nm v where m: "m = (nm, v)" by (cases m)
  from Cons.IH [of "mem @ map Some nm @ [Some NUL]" "b + jcount v"] bytes_at_append [of mem nm "Some NUL # name_mem ms"]
  show ?case by (simp add: m) (simp add: entry_name_def)
qed simp

lemma view_string: "bytes_at (map Some s @ r) 0 (length s) = s"
  using bytes_at_append [of "[]" s r] by simp

lemma view_object:
  assumes "b < length h" "jtype (h ! b) = json_object"
  shows "json_view h b =
    JObject (map (\<lambda>e. (entry_name (jobject_mem (h ! b)) e, seen h b (evalue e))) (take (jlength (h ! b)) (jentries (h ! b))))"
  unfolding entry_name_def seen_def using assms by (simp add: json_view.simps [of h b] Let_def)

lemma view_array:
  assumes "b < length h" "jtype (h ! b) = json_array"
  shows "json_view h b = JArray (map (seen h b) (take (jlength (h ! b)) (jvalues (h ! b))))"
  unfolding seen_def [abs_def] using assms by (simp add: json_view.simps [of h b] Let_def)

lemma view_nodes:
  "agrees h b (nodes False p b v) \<Longrightarrow> json_view h b = v"
  "agrees h b (nodes_list False q b vs) \<Longrightarrow> i < b \<Longrightarrow> map (seen h i) (begins b vs) = vs"
proof (induction False p b v and False q b vs arbitrary: and i rule: nodes_nodes_list.induct)
  case (1 p b v)
  from 1(2) [unfolded nodes.simps] obtain x where x: "b < length h" "h ! b = (head False p b v)\<lparr>jnext_alloc := x\<rparr>"
    "agrees h (Suc b) (nodes_list False b (Suc b) (children v))" by (rule agrees_Cons)
  from 1(1) [OF x(3), of b] have ch: "map (seen h b) (begins (Suc b) (children v)) = children v" by simp
  show ?case
  proof (cases v)
    case (JObject ms)
    have "map (\<lambda>e. (entry_name (name_mem ms) e, seen h b (evalue e))) (entries 0 (Suc b) ms)
      = zip (map (entry_name (name_mem ms)) (entries 0 (Suc b) ms)) (map (seen h b) (map evalue (entries 0 (Suc b) ms)))"
      by (simp add: zip_map_map zip_same_conv_map)
    also have "\<dots> = ms"
      using entry_names [of "[]" ms "Suc b"] ch JObject by (simp add: begins_entries zip_map_fst_snd)
    finally show ?thesis using x(1,2) JObject by (simp add: view_object head.simps json_calloc_def)
  next
    case (JArray us)
    then show ?thesis using x(1,2) ch by (simp add: view_array head.simps json_calloc_def)
  qed (use x(1,2) ch in \<open>simp_all add: json_view.simps [of h b] head.simps json_calloc_def num_node_def view_string seen_def\<close>)
next
  case (3 q b v vs)
  from agrees_append [OF 3(3) [unfolded nodes_list.simps]]
  have a: "agrees h b (nodes False (Some q) b v)" "agrees h (b + jcount v) (nodes_list False q (b + jcount v) vs)" by simp_all
  with 3(1) 3(2) [OF a(2)] 3(4) show ?case by (simp add: seen_def)
qed simp

section \<open>Both passes over a document\<close>

lemma stand_done:
  assumes "stand first (length js) tp Finished H T s"
  shows "json_body settings0 js s = Break s"
  using assms by (auto simp: stand_def sees_def core_def json_body_tail section_string_def section_done_def)

lemma document_goes:
  assumes "document v js" "length js \<le> uint_max"
  shows "goes js (stand first 0 None Want [] (nodes True None 0 v)) (stand first (length js) (Some 0) Finished (nodes first None 0 v) [])"
proof -
  from assms(1) obtain w tx w' where d: "blank w" "jtext v tx" "blank w'" "js = w @ tx @ w'" by (auto simp: document_def)
  have "reads js v tx" by (rule grammar_reads(1) [OF assms(2) d(2)]) (simp add: d(4))
  moreover have "stops (w' @ [])" by (rule stops_blank [OF d(3)]) simp
  moreover have "lands first [] None (Some 0) Finished []" by (simp add: lands_def)
  ultimately have "goes js (stand first (length w) None Want [] (nodes True None (length ([] :: json_node list)) v @ []))
      (stand first (length w + length tx) (Some 0) Finished ([] @ nodes first None (length ([] :: json_node list)) v) [])"
    using d(4) unfolding reads_def by (metis append_Nil2)
  moreover note stand_space [OF d(1), of js "[]" "tx @ w'" Want None "[]" first "nodes True None 0 v"]
  moreover note stand_space [OF d(3), of js "w @ tx" "[]" Finished "Some 0" "nodes first None 0 v" first "[]"]
  ultimately show ?thesis using d(4) by (auto intro: goes_trans simp: add.assoc)
qed

lemma goes_done:
  assumes "goes js A (stand first (length js) tp Finished H T)" "A s"
    and "exits (\<lambda>_. False) (\<lambda>_. False) (\<lambda>_. True) (\<lambda>e. e \<noteq> Out_of_fuel) (json_loop settings0 js fuel s)"
  obtains z where "json_loop settings0 js fuel s = Break z" "stand first (length js) tp Finished H T z"
  using goes_loop [OF assms(1,2) _ assms(3)] stand_done that by blast

lemma pass1_stands: "False \<notin> set m \<Longrightarrow> stand True 0 None Want [] T (pass1_init m)"
  by (auto simp: stand_def sees_def pass1_init_def env_of_def env_at_def ahead_def chain_def core_def idle_def flags_seek_def)

lemma pass2_stands:
  assumes "stand True n tp pl H T s" "H \<noteq> []"
  shows "stand False 0 None Want [] H (pass2_init s)"
  using assms by (auto simp: stand_def sees_def pass2_init_def env_of_def env_at_def ahead_def core_def idle_def flags_seek_def)

lemma passes_end:
  shows "exits (\<lambda>_. False) (\<lambda>_. False) (\<lambda>_. True) (\<lambda>e. e \<noteq> Out_of_fuel) (json_loop cfg js (json_fuel js) (pass1_init m))"
    and "json_loop cfg js (json_fuel js) (pass1_init m) = Break s \<Longrightarrow>
      exits (\<lambda>_. False) (\<lambda>_. False) (\<lambda>_. True) (\<lambda>e. e \<noteq> Out_of_fuel) (json_loop cfg js (json_fuel js) (pass2_init s))"
proof -
  show "exits (\<lambda>_. False) (\<lambda>_. False) (\<lambda>_. True) (\<lambda>e. e \<noteq> Out_of_fuel) (json_loop cfg js (json_fuel js) (pass1_init m))"
    by (rule exits_mono [OF pass1_ends]) (auto simp: clean_def)
  assume "json_loop cfg js (json_fuel js) (pass1_init m) = Break s"
  from any.ends [OF this TrueI refl]
  show "exits (\<lambda>_. False) (\<lambda>_. False) (\<lambda>_. True) (\<lambda>e. e \<noteq> Out_of_fuel) (json_loop cfg js (json_fuel js) (pass2_init s))"
    by auto
qed

text \<open>The store and the root that the parser delivers for a document, and the memory it leaves.\<close>

lemma json_parse_ex_document:
  assumes "document v (skip_bom text)" "length text \<le> uint_max" "False \<notin> set m"
  shows "\<exists>h m'. json_parse_ex settings0 text m = (Inr (h, Some 0), m') \<and> json_view h 0 = v \<and> False \<notin> set m'"
proof -
  let ?js = "skip_bom text" and ?fuel = "json_fuel (skip_bom text)"
  have len: "length ?js \<le> uint_max" using assms(2) by (auto simp: skip_bom_def)
  note run = document_goes [OF assms(1) len]
  from goes_done [OF run pass1_stands [OF assms(3)] passes_end(1)] obtain s1 where
    s1: "json_loop settings0 ?js ?fuel (pass1_init m) = Break s1" "stand True (length ?js) (Some 0) Finished (nodes True None 0 v) [] s1" .
  have "stand False 0 None Want [] (nodes True None 0 v) (pass2_init s1)"
    by (rule pass2_stands [OF s1(2)]) (simp add: nodes.simps)
  from goes_done [OF run this passes_end(2) [OF s1(1)]] obtain s2 where
    s2: "json_loop settings0 ?js ?fuel (pass2_init s1) = Break s2" "stand False (length ?js) (Some 0) Finished (nodes False None 0 v) [] s2" .
  have "heap s2 = chain (nodes False None 0 v)" "s_root s2 = Some 0" "False \<notin> set (s_mem s2)"
    using s2(2) by (auto simp: stand_def sees_def env_of_def env_at_def ahead_def nodes.simps)
  moreover have "json_view (chain (nodes False None 0 v)) 0 = v" by (rule view_nodes(1) [OF chain_agrees])
  ultimately show ?thesis using s1(1) s2(1) by (simp add: json_parse_ex_def Let_def)
qed


lemma sample_document: "document (JArray [JInt (- 7), JNull]) ''[-7, null]''"
proof -
  have "int_part ''7''" by (simp add: int_part_def digits_def isdigit_def)
  from num_text.negative [OF unsigned_text.integer [OF this]]
  have "jtext (JInt (- 7)) ''-7''" by (intro number) (simp add: num64_def digit64_def digit_val_def)
  moreover have "jelems [JNull] '' null''" using elem [OF _ null, of "'' ''" "[]"] by (simp add: blank_def is_ws_def)
  ultimately have "jelems [JInt (- 7), JNull] ''-7, null''"
    using elems [of "[]" "JInt (- 7)" "''-7''" "[]" "[JNull]" "'' null''"] by (simp add: blank_def)
  then have "jtext (JArray [JInt (- 7), JNull]) ''[-7, null]''" using array by fastforce
  then show ?thesis unfolding document_def by (intro exI [of _ "[]"] exI [of _ "''[-7, null]''"]) (simp add: blank_def)
qed


end
