(* ===== verification/Fault_Text.thy ===== *)
theory Fault_Text
  imports Json_Value Fault_Facts
begin

text \<open>
  Faults as text: what \<open>faults_unparse\<close> prints is a document of the grammar, and
  \<open>faults_parse\<close> reads the same faults from it. This holds for the faults that return an
  error code; the texts of the other kinds are not documents, or lack a field.
\<close>

section \<open>Numbers and strings\<close>

lemma num64_digits: "foldl digit64 (of_int a) ds = of_int (digits_val a ds)"
proof (induction ds arbitrary: a)
  case (Cons c ds)
  have "digit64 (of_int a) c = of_int (a * 10 + int (digit_val c))" by (simp add: digit64_def)
  with Cons.IH [of "a * 10 + int (digit_val c)"] show ?case by simp
qed simp

lemma num64_dec: "0 \<le> n \<Longrightarrow> num64 (dec n) = of_int n"
  using num64_digits [of 0 "dec n"] by (simp add: num64_def)

lemma dec_int_part: "0 \<le> n \<Longrightarrow> int_part (dec n)"
  by (auto simp: int_part_def digits_def list_all_iff dec_digits dec_hd dec_0)

lemma fmt_d_text: "jtext (JInt (of_int i)) (fmt_d i)"
proof (cases "i < 0")
  case True
  with num_text.negative [OF unsigned_text.integer [OF dec_int_part [of "- i"]]]
  show ?thesis by (intro number) (simp add: fmt_d_def num64_dec)
next
  case False
  with num_text.positive [OF unsigned_text.integer [OF dec_int_part [of i]]]
  show ?thesis by (intro number) (simp add: fmt_d_def num64_dec)
qed

lemma fmt_d_code: "jtext (JInt (scast (c :: int32))) (fmt_d (sint c))"
  using fmt_d_text [of "sint c"] by simp

lemma to_int32_scast: "to_int32 (scast (c :: int32)) = c"
  using to_int32_of_int [of "sint c"] by simp

lemma plain_text: "list_all plain_char s \<Longrightarrow> str_text s s"
  by (induction s) (auto intro: str_text.intros)

lemma plain_nul_free: "list_all plain_char s \<Longrightarrow> nul_free s"
  by (auto simp: list_all_iff plain_char_def nul_free_def)

lemma jq_quoted: "jq s = quoted s"
  by (simp add: jq_def quoted_def)

section \<open>One fault\<close>

text \<open>A fault whose text can be read: it returns a code, and its paths need no escapes.\<close>

definition plain_path :: "'a fault_path_scheme \<Rightarrow> bool" where
  "plain_path f \<longleftrightarrow> list_all plain_char (fprefix f) \<and> list_all plain_char (fsuffix f)"

fun readable_fault :: "kibosh_fault \<Rightarrow> bool" where
  "readable_fault (Unreadable f) = plain_path f"
| "readable_fault (Unwritable f) = plain_path f"
| "readable_fault _ = False"

definition code_json :: "string \<Rightarrow> code_fault \<Rightarrow> jval" where
  "code_json ty f = JObject [(''type'', JStr ty), (''prefix'', JStr (fprefix f)), (''suffix'', JStr (fsuffix f)),
     (''code'', JInt (scast (code f)))]"

definition code_text :: "string \<Rightarrow> code_fault \<Rightarrow> string" where
  "code_text ty f = unparse_head ty (fprefix f) (fsuffix f) @ jq ''code'' @ '':'' @ fmt_d (sint (code f)) @ ''}''"

fun fault_json :: "kibosh_fault \<Rightarrow> jval" where
  "fault_json (Unreadable f) = code_json ''unreadable'' f"
| "fault_json (Unwritable f) = code_json ''unwritable'' f"
| "fault_json _ = JBad"

fun fault_text :: "kibosh_fault \<Rightarrow> string" where
  "fault_text (Unreadable f) = code_text ''unreadable'' f"
| "fault_text (Unwritable f) = code_text ''unwritable'' f"
| "fault_text _ = []"

lemma str_member:
  assumes "list_all plain_char n" "list_all plain_char s" "blank w" "jmembers ms txs"
  shows "jmembers ((n, JStr s) # ms) (w @ jq n @ '':'' @ jq s @ '','' @ txs)"
  using members [OF assms(3) plain_text [OF assms(1)] _ _ str [OF plain_text [OF assms(2)]] _ assms(4), of "[]" "[]" "[]"]
  by (simp add: blank_def jq_quoted)

lemma code_text_json:
  assumes "plain_path f" "list_all plain_char ty"
  shows "jtext (code_json ty f) (code_text ty f)"
proof -
  have sp: "blank '' ''" "blank []" by (simp_all add: blank_def is_ws_def)
  have names: "list_all plain_char ''type''" "list_all plain_char ''prefix''" "list_all plain_char ''suffix''" "list_all plain_char ''code''"
    by (simp_all add: plain_char_def)
  have "jmembers [(''code'', JInt (scast (code f)))] ('' '' @ jq ''code'' @ '':'' @ fmt_d (sint (code f)))"
    using member [OF sp(1) plain_text [OF names(4)] sp(2,2) fmt_d_code sp(2)] by (simp add: jq_quoted)
  from str_member [OF names(1) assms(2) sp(2) str_member [OF names(2) _ sp(1) str_member [OF names(3) _ sp(1) this]]]
  have "jmembers [(''type'', JStr ty), (''prefix'', JStr (fprefix f)), (''suffix'', JStr (fsuffix f)),
      (''code'', JInt (scast (code f)))]
    (jq ''type'' @ '':'' @ jq ty @ '','' @ '' '' @ jq ''prefix'' @ '':'' @ jq (fprefix f) @ '','' @ '' '' @ jq ''suffix'' @ '':'' @
     jq (fsuffix f) @ '','' @ '' '' @ jq ''code'' @ '':'' @ fmt_d (sint (code f)))"
    using assms(1) by (simp add: plain_path_def)
  from object [OF this] show ?thesis by (simp add: code_json_def code_text_def unparse_head_def)
qed

lemma fault_text_json: "readable_fault f \<Longrightarrow> jtext (fault_json f) (fault_text f)"
  by (cases f) (simp_all add: code_text_json plain_char_def)

lemma fmt_d_nul_free: "nul_free (fmt_d i)"
  using nul_free_digits [OF dec_digits, of "\<bar>i\<bar>"] by (auto simp: fmt_d_def nul_free_def)

lemma jq_nul_free: "nul_free (jq s) = nul_free s"
  by (auto simp: jq_def nul_free_def)

lemma fault_text_nul_free: "readable_fault f \<Longrightarrow> nul_free (fault_text f)"
  using plain_nul_free by (cases f) (simp_all add: code_text_def unparse_head_def jq_nul_free fmt_d_nul_free plain_path_def)

lemma unparse_text:
  assumes "readable_fault f" "False \<notin> set m"
  shows "kibosh_fault_base_unparse f m = (Some (fault_text f), tl m)"
  using assms by (cases f; cases m)
    (auto simp: kibosh_fault_base_unparse_def kibosh_fault_unreadable_unparse_def kibosh_fault_unwritable_unparse_def
      dynprintf_def code_text_def)

lemma alloc_served: "False \<notin> set m \<Longrightarrow> alloc m = (True, tl m)"
  by (cases m) auto

lemma parse_code_path:
  assumes "plain_path f" "False \<notin> set m"
  shows "parse_path (code_json ty f) m = (Some \<lparr>fprefix = fprefix f, fsuffix = fsuffix f\<rparr>, tl (tl (tl m)))"
proof -
  have "get_child (code_json ty f) ''prefix'' = Some (JStr (fprefix f))" "get_child (code_json ty f) ''suffix'' = Some (JStr (fsuffix f))"
    by (simp_all add: code_json_def get_child_def strcmp_eq_def cstr_def)
  moreover have "nul_free (fprefix f)" "nul_free (fsuffix f)" using assms(1) plain_nul_free by (auto simp: plain_path_def)
  ultimately show ?thesis
    by (simp add: parse_path_def alloc_served False_tl assms(2) dup_json_str_value_def strdup_def)
qed

lemma parse_code: "int_field (code_json ty f) ''code'' = Some (scast (code f))"
  by (simp add: int_field_def code_json_def get_child_def strcmp_eq_def cstr_def)

lemma code_fault_eta: "with_code \<lparr>fprefix = fprefix f, fsuffix = fsuffix f\<rparr> (code f) = f"
  by (simp add: with_code_def)

lemma parse_fault_json:
  assumes "readable_fault f" "False \<notin> set m"
  shows "\<exists>m'. kibosh_fault_base_parse (fault_json f) m = (Some f, m') \<and> False \<notin> set m'"
proof -
  have ty: "get_child (code_json ty g) ''type'' = Some (JStr ty)" for ty g
    by (simp add: code_json_def get_child_def strcmp_eq_def)
  have "False \<notin> set (tl (tl (tl m)))" using assms(2) by (intro False_tl)
  then show ?thesis using assms(1)
    by (cases f) (auto simp: kibosh_fault_base_parse_def ty strcmp_eq_def cstr_def wrap_fault_def kibosh_fault_unreadable_parse_def
        kibosh_fault_unwritable_parse_def parse_code_path [OF _ assms(2)] parse_code to_int32_scast code_fault_eta)
qed

section \<open>The list of faults\<close>

definition faults_json :: "kibosh_faults \<Rightarrow> jval" where
  "faults_json fs = JObject [(''faults'', JArray (map fault_json fs))]"

fun faults_body :: "kibosh_faults \<Rightarrow> string" where
  "faults_body [] = []"
| "faults_body (f # fs) = fault_text f @ concat (map (\<lambda>g. '', '' @ fault_text g) fs)"

definition faults_text :: "kibosh_faults \<Rightarrow> string" where
  "faults_text fs = ''{'' @ jq ''faults'' @ '':['' @ faults_body fs @ '']}''"

lemma body_elems:
  "\<forall>g \<in> set (f # fs). readable_fault g \<Longrightarrow> blank w \<Longrightarrow> jelems (map fault_json (f # fs)) (w @ faults_body (f # fs))"
proof (induction fs arbitrary: f w)
  case Nil
  then show ?case using elem [OF Nil(2) fault_text_json, of f "[]"] by (simp add: blank_def)
next
  case (Cons g fs)
  have sp: "blank '' ''" "blank []" by (simp_all add: blank_def is_ws_def)
  from elems [OF Cons.prems(2) fault_text_json sp(2) Cons.IH [OF _ sp(1)], of f g] Cons.prems(1) show ?case by simp
qed

lemma faults_document:
  assumes "\<forall>f \<in> set fs. readable_fault f"
  shows "document (faults_json fs) (faults_text fs)"
proof -
  have sp: "blank []" by (simp add: blank_def)
  have "jtext (JArray (map fault_json fs)) (''['' @ faults_body fs @ '']'')"
  proof (cases fs)
    case Nil
    then show ?thesis using array0 [OF sp] by simp
  next
    case (Cons f gs)
    then show ?thesis using array [OF body_elems [OF _ sp, of f gs]] assms by simp
  qed
  moreover have "list_all plain_char ''faults''" by (simp add: plain_char_def)
  ultimately have "jtext (faults_json fs) ([CHR 0x7B] @ (jq ''faults'' @ '':'' @ ''['' @ faults_body fs @ '']'') @ [CHR 0x7D])"
    unfolding faults_json_def jq_quoted using object [OF member [OF sp plain_text sp sp _ sp]] by (simp only: append_Nil append_Nil2)
  then show ?thesis unfolding document_def
    by (intro exI [of _ "[]"] exI [of _ "faults_text fs"]) (simp add: faults_text_def sp)
qed

lemma strdup_served: "False \<notin> set m \<Longrightarrow> strdup str m = (Some str, tl m)"
  by (simp add: strdup_def alloc_served)

lemma unparse_loop_text:
  assumes "\<forall>f \<in> set fs. readable_fault f" "False \<notin> set m"
  shows "\<exists>strs m'. unparse_loop first fs m = (Some strs, m') \<and> False \<notin> set m' \<and> (\<forall>str \<in> set strs. nul_free str) \<and>
    concat strs = (if first then faults_body fs else concat (map (\<lambda>g. '', '' @ fault_text g) fs))"
  using assms
proof (induction fs arbitrary: first m)
  case (Cons f fs)
  let ?m = "if first then m else tl m" and ?sep = "if first then [] else ['', '']"
  have m: "False \<notin> set ?m" "False \<notin> set (tl ?m)" using Cons.prems(2) False_tl by simp_all
  from Cons.IH [OF _ m(2), of False] Cons.prems(1) obtain strs m' where
    l: "unparse_loop False fs (tl ?m) = (Some strs, m')" "False \<notin> set m'" "\<forall>str \<in> set strs. nul_free str"
      "concat strs = concat (map (\<lambda>g. '', '' @ fault_text g) fs)" by auto
  have "kibosh_fault_base_unparse f ?m = (Some (fault_text f), tl ?m)" using unparse_text Cons.prems(1) m(1) by simp
  then have "unparse_loop first (f # fs) m = (Some (?sep @ fault_text f # strs), m')"
    using l(1) strdup_served [OF Cons.prems(2)] by (cases first) simp_all
  moreover have "nul_free (fault_text f)" using fault_text_nul_free Cons.prems(1) by simp
  ultimately show ?case using l(2-) by (intro exI [of _ "?sep @ fault_text f # strs"] exI [of _ m']) simp
qed simp

lemma faults_unparse_text:
  assumes "\<forall>f \<in> set fs. readable_fault f" "False \<notin> set m"
  shows "fst (faults_unparse junk fs m) = Inr (Some (faults_text fs))"
proof -
  let ?hd = "''{'' @ jq ''faults'' @ '':[''"
  have m: "False \<notin> set (tl m)" "False \<notin> set (tl (tl m))" using assms(2) False_tl by blast+
  from unparse_loop_text [OF assms(1) m(2), of True] obtain strs m' where
    l: "unparse_loop True fs (tl (tl m)) = (Some strs, m')" "False \<notin> set m'" "\<forall>str \<in> set strs. nul_free str" "concat strs = faults_body fs"
    by auto
  have "\<forall>str \<in> set (?hd # strs @ ['']}'']). nul_free str" using l(3) by (auto simp: jq_def)
  from join_strs_concat [OF _ this, of junk "tl m'"]
  have "join_strs junk (?hd # strs @ ['']}'']) (tl m') = (Inr (Some (faults_text fs)), tl (tl m'))"
    by (simp add: alloc_served False_tl l(2,4) faults_text_def)
  then show ?thesis
    by (simp add: faults_unparse_def alloc_served assms(2) strdup_served m l(1,2))
qed

text \<open>\<open>faults_parse\<close> on a document depends only on the value that it denotes.\<close>

lemma faults_parse_document:
  assumes "document v (skip_bom text)" "length text \<le> uint_max" "False \<notin> set m"
  shows "\<exists>m'. False \<notin> set m' \<and> faults_parse text m = faults_of_json v m'"
  using json_parse_ex_document [OF assms] by (auto simp: faults_parse_def)

lemma fault_array_loop_json:
  assumes "\<forall>f \<in> set fs. readable_fault f" "False \<notin> set m"
  shows "\<exists>m'. fault_array_loop (map fault_json fs) m = (Some fs, m')"
  using assms
proof (induction fs arbitrary: m)
  case (Cons f fs)
  from parse_fault_json [of f m] Cons.prems obtain m1 where
    m1: "kibosh_fault_base_parse (fault_json f) m = (Some f, m1)" "False \<notin> set m1" by auto
  with Cons.IH [OF _ m1(2)] Cons.prems(1) show ?case by auto
qed simp

lemma faults_of_faults_json:
  assumes "\<forall>f \<in> set fs. readable_fault f" "False \<notin> set m"
  shows "fst (faults_of_json (faults_json fs) m) = Inr fs"
proof -
  have "False \<notin> set (tl (tl m))" using assms(2) False_tl by blast
  from fault_array_loop_json [OF assms(1) this] show ?thesis
    by (auto simp: faults_of_json_def faults_json_def get_child_def strcmp_eq_def fault_array_parse_def alloc_served False_tl assms(2))
qed

lemma faults_text_read:
  assumes "\<forall>f \<in> set fs. readable_fault f" "length (faults_text fs) \<le> uint_max" "False \<notin> set m"
  shows "\<exists>m'. faults_parse (faults_text fs) m = (Inr fs, m')"
proof -
  have "skip_bom (faults_text fs) = faults_text fs" by (simp add: skip_bom_def faults_text_def)
  with faults_document [OF assms(1)] have "document (faults_json fs) (skip_bom (faults_text fs))" by simp
  from faults_parse_document [OF this assms(2,3)] obtain n where
    "False \<notin> set n" "faults_parse (faults_text fs) m = faults_of_json (faults_json fs) n" by blast
  with faults_of_faults_json [OF assms(1)] show ?thesis by (metis prod.collapse)
qed

text \<open>
  C5. Faults that return an error code survive the round trip through the control file:
  \<open>faults_unparse\<close> prints a text from which \<open>faults_parse\<close> reads the same list. The paths must
  not need an escape, which \<open>faults_unparse\<close> never writes, and memory must suffice.
\<close>

theorem faults_text_roundtrip:
  assumes "\<forall>f \<in> set fs. readable_fault f" "length (faults_text fs) \<le> uint_max" "False \<notin> set m" "False \<notin> set m'"
  shows "\<exists>text. fst (faults_unparse junk fs m) = Inr (Some text) \<and> fst (faults_parse text m') = Inr fs"
  using faults_text_read [OF assms(1,2,4)] faults_unparse_text [OF assms(1,3)] by auto

definition sample_faults :: kibosh_faults where
  "sample_faults = [Unreadable \<lparr>fprefix = ''/a'', fsuffix = ''.log'', code = 5\<rparr>, Unwritable \<lparr>fprefix = [], fsuffix = [], code = - 28\<rparr>]"

theorem faults_text_roundtrip_witness:
  "\<exists>text. fst (faults_unparse (\<lambda>_. CHR ''x'') sample_faults []) = Inr (Some text) \<and> fst (faults_parse text []) = Inr sample_faults"
proof (rule faults_text_roundtrip)
  show "\<forall>f \<in> set sample_faults. readable_fault f" by (simp add: sample_faults_def plain_path_def plain_char_def)
  have "length (faults_text sample_faults) \<le> 400" by code_simp
  then show "length (faults_text sample_faults) \<le> uint_max" by (simp add: uint_max_def)
qed simp_all

end
