(* ===== verification/Control_Effect.thy ===== *)
theory Control_Effect
  imports Fault_Text File_Facts
begin

text \<open>
  The effect of the control file: the specification of what a list of faults means to reads
  and writes, and that the handlers obey it once the text of the list has been released.
\<close>

section \<open>From the list of faults to reads and writes\<close>

text \<open>
  What a list of faults that return a code means to a user: the first fault that covers the
  operation decides, with its code negated.
\<close>

fun fault_code :: "kibosh_fault \<Rightarrow> int" where
  "fault_code (Unreadable f) = - \<bar>sint (code f)\<bar>"
| "fault_code (Unwritable f) = - \<bar>sint (code f)\<bar>"
| "fault_code _ = 0"

definition verdict :: "kibosh_faults \<Rightarrow> string \<Rightarrow> string \<Rightarrow> int option" where
  "verdict fl path op = map_option fault_code (find (\<lambda>f. covers f path op) fl)"

lemma readable_facts: "readable_fault f \<Longrightarrow> plain_paths f \<and> lucky f = None"
  using plain_nul_free by (cases f) (auto simp: plain_path_def plain_paths_def lucky_def)

lemma find_nth: "find P xs = map_option ((!) xs) (find (\<lambda>i. P (xs ! i)) [0..<length xs])"
  using find_map [of P "(!) xs" "[0..<length xs]"] by (simp add: map_nth comp_def)

text \<open>The search on such a list finds the position of the fault that decides.\<close>

lemma readable_search:
  assumes "\<forall>f \<in> set fl. readable_fault f" "nul_free path" "nul_free op"
  obtains "find_first_fault fl path op r = (None, r)" "verdict fl path op = None"
  | i where "find_first_fault fl path op r = (Some i, r)" "i < length fl" "covers (fl ! i) path op"
      "readable_fault (fl ! i)" "verdict fl path op = Some (fault_code (fl ! i))"
proof -
  let ?i = "find (\<lambda>i. covers (fl ! i) path op) [0..<length fl]"
  have s: "find_first_fault fl path op r = (?i, r)"
    unfolding find_first_fault_first
    by (rule kf.first_sure) (use assms readable_facts in \<open>auto simp: kibosh_fault_matches_spec\<close>)
  have v: "verdict fl path op = map_option (\<lambda>i. fault_code (fl ! i)) ?i"
    unfolding verdict_def by (subst find_nth) (simp add: option.map_comp comp_def)
  show thesis
  proof (cases ?i)
    case None
    with s v that(1) show ?thesis by simp
  next
    case (Some i)
    then have "i < length fl \<and> covers (fl ! i) path op" by (auto simp: find_Some_iff)
    with Some s v that(2) [of i] assms(1) show ?thesis by simp
  qed
qed

lemma relock:
  assumes "\<not> locked fs"
  shows "pthread_mutex_unlock (fs\<lparr>locked := True\<rparr>) = fs"
    "pthread_mutex_unlock (fs\<lparr>locked := True, faults := (faults fs)[i := faults fs ! i]\<rparr>) = fs"
  using assms by (cases fs; simp add: pthread_mutex_unlock_def)+

lemma process_same: "p\<lparr>rnd := rnd p\<rparr> = p" "p\<lparr>rnd := rnd p, memory := memory p\<rparr> = p" "p\<lparr>os := w, rnd := rnd p\<rparr> = p\<lparr>os := w\<rparr>"
  by (cases p; simp)+

lemma read_verdict:
  assumes "\<forall>f \<in> set (faults fs). readable_fault f" "\<not> locked fs" "nul_free (file_path file)"
    and "read_loop (file_fd file) n offset 0 0 buf (os p) = (k, buf1, w)"
  shows "kibosh_read file buf n offset fs p =
    Ret (if k \<le> 0 then k else case verdict (faults fs) (file_path file) ''read'' of None \<Rightarrow> k | Some c \<Rightarrow> c,
         buf1, fs, p\<lparr>os := w\<rparr>)"
proof (cases "k \<le> 0")
  case True
  with assms(4) show ?thesis by (simp add: kibosh_read_def)
next
  case False
  have op: "nul_free ''read''" by simp
  show ?thesis
    using readable_search [OF assms(1,3) op, of "rnd p"]
  proof cases
    case 1
    with assms(2,4) False relock show ?thesis
      by (simp add: kibosh_read_def pthread_mutex_lock_def process_same)
  next
    case (2 i)
    then obtain f where f: "faults fs ! i = Unreadable f"
      by (cases "faults fs ! i") (auto simp: covers_def fault_op_def)
    from 2 f relock(2) [OF assms(2), of i] assms(2,4) False show ?thesis
      by (simp add: kibosh_read_def pthread_mutex_lock_def process_same apply_read_fault_def
          kibosh_fault_unreadable_apply_def negated_code sleep_if_def)
  qed
qed

lemma write_verdict:
  assumes "\<forall>f \<in> set (faults fs). readable_fault f" "\<not> locked fs" "nul_free (file_path file)"
    and "write_loop (file_fd file) (take n buf) offset 0 (os p) = (off, w)"
  shows "kibosh_write file buf n offset fs p =
    (case verdict (faults fs) (file_path file) ''write'' of
       None \<Rightarrow> Ret (int off, fs, p\<lparr>os := w\<rparr>)
     | Some c \<Rightarrow> if c < 0 then Ret (c, fs, p) else Ret (int off, fs, p\<lparr>os := w\<rparr>))"
proof -
  have op: "nul_free ''write''" by simp
  show ?thesis
    using readable_search [OF assms(1,3) op, of "rnd p"]
  proof cases
    case 1
    with assms(2,4) relock show ?thesis
      by (simp add: kibosh_write_def pthread_mutex_lock_def process_same sleep_if_def)
  next
    case (2 i)
    then obtain f where f: "faults fs ! i = Unwritable f"
      by (cases "faults fs ! i") (auto simp: covers_def fault_op_def)
    from 2 f relock(2) [OF assms(2), of i] assms(2,4) show ?thesis
      by (simp add: kibosh_write_def pthread_mutex_lock_def process_same apply_write_fault_def
          kibosh_fault_unwritable_apply_def negated_code sleep_if_def)
  qed
qed

section \<open>From the text to the list of faults\<close>

lemma faults_text_nul_free: "\<forall>f \<in> set fl. readable_fault f \<Longrightarrow> nul_free (faults_text fl)"
  using fault_text_nul_free by (cases fl) (auto simp: faults_text_def jq_def nul_free_def)

lemma release_faults_text:
  assumes "\<forall>f \<in> set fl. readable_fault f" "length (faults_text fl) < CONTROL_BUF_LEN"
    and "file_type ctl = KIBOSH_FILE_TYPE_CONTROL" "fd_lookup (file_fd ctl) (os p) = Some d"
    and "and (d_flags d) O_ACCMODE \<noteq> O_RDONLY" "fd_content (os p) (file_fd ctl) = faults_text fl"
    and "cstr (cur_control_json fs) \<noteq> faults_text fl"
    and "smooth (os p)" "False \<notin> set (memory p)" "\<not> locked fs"
  obtains fs' p' where "kibosh_release ctl fs p = Ret (0, fs', p')" "faults fs' = fl" "\<not> locked fs'"
proof -
  let ?fd = "file_fd ctl"
  have t: "accessor_text (os p) ?fd = faults_text fl" "cstr (faults_text fl) = faults_text fl"
    using assms(2,6) faults_text_nul_free [OF assms(1)] by (simp_all add: accessor_text_def cstr_nul_free)
  have "length (faults_text fl) \<le> uint_max" using assms(2) by (simp add: CONTROL_BUF_LEN_def uint_max_def)
  from faults_text_read [OF assms(1) this assms(9)] obtain m' where
    "faults_parse (control_text (os p) ?fd) (memory p) = (Inr fl, m')" by (auto simp: control_text_def t)
  moreover have "\<not> strcmp_eq (cur_control_json fs) (accessor_text (os p) ?fd)"
    using assms(7) by (simp add: strcmp_eq_def t)
  moreover from release_reads [OF assms(8,4,5,10)] obtain w where
    "kibosh_fs_accessor_fd_release fs ?fd p = released fs ?fd p w" by metis
  ultimately show thesis
    using that assms(3,10) by (simp add: kibosh_release_def released_def AS_FUSE_ERR_def Let_def)
qed

end
