(* ===== verification/Util_Files.thy ===== *)
theory Util_Files
  imports Dir_Tree
begin

text \<open>
  The rest of \<open>util.c\<close>: \<open>recursive_unlink\<close>, which removes a directory with all it holds, and the
  \<open>memfd_create\<close> of systems without the call, a file in \<open>/dev/shm\<close> that is unlinked at once.
  Shown are what \<open>recursive_unlink\<close> removes, that it leaks no descriptor, and the sign of its
  errors, which depends on the depth at which they happen.
\<close>

section \<open>Trees of files\<close>

text \<open>
  What an entry of a directory is. The list of a directory is what \<open>readdir\<close> delivers, with the
  entries for itself and its parent.
\<close>

datatype tree = Reg | Sym | Folder "(string \<times> tree) list"

definition ELOOP :: int where "ELOOP = 40"

text \<open>The descriptors in use, and the answers of the calls: 0 or an \<open>errno\<close>.\<close>

record unlinker =
  slots :: "unit option list"
  answers :: "int list"

fun answer :: "unlinker \<Rightarrow> int \<times> unlinker" where
  "answer s = (case answers s of [] \<Rightarrow> (0, s) | e # es \<Rightarrow> (e, s\<lparr>answers := es\<rparr>))"

declare answer.simps [simp del]

text \<open>\<open>openat(dirfd, name, O_RDONLY | O_NOFOLLOW)\<close>: a symbolic link is not opened.\<close>

definition openat_nofollow :: "tree \<Rightarrow> unlinker \<Rightarrow> (int + nat) \<times> unlinker" where
  "openat_nofollow t s =
     (case answer s of (e, s1) \<Rightarrow>
        if e \<noteq> 0 then (Inl e, s1)
        else if t = Sym then (Inl ELOOP, s1)
        else let fd = free_slot (slots s1) in (Inr fd, s1\<lparr>slots := set_slot (slots s1) fd ()\<rparr>))"

text \<open>\<open>close(fd)\<close> with its result ignored; on a descriptor that is not open it does nothing.\<close>

definition close_slot :: "nat \<Rightarrow> unlinker \<Rightarrow> unlinker" where
  "close_slot fd s = s\<lparr>slots := (slots s)[fd := None]\<rparr>"

section \<open>\<open>recursive_unlink\<close>\<close>

definition kept :: "string \<Rightarrow> tree option \<Rightarrow> (string \<times> tree) list" where
  "kept name r = (case r of None \<Rightarrow> [] | Some t \<Rightarrow> [(name, t)])"

text \<open>
  The result, what is left of the entry, and the state; \<open>unlink_entries\<close> is the loop over the
  directory. At \<open>done\<close> the descriptor is closed, and the stream as well when it is set, which
  closes the descriptor once more. A failed \<open>closedir\<close> leaves the stream set although it has
  been freed: it is closed again, and the process ends.
\<close>

fun recursive_unlink_helper :: "tree \<Rightarrow> unlinker \<Rightarrow> (int \<times> tree option \<times> unlinker) run"
  and unlink_entries :: "(string \<times> tree) list \<Rightarrow> unlinker \<Rightarrow> (int \<times> (string \<times> tree) list \<times> unlinker) run" where
  "recursive_unlink_helper t s =
     (case openat_nofollow t s of
        (Inl e, s1) \<Rightarrow> Ret (- e, Some t, s1)
      | (Inr fd, s1) \<Rightarrow>
          (case answer s1 of (e, s2) \<Rightarrow>
             if e \<noteq> 0 then Ret (- e, Some t, close_slot fd s2)
             else (case t of
               Folder es \<Rightarrow>
                 (case answer s2 of (e, s3) \<Rightarrow>
                    if e \<noteq> 0 then Ret (- e, Some t, close_slot fd s3)
                    else (case unlink_entries es s3 of
                      Ret (ret, es', s4) \<Rightarrow>
                        if ret \<noteq> 0 then Ret (- ret, Some (Folder es'), close_slot fd (close_slot fd s4))
                        else (case answer s4 of (e, s5) \<Rightarrow>
                          if e \<noteq> 0 then Crash
                          else (case answer (close_slot fd s5) of (e, s6) \<Rightarrow>
                            if e \<noteq> 0 then Ret (- e, Some (Folder es'), close_slot fd s6)
                            else if \<exists>x \<in> set es'. \<not> is_dot (fst x) then Ret (- ENOTEMPTY, Some (Folder es'), close_slot fd s6)
                            else Ret (0, None, close_slot fd s6)))
                    | Crash \<Rightarrow> Crash | Stuck \<Rightarrow> Stuck))
             | _ \<Rightarrow>
                 (case answer s2 of (e, s3) \<Rightarrow>
                    if e \<noteq> 0 then Ret (- e, Some t, close_slot fd s3) else Ret (0, None, close_slot fd s3)))))"
| "unlink_entries [] s = Ret (0, [], s)"
| "unlink_entries ((name, t) # es) s =
     (if is_dot name then
        (case unlink_entries es s of
           Ret (ret, es', s') \<Rightarrow> Ret (ret, (name, t) # es', s') | Crash \<Rightarrow> Crash | Stuck \<Rightarrow> Stuck)
      else (case recursive_unlink_helper t s of
        Ret (ret, r, s1) \<Rightarrow>
          if ret \<noteq> 0 then Ret (ret, kept name r @ es, s1)
          else (case unlink_entries es s1 of
            Ret (ret, es', s2) \<Rightarrow> Ret (ret, kept name r @ es', s2) | Crash \<Rightarrow> Crash | Stuck \<Rightarrow> Stuck)
      | Crash \<Rightarrow> Crash | Stuck \<Rightarrow> Stuck))"

declare recursive_unlink_helper.simps [simp del]

definition recursive_unlink :: "tree \<Rightarrow> unlinker \<Rightarrow> (int \<times> tree option \<times> unlinker) run" where
  "recursive_unlink t s = recursive_unlink_helper t s"

section \<open>Descriptors\<close>

definition in_use :: "unlinker \<Rightarrow> nat set" where
  "in_use s = {i. i < length (slots s) \<and> slots s ! i \<noteq> None}"

lemma answer_in_use: "answer s = (e, s') \<Longrightarrow> in_use s' = in_use s"
  by (auto simp: answer.simps in_use_def split: list.splits)

lemma close_in_use [simp]: "in_use (close_slot fd s) = in_use s - {fd}"
  by (cases "fd < length (slots s)") (auto simp: close_slot_def in_use_def nth_list_update split: if_splits)

lemma free_slot_free: "free_slot xs \<le> length xs \<and> (free_slot xs < length xs \<longrightarrow> xs ! free_slot xs = None)"
  by (induction xs rule: free_slot.induct) auto

lemma open_in_use:
  assumes "openat_nofollow t s = (Inr fd, s')"
  shows "in_use s' = insert fd (in_use s)" "fd \<notin> in_use s"
proof -
  obtain e s1 where a: "answer s = (e, s1)" by (cases "answer s")
  then have fd: "fd = free_slot (slots s1)" "s' = s1\<lparr>slots := set_slot (slots s1) fd ()\<rparr>"
    using assms by (auto simp: openat_nofollow_def Let_def split: if_splits)
  note f = free_slot_free [of "slots s1"]
  have "fd \<notin> in_use s1" using f unfolding fd(1) by (simp add: in_use_def)
  then show "fd \<notin> in_use s" using answer_in_use [OF a] by simp
  have "in_use s' = insert fd (in_use s1)"
  proof (cases "fd < length (slots s1)")
    case True
    then show ?thesis using fd(2) by (auto simp: in_use_def set_slot_def nth_list_update)
  next
    case False
    then have "fd = length (slots s1)" using f fd(1) by simp
    then show ?thesis using fd(2) by (auto simp: in_use_def set_slot_def nth_append less_Suc_eq)
  qed
  then show "in_use s' = insert fd (in_use s)" using answer_in_use [OF a] by simp
qed

lemma open_failed_in_use: "openat_nofollow t s = (Inl e, s') \<Longrightarrow> in_use s' = in_use s \<and> e \<noteq> 0"
  by (auto simp: openat_nofollow_def Let_def ELOOP_def dest: answer_in_use split: prod.splits if_splits)

text \<open>No descriptor is leaked on any path, and the entry is gone exactly when the result is 0.\<close>

definition tidy :: "tree \<Rightarrow> bool" where
  "tidy t \<longleftrightarrow> (\<forall>s ret r s'. recursive_unlink_helper t s = Ret (ret, r, s') \<longrightarrow> in_use s' = in_use s \<and> (ret = 0 \<longleftrightarrow> r = None))"

definition tidy_list :: "(string \<times> tree) list \<Rightarrow> bool" where
  "tidy_list es \<longleftrightarrow> (\<forall>s ret es' s'. unlink_entries es s = Ret (ret, es', s') \<longrightarrow> in_use s' = in_use s)"

lemma tidy_listD: "tidy_list es \<Longrightarrow> unlink_entries es s = Ret (ret, es', s') \<Longrightarrow> in_use s' = in_use s"
  by (auto simp: tidy_list_def)

lemma tidy_entries:
  assumes "\<And>x. x \<in> set es \<Longrightarrow> tidy (snd x)"
  shows "tidy_list es"
  using assms
proof (induction es)
  case (Cons x es)
  obtain name t where x: "x = (name, t)" by (cases x)
  have "tidy_list es" using Cons by simp
  moreover have "tidy t" using Cons.prems [of x] x by simp
  ultimately show ?case by (auto simp: x tidy_list_def tidy_def split: if_splits run.splits)
qed (simp add: tidy_list_def)

lemma tidy_tree:
  assumes "\<And>es. t = Folder es \<Longrightarrow> tidy_list es"
  shows "tidy t"
  unfolding tidy_def
proof (intro allI impI)
  fix s ret r s' assume h: "recursive_unlink_helper t s = Ret (ret, r, s')"
  obtain x s1 where x: "openat_nofollow t s = (x, s1)" by (cases "openat_nofollow t s")
  show "in_use s' = in_use s \<and> (ret = 0 \<longleftrightarrow> r = None)"
  proof (cases x)
    case (Inl e)
    with x h open_failed_in_use [of t s e s1] show ?thesis by (auto simp: recursive_unlink_helper.simps)
  next
    case (Inr fd)
    note o = open_in_use [OF x [unfolded Inr]]
    obtain e s2 where s2: "answer s1 = (e, s2)" by (cases "answer s1")
    obtain e3 s3 where s3: "answer s2 = (e3, s3)" by (cases "answer s2")
    have u: "in_use s2 = insert fd (in_use s)" "in_use s3 = insert fd (in_use s)"
      using o(1) answer_in_use [OF s2] answer_in_use [OF s3] by simp_all
    show ?thesis
    proof (cases t)
      case (Folder es)
      note es = tidy_listD [OF assms [OF Folder], of s3]
      show ?thesis using h u o(2) unfolding recursive_unlink_helper.simps [of t s]
        by (auto simp: x [unfolded Inr Folder] s2 s3 Folder ENOTEMPTY_def dest!: es answer_in_use split: if_splits run.splits prod.splits)
    qed (use h x Inr s2 s3 u o(2) in \<open>auto simp: recursive_unlink_helper.simps [of Reg] recursive_unlink_helper.simps [of Sym] split: if_splits\<close>)
  qed
qed

lemma all_tidy: "tidy t"
proof (induction t)
  case (Folder es)
  then have "tidy_list es" by (intro tidy_entries) (auto simp: snds.simps)
  then show ?case by (intro tidy_tree) simp
qed (auto intro: tidy_tree)

text \<open>No path leaks a descriptor; the entry is gone exactly when the result is 0.\<close>

lemma recursive_unlink_no_leak:
  assumes "recursive_unlink t s = Ret (ret, r, s')"
  shows "in_use s' = in_use s \<and> (ret = 0 \<longleftrightarrow> r = None)"
  using assms all_tidy [of t] by (simp add: recursive_unlink_def tidy_def)

section \<open>What is removed\<close>

text \<open>Without symbolic links and failing calls everything is removed.\<close>

inductive linkfree :: "tree \<Rightarrow> bool" where
  regular: "linkfree Reg"
| folder: "(\<And>name t. (name, t) \<in> set es \<Longrightarrow> \<not> is_dot name \<Longrightarrow> linkfree t) \<Longrightarrow> linkfree (Folder es)"

definition willing :: "unlinker \<Rightarrow> bool" where
  "willing s \<longleftrightarrow> (\<forall>e \<in> set (answers s). e = 0)"

lemma willing_answer: "willing s \<Longrightarrow> \<exists>s'. answer s = (0, s') \<and> willing s'"
  by (auto simp: willing_def answer.simps split: list.splits)

lemma willing_slots [simp]: "willing (close_slot fd s) = willing s" "willing (s\<lparr>slots := x\<rparr>) = willing s"
  by (simp_all add: willing_def close_slot_def)

lemma open_willing:
  assumes "willing s" "t \<noteq> Sym"
  obtains fd s' where "openat_nofollow t s = (Inr fd, s')" "willing s'"
  using willing_answer [OF assms(1)] assms(2) by (auto simp: openat_nofollow_def Let_def)

lemma entries_removed:
  assumes "\<And>name t s. (name, t) \<in> set es \<Longrightarrow> \<not> is_dot name \<Longrightarrow> willing s \<Longrightarrow>
      \<exists>s'. recursive_unlink_helper t s = Ret (0, None, s') \<and> willing s'"
    and "willing s"
  shows "\<exists>es' s'. unlink_entries es s = Ret (0, es', s') \<and> (\<forall>x \<in> set es'. is_dot (fst x)) \<and> willing s'"
  using assms
proof (induction es arbitrary: s)
  case (Cons x es)
  obtain name t where x: "x = (name, t)" by (cases x)
  have IH: "\<exists>es' s'. unlink_entries es s = Ret (0, es', s') \<and> (\<forall>x \<in> set es'. is_dot (fst x)) \<and> willing s'" if "willing s" for s
    using Cons.prems(1) that by (intro Cons.IH) auto
  show ?case
  proof (cases "is_dot name")
    case True
    with IH [OF Cons.prems(2)] x show ?thesis by auto
  next
    case False
    with Cons.prems x obtain s1 where "recursive_unlink_helper t s = Ret (0, None, s1)" "willing s1" by (metis list.set_intros(1))
    with IH [of s1] False x show ?thesis by (auto simp: kept_def)
  qed
qed simp

lemma helper_removes: "linkfree t \<Longrightarrow> willing s \<Longrightarrow> \<exists>s'. recursive_unlink_helper t s = Ret (0, None, s') \<and> willing s'"
proof (induction arbitrary: s rule: linkfree.induct)
  case regular
  from open_willing [OF regular, of Reg] obtain fd s1 where s1: "openat_nofollow Reg s = (Inr fd, s1)" "willing s1" by auto
  from willing_answer [OF s1(2)] obtain s2 where s2: "answer s1 = (0, s2)" "willing s2" by blast
  from willing_answer [OF s2(2)] s1(1) s2(1) show ?case by (auto simp: recursive_unlink_helper.simps)
next
  case (folder es)
  from open_willing [OF folder.prems, of "Folder es"] obtain fd s1 where s1: "openat_nofollow (Folder es) s = (Inr fd, s1)" "willing s1" by auto
  from willing_answer [OF s1(2)] obtain s2 where s2: "answer s1 = (0, s2)" "willing s2" by blast
  from willing_answer [OF s2(2)] obtain s3 where s3: "answer s2 = (0, s3)" "willing s3" by blast
  have "\<exists>es' s'. unlink_entries es s3 = Ret (0, es', s') \<and> (\<forall>x \<in> set es'. is_dot (fst x)) \<and> willing s'"
    by (rule entries_removed [OF _ s3(2)]) (rule folder.IH)
  then obtain es' s4 where
    s4: "unlink_entries es s3 = Ret (0, es', s4)" "\<forall>x \<in> set es'. is_dot (fst x)" "willing s4" by blast
  from willing_answer [OF s4(3)] obtain s5 where s5: "answer s4 = (0, s5)" "willing (close_slot fd s5)" by auto
  from willing_answer [OF s5(2)] s1(1) s2(1) s3(1) s4(1,2) s5(1) show ?case by (auto simp: recursive_unlink_helper.simps)
qed

lemma recursive_unlink_removes:
  assumes "linkfree t" "willing s"
  shows "\<exists>s'. recursive_unlink t s = Ret (0, None, s') \<and> in_use s' = in_use s"
  using helper_removes [OF assms] recursive_unlink_no_leak [of t s] by (fastforce simp: recursive_unlink_def)

section \<open>The sign of an error\<close>

text \<open>
  Each level negates the result of the level below it. A symbolic link, which
  \<open>O_NOFOLLOW\<close> refuses, shows it: at an even depth the result is negative, at an odd depth
  positive.
\<close>

fun nest :: "nat \<Rightarrow> tree" where
  "nest 0 = Sym"
| "nest (Suc k) = Folder [(''a'', nest k)]"

lemma recursive_unlink_sign:
  assumes "willing s"
  shows "\<exists>s'. recursive_unlink (nest k) s = Ret (if even k then - ELOOP else ELOOP, Some (nest k), s') \<and> willing s'"
  using assms unfolding recursive_unlink_def
proof (induction k arbitrary: s)
  case 0
  from willing_answer [OF 0] show ?case by (auto simp: recursive_unlink_helper.simps openat_nofollow_def)
next
  case (Suc k)
  from open_willing [OF Suc.prems, of "nest (Suc k)"] obtain fd s1 where s1: "openat_nofollow (nest (Suc k)) s = (Inr fd, s1)" "willing s1" by auto
  from willing_answer [OF s1(2)] obtain s2 where s2: "answer s1 = (0, s2)" "willing s2" by blast
  from willing_answer [OF s2(2)] obtain s3 where s3: "answer s2 = (0, s3)" "willing s3" by blast
  from Suc.IH [OF s3(2)] obtain s4 where
    s4: "recursive_unlink_helper (nest k) s3 = Ret (if even k then - ELOOP else ELOOP, Some (nest k), s4)" "willing s4" by blast
  then have "unlink_entries [(''a'', nest k)] s3 = Ret (if even k then - ELOOP else ELOOP, [(''a'', nest k)], s4)"
    by (simp add: is_dot_def kept_def ELOOP_def)
  with s1 s2 s3 s4(2) show ?case by (auto simp: recursive_unlink_helper.simps [of _ s] ELOOP_def)
qed

section \<open>\<open>memfd_create\<close> without the call\<close>

definition O_EXCL :: int32 where "O_EXCL = 0x80"

text \<open>\<open>open\<close> with \<open>O_CREAT\<close> and \<open>O_EXCL\<close>: an existing name is refused.\<close>

definition sys_open_excl :: "string \<Rightarrow> nat sys" where
  "sys_open_excl path w =
     (if map_of (names w) path \<noteq> None then (Inl EEXIST, snd (next_outcome w)) else sys_open path (or O_CREAT (or O_EXCL O_RDWR)) w)"

text \<open>The name in \<open>/dev/shm\<close>, with the time and three random numbers (drawn from left to right).\<close>

definition shm_path :: "string \<Rightarrow> int \<Rightarrow> rand48 \<Rightarrow> string \<times> rand48" where
  "shm_path name tm r =
     (case lrand48 r of (a, r1) \<Rightarrow> case lrand48 r1 of (b, r2) \<Rightarrow> case lrand48 r2 of (c, r3) \<Rightarrow>
        (''/dev/shm/'' @ name @ ''.temp.'' @ fmt_d tm @ ''.'' @ fmt_d a @ ''.'' @ fmt_d b @ ''.'' @ fmt_d c, r3))"

definition memfd_create_shm :: "string \<Rightarrow> int \<Rightarrow> rand48 \<Rightarrow> mem \<Rightarrow> posix \<Rightarrow> (int + nat) \<times> posix \<times> rand48 \<times> mem" where
  "memfd_create_shm name tm r m w =
     (case shm_path name tm r of (path, r') \<Rightarrow>
      case dynprintf path m of
        (None, m') \<Rightarrow> (Inl (- ENOMEM), w, r', m')
      | (Some path, m') \<Rightarrow>
          (case sys_open_excl path w of
             (Inl e, w1) \<Rightarrow> (Inl (- e), w1, r', m')
           | (Inr fd, w1) \<Rightarrow> (case sys_unlink path w1 of (_, w2) \<Rightarrow> (Inr fd, w2, r', m'))))"

text \<open>A descriptor it returns refers to a new, empty file; when no call fails the file has no name.\<close>

lemma sys_open_new:
  assumes "sys_open path fl w = (Inr fd, w')" "map_of (names w) path = None" "and fl O_CREAT \<noteq> 0"
  shows "inodes w' = inodes w @ [[]]" "names w' = (path, length (inodes w)) # names w"
    "fd_lookup fd w' = Some \<lparr>d_inode = length (inodes w), d_off = 0, d_flags = fl\<rparr>" "smooth w \<Longrightarrow> smooth w'"
proof -
  obtain x w1 where x: "next_outcome w = (x, w1)" by (cases "next_outcome w")
  note n = next_outcome_sched [OF x]
  show "inodes w' = inodes w @ [[]]" "names w' = (path, length (inodes w)) # names w"
    using assms x n by (auto simp: sys_open_def install_fd_def new_inode_def Let_def split: outcome.splits)
  show "smooth w \<Longrightarrow> smooth w'"
    using assms x n next_outcome_smooth [OF x]
    by (auto simp: sys_open_def install_fd_def new_inode_def Let_def smooth_def split: outcome.splits)
  show "fd_lookup fd w' = Some \<lparr>d_inode = length (inodes w), d_off = 0, d_flags = fl\<rparr>"
    using assms x n free_slot_free [of "fds w"]
    by (auto simp: sys_open_def install_fd_def new_inode_def Let_def fd_lookup_def set_slot_def nth_append split: outcome.splits)
qed

lemma memfd_create_shm_anonymous:
  assumes "memfd_create_shm name tm r m w = (Inr fd, w', r', m')" "smooth w"
  shows "inodes w' = inodes w @ [[]] \<and> names w' = names w \<and> fd_content w' fd = []"
proof -
  let ?fl = "or O_CREAT (or O_EXCL O_RDWR)"
  obtain path r1 where p: "shm_path name tm r = (path, r1)" by (cases "shm_path name tm r")
  have fl: "and ?fl O_CREAT \<noteq> 0" by (simp add: O_CREAT_def O_EXCL_def O_RDWR_def)
  from assms(1) p obtain w1 where w1: "sys_open path ?fl w = (Inr fd, w1)" "map_of (names w) path = None" "w' = snd (sys_unlink path w1)"
    by (auto simp: memfd_create_shm_def dynprintf_def sys_open_excl_def Let_def split: option.splits prod.splits sum.splits if_splits)
  note o = sys_open_new [OF w1(1,2) fl]
  have fresh: "filter (\<lambda>(p, i). p \<noteq> path) (names w) = names w"
    using w1(2) by (intro filter_True) (force simp: map_of_eq_None_iff)
  obtain x w2 where x: "next_outcome w1 = (x, w2)" by (cases "next_outcome w1")
  note n = next_outcome_sched [OF x] next_outcome_smooth [OF x o(4) [OF assms(2)]]
  have "w' = w2\<lparr>names := names w\<rparr>"
    using w1(3) x n o(2) fresh by (cases x) (auto simp: sys_unlink_def)
  then show ?thesis using n(1) o(1,3) by (auto simp: fd_content_def fd_lookup_def content_def)
qed

end
