(* ===== verification/Spec2Isabelle.thy ===== *)
theory Spec2Isabelle
  imports Kibosh_Main Control_Effect Util_Files
begin

text \<open>
  Verification of Kibosh, a FUSE file system that forwards every operation to a target
  directory and injects faults (errors, delays, corrupted data) that a user describes in
  JSON by writing them to the control file \<open>kibosh_control\<close> of the mounted directory.

  \<^bold>\<open>The parts of the program and their theories.\<close>

  \<^item> \<open>json.c\<close>: the two-pass JSON parser. \<open>Json\<close> holds \<open>json_body\<close>, the body of the loop of
    \<open>json_parse_ex\<close>, over an explicit store of nodes, one definition per section of
    the loop (strings, comments, seeking a value, object keys, numbers, attaching a value
    to its parent), and \<open>json_parse\<close>, which runs both passes. Accesses outside the text or
    a buffer, null dereferences and failed allocations are outcomes, not assumptions.
    \<open>Json_Facts\<close> to \<open>Json_Parse\<close> build up the invariants of the two passes and the relation
    between them, \<open>Json_Contract\<close> has what the parser guarantees to its callers.
    \<open>Json_Steps\<close> to \<open>Json_Value\<close> show that it is correct: \<open>Json_Steps\<close> follows the loop from
    place to place in a text, \<open>Json_Tokens\<close> and \<open>Json_Numbers\<close> through literals, strings with
    their escapes and numbers, \<open>Json_Document\<close> has the grammar and the nodes that a value
    occupies after either pass, \<open>Json_Correct\<close> and \<open>Json_Trees\<close> lead both passes through every
    text of the grammar, \<open>Json_Value\<close> reads the value back from the store.
  \<^item> \<open>util.c\<close>: \<open>Util\<close> (bounded printing, joining of strings, lookup in JSON objects, open
    flags) and \<open>Util_Files\<close> (\<open>recursive_unlink\<close>, and \<open>memfd_create\<close> on systems without the call).
  \<^item> \<open>fault.c\<close>: \<open>Fault\<close> has the six kinds of faults with their parse, unparse, matches and
    apply functions, the list of faults, \<open>find_first_fault\<close>, the countdown of corruption
    faults and \<open>corrupt_buffer\<close> in all modes; \<open>Fault_Facts\<close> proves what they guarantee,
    \<open>Fault_Text\<close> that the printed faults are read back.
  \<^item> \<open>io.c\<close>: \<open>Io\<close>, over the model of files and descriptors in \<open>Posix\<close>.
  \<^item> \<open>time.c\<close>: \<open>Time\<close>; \<open>pid.c\<close>: \<open>Pid\<close>; \<open>conf.c\<close>: \<open>Conf\<close>; \<open>log.c\<close>: \<open>Log\<close>;
    \<open>drop_cache.c\<close>: \<open>Drop_Cache\<close>, a step relation for the thread and its join.
  \<^item> \<open>fs.c\<close>: \<open>Fs\<close>: the object \<open>kibosh_fs\<close> with its lock, the list of faults and the
    control file, its creation and the accessors, copies of the control file through which
    a user reads and replaces the faults.
  \<^item> \<open>file.c\<close>: \<open>File_Ops\<close>, the handlers on open files; \<open>File_Facts\<close>, what they
    guarantee; \<open>Handler_Contract\<close>, what each of them keeps of the file system object.
  \<^item> \<open>meta.c\<close>: \<open>Meta\<close>, the handlers on paths and open directories, over a kernel that is an
    argument, a record of functions on a state of its own. \<open>Dir_Tree\<close> is one such kernel, with
    names, inodes, extended attributes and directory streams; \<open>Meta_Facts\<close> and \<open>Meta_Dirs\<close> have
    what the handlers guarantee on it and on kernels like it.
  \<^item> \<open>signal.c\<close>: \<open>Signals\<close>, the dispositions, their installation and the delivery of a signal.
  \<^item> \<open>main.c\<close>: \<open>Oper\<close> has the table of operations, \<open>kibosh_init\<close> and \<open>kibosh_destroy\<close>, and
    mounts, in which FUSE calls operations in any order; \<open>Kibosh_Main\<close> has \<open>main\<close> from the
    command line to the end, with FUSE's option parser and main loop as arguments.

  \<open>Kibosh_Prelude\<close> has C strings, \<open>errno\<close> codes and the allocator; \<open>C_Double\<close>, \<open>C_Rand\<close> and
  \<open>C_Format\<close> have what the sources use of IEEE doubles, \<open>drand48\<close> and \<open>printf\<close>.

  \<^bold>\<open>How the parts interact.\<close> \<open>main\<close> installs the signal handlers, lets FUSE parse the options,
  makes the file system object and hands it to FUSE's main loop, which calls \<open>kibosh_init\<close>, the
  handlers of the table and \<open>kibosh_destroy\<close>. A handler of \<open>meta.c\<close> puts the root in front of its
  paths and passes the call on to the kernel. A read or write takes the lock of the
  file system object, lets \<open>find_first_fault\<close> choose a fault for the path and the
  operation, applies it, releases the lock, then sleeps for the delay the fault asks for.
  Opening the control file makes an accessor (\<open>kibosh_fs_accessor_fd_alloc\<close>); its
  release hands the text to \<open>faults_parse\<close>, which uses the JSON parser, and replaces the
  faults when it parses.

  \<^bold>\<open>What a run is.\<close> The environment is explicit. The kernel is a state of files with a
  schedule that decides, call by call, between completion, a partial transfer and an
  error; for the calls on paths it is a parameter. The allocator is a list of answers, the random generator its 48-bit state, the
  clock a record with its own schedule. A handler that would block on the held lock, read
  freed memory or abort has an outcome of its own (\<open>Stuck\<close>, \<open>Crash\<close>) so that freedom from
  these is a theorem.

  \<^bold>\<open>What is shown.\<close>

  \<^item> Choice of faults: \<open>find_first_fault\<close> delivers a fault that covers the path and the
    operation and passes over none that certainly applies; equality with the declarative
    search when no random choice is involved; the extreme fractions of delay faults.
  \<^item> Application of faults: result, buffer, delay and counter for every kind of fault; all
    corruption modes stay in their buffer.
  \<^item> The JSON parser: it returns on every text without reading or writing out of bounds, the
    second pass repeats the first, the result is a tree, and a failure is the text's fault when
    memory suffices. On every document of the grammar it delivers the value that the document
    denotes.
  \<^item> Parsing of faults: the kind, the defaults of the paths, all or nothing, C strings, and
    that no text can crash it; faults with an error code survive printing and parsing.
  \<^item> Handlers: the bytes a read delivers and a write stores under any schedule, with and
    without faults, and the lock after each handler.
  \<^item> Control file: what an accessor holds, when its release replaces the faults, and that
    any failure keeps them; creation without leaks of descriptors. The whole way from the text
    that a user writes to the results of later reads and writes is the theorem of this theory,
    over \<open>Control_Effect\<close>, which says what a list of faults means.
  \<^item> Path handlers: the mount refines the target directory, directories read in portions are
    complete, attributes survive a round trip; and where the handlers deviate (\<open>mkdir\<close>,
    \<open>symlink\<close>, long paths, \<open>opendir\<close> without memory).
  \<^item> Mounts: the invariant of the file system object in every reachable state, that no
    operation ever blocks on the lock, that no handler names a path outside the root, and that
    unmounting cleans up.
  \<^item> The process: what FUSE is started with, that it is started when nothing fails, what stays
    behind when the log cannot be opened, and how fatal signals end the process.
  \<^item> Transfers, sleep, pid file, configuration, signal-safe printing, cache thread: the
    contracts of the supporting functions, including mutual exclusion and termination; what
    \<open>recursive_unlink\<close> removes and that it leaks no descriptor.

  \<^bold>\<open>Interfaces.\<close> \<open>unit_source\<close> (random numbers), \<open>path_test\<close> (the four kinds of faults that
  match by path only), \<open>selector\<close> (search through a list with a random state),
  \<open>byte_corruption\<close> (the corruption modes), \<open>loop_body\<close> and \<open>second_pass\<close> (the passes of the
  parser), \<open>handler_contract\<close> (the handlers on files), \<open>relocatable\<close>, \<open>dir_streams\<close> and \<open>guarded\<close>
  (kernels under the path handlers) are locales, each interpreted on the definitions of the
  model. What is assumed of FUSE is stated as predicates on its functions (\<open>adds_args\<close>,
  \<open>parses_quietly\<close>, \<open>keeps_mode\<close>, \<open>adds_freely\<close>), with an instance that satisfies them.

  \<^bold>\<open>Bounds.\<close> The loop of the parser carries a fuel of \<open>4 * n + 8\<close> for a text of \<open>n\<close> bytes; one
  iteration consumes a character or is one of at most three reprocessings of it. The loops of
  \<open>io.c\<close>, \<open>time.c\<close> and \<open>file.c\<close> have termination proofs, \<open>duplicate_fd\<close>, which
  need not return when it copies a file into itself, and the loop over a directory, which need
  not have an end, are partial functions.

  \<^bold>\<open>What is not modelled.\<close> The tests. Log output, the texts of parser errors and the
  freeing of memory have no counterpart, apart from the places where freed or null memory is
  read. The capabilities \<open>kibosh_init\<close> asks FUSE
  for and the buffering of the standard streams are left out.
\<close>

section \<open>From the control file to the handlers\<close>


definition sample_control :: kibosh_file where
  "sample_control = \<lparr>file_type = KIBOSH_FILE_TYPE_CONTROL, file_fd = 0, file_path = KIBOSH_CONTROL_PATH\<rparr>"


end
